(* ===== verification/Polar_Prelude.thy ===== *)
theory Polar_Prelude
  imports Main "HOL-Library.Word"
begin

unbundle bit_operations_syntax

text \<open>
  Shared vocabulary of the development: the C integer types the modelled files use, the
  errors the server code raises, a result type for code that can raise, reads and writes of
  byte buffers with their bounds, the little-endian byte image of 32- and 64-bit integers,
  and the generic lemmas on lists, words and results that the component theories share.

  Conventions:
  \<^item> \<open>uint8\<close>, \<open>uint16\<close>, \<open>uint32\<close>, \<open>uint64\<close> values whose width matters are words; array
    indexes, sizes and ring positions, which the code keeps below an array's length, are
    \<open>nat\<close>, and signed differences of them (\<open>ssize_t\<close>) are \<open>int\<close>;
  \<^item> \<open>elog\<close>/\<open>ereport\<close> at level \<open>PANIC\<close>, \<open>FATAL\<close> and \<open>ERROR\<close> do not return: they are
    the \<open>Inl\<close> branch of a result. Lower levels only log and are left out;
  \<^item> a section between \<open>LWLockAcquire\<close> and \<open>LWLockRelease\<close> is one atomic step.
\<close>

section \<open>Types\<close>

type_synonym uint8 = "8 word"
type_synonym uint16 = "16 word"
type_synonym uint32 = "32 word"
type_synonym uint64 = "64 word"
type_synonym byte = "8 word"
type_synonym XLogRecPtr = "64 word"
type_synonym TransactionId = "32 word"
type_synonym CommitSeqNo = "64 word"
type_synonym Oid = "32 word"
type_synonym BlockNumber = "32 word"

abbreviation InvalidXLogRecPtr :: XLogRecPtr where
  "InvalidXLogRecPtr \<equiv> 0"

abbreviation UINT64_MAX :: uint64 where
  "UINT64_MAX \<equiv> - 1"

record RelFileNode =
  spcNode :: Oid
  dbNode :: Oid
  relNode :: Oid

record BufferTag =
  rnode :: RelFileNode
  forkNum :: uint32
  blockNum :: BlockNumber

section \<open>Errors and results\<close>

text \<open>
  Besides the error levels: an access outside an array, through a null pointer, or to a union
  through the member that was not stored; a wait for a lock that the waiting process holds
  itself, and a loop that never ends (a chain walk that takes more steps than the table has
  entries).
\<close>

datatype pg_error = PANIC string | FATAL string | ERROR string | OutOfBounds | NullPointer | WrongMember
  | SelfDeadlock | NoReturn

type_synonym 'a result = "pg_error + 'a"

definition rbind :: "'a result \<Rightarrow> ('a \<Rightarrow> 'b result) \<Rightarrow> 'b result" where
  "rbind m f = (case m of Inl e \<Rightarrow> Inl e | Inr x \<Rightarrow> f x)"

text \<open>An array read \<open>a[i]\<close> and an array write \<open>a[i] = v\<close> with the bounds made explicit.\<close>

definition aget :: "'a list \<Rightarrow> nat \<Rightarrow> 'a result" where
  "aget xs i = (if i < length xs then Inr (xs ! i) else Inl OutOfBounds)"

definition aset :: "'a list \<Rightarrow> nat \<Rightarrow> 'a \<Rightarrow> 'a list result" where
  "aset xs i v = (if i < length xs then Inr (xs[i := v]) else Inl OutOfBounds)"

text \<open>The object a pointer points to.\<close>

definition deref :: "'a option \<Rightarrow> 'a result" where
  "deref p = (case p of None \<Rightarrow> Inl NullPointer | Some x \<Rightarrow> Inr x)"

text \<open>\<open>memcpy\<close> out of, and into, a byte array at an offset.\<close>

definition memcpy_from :: "'a list \<Rightarrow> nat \<Rightarrow> nat \<Rightarrow> 'a list result" where
  "memcpy_from d i n = (if i + n \<le> length d then Inr (take n (drop i d)) else Inl OutOfBounds)"

definition memcpy_to :: "'a list \<Rightarrow> nat \<Rightarrow> 'a list \<Rightarrow> 'a list result" where
  "memcpy_to d i b =
     (if i + length b \<le> length d
      then Inr (take i d @ b @ drop (i + length b) d) else Inl OutOfBounds)"

text \<open>The \<open>n\<close> elements of a circular array from position \<open>h\<close> on.\<close>

definition ring_view :: "'a list \<Rightarrow> nat \<Rightarrow> nat \<Rightarrow> 'a list" where
  "ring_view xs h n = map (\<lambda>i. xs ! ((h + i) mod length xs)) [0..<n]"

text \<open>The next and the previous slot of a ring of \<open>n\<close> slots (\<open>access/polar_logindex.h\<close>).\<close>

definition LOOP_NEXT_VALUE :: "nat \<Rightarrow> nat \<Rightarrow> nat" where
  "LOOP_NEXT_VALUE v n = (if v = n - 1 then 0 else v + 1)"

definition LOOP_PREV_VALUE :: "nat \<Rightarrow> nat \<Rightarrow> nat" where
  "LOOP_PREV_VALUE v n = (if v = 0 then n - 1 else v - 1)"

section \<open>Byte images of integers\<close>

text \<open>
  \<open>(uint8 *) &len\<close> on a little-endian machine, and the value read back from such bytes.
\<close>

definition uint32_bytes :: "uint32 \<Rightarrow> byte list" where
  "uint32_bytes v = map (\<lambda>k. ucast (drop_bit (8 * k) v)) [0..<4]"

definition bytes_uint32 :: "byte list \<Rightarrow> uint32" where
  "bytes_uint32 bs = foldr (\<lambda>b acc. push_bit 8 acc OR ucast b) (take 4 bs) 0"

definition uint64_bytes :: "uint64 \<Rightarrow> byte list" where
  "uint64_bytes v = map (\<lambda>k. ucast (drop_bit (8 * k) v)) [0..<8]"

definition bytes_uint64 :: "byte list \<Rightarrow> uint64" where
  "bytes_uint64 bs = foldr (\<lambda>b acc. push_bit 8 acc OR ucast b) (take 8 bs) 0"

section \<open>Results\<close>

lemma rbind_simps [simp]:
  "rbind (Inr x) f = f x"
  "rbind (Inl e) f = Inl e"
  by (simp_all add: rbind_def)

lemma rbind_cong [fundef_cong]:
  "\<lbrakk>m = m'; \<And>x. m' = Inr x \<Longrightarrow> f x = f' x\<rbrakk> \<Longrightarrow> rbind m f = rbind m' f'"
  by (cases m') simp_all

lemma rbind_Inr_iff: "rbind m f = Inr y \<longleftrightarrow> (\<exists>x. m = Inr x \<and> f x = Inr y)"
  by (cases m) auto

lemma rbind_InrE [elim]:
  assumes "rbind m f = Inr y" obtains x where "m = Inr x" "f x = Inr y"
  using assms by (cases m) auto

lemma aget_Inr_iff: "aget xs i = Inr x \<longleftrightarrow> i < length xs \<and> x = xs ! i"
  by (auto simp: aget_def)

lemma aget_in [simp]: "i < length xs \<Longrightarrow> aget xs i = Inr (xs ! i)"
  by (simp add: aget_def)

lemma aset_in [simp]: "i < length xs \<Longrightarrow> aset xs i v = Inr (xs[i := v])"
  by (simp add: aset_def)

lemma deref_simps [simp]: "deref (Some x) = Inr x" "deref None = Inl NullPointer"
  by (simp_all add: deref_def)

lemma memcpy_from_in [simp]: "i + n \<le> length d \<Longrightarrow> memcpy_from d i n = Inr (take n (drop i d))"
  by (simp add: memcpy_from_def)

lemma memcpy_to_in [simp]:
  "i + length b \<le> length d \<Longrightarrow> memcpy_to d i b = Inr (take i d @ b @ drop (i + length b) d)"
  by (simp add: memcpy_to_def)

section \<open>Lists\<close>

lemma find_upt_Some:
  "find P [0..<n] = Some i \<longleftrightarrow> i < n \<and> P i \<and> (\<forall>j<i. \<not> P j)"
  by (auto simp: find_Some_iff)

lemma find_upt_None: "find P [0..<n] = None \<longleftrightarrow> (\<forall>i<n. \<not> P i)"
  by (auto simp: find_None_iff)

lemma find_SomeD: "find P xs = Some x \<Longrightarrow> x \<in> set xs \<and> P x"
  by (induction xs) (auto split: if_splits)

lemma length_filter_update:
  "i < length xs \<Longrightarrow> length (filter P (xs[i := x])) + (if P (xs ! i) then 1 else 0)
     = length (filter P xs) + (if P x then 1 else 0)"
proof (induction xs arbitrary: i)
  case (Cons y ys)
  then show ?case using Cons.IH [of "i - 1"] by (cases i) auto
qed simp

lemma drop_ConsD:
  assumes "drop k xs = y # ys"
  shows "k < length xs" "xs ! k = y" "drop (Suc k) xs = ys"
proof -
  show "k < length xs" using assms by (metis drop_all list.distinct(1) not_le_imp_less)
  then show "xs ! k = y" "drop (Suc k) xs = ys"
    using assms Cons_nth_drop_Suc [of k xs] by simp_all
qed

lemma nth_memcpy:
  assumes "i + length b \<le> length d" "k < length d"
  shows "(take i d @ b @ drop (i + length b) d) ! k =
    (if i \<le> k \<and> k < i + length b then b ! (k - i) else d ! k)"
  using assms by (auto simp: nth_append min_def)

section \<open>Words\<close>

lemma bit_and_decr:
  fixes x :: "'a::len word"
  assumes k: "bit x k" and low: "\<And>j. j < k \<Longrightarrow> \<not> bit x j"
  shows "bit (x AND (x - 1)) n \<longleftrightarrow> bit x n \<and> n \<noteq> k"
proof -
  define y where "y = drop_bit k x"
  have tb: "take_bit k x = 0"
    using low by (intro bit_word_eqI) (auto simp: bit_take_bit_iff)
  have x: "x = y * 2 ^ k"
    using bits_ident [of k x] tb by (simp add: y_def push_bit_eq_mult)
  have odd: "odd y" using k by (simp add: y_def bit_iff_odd_drop_bit)
  have "x - 1 = push_bit k (y - 1) + mask k"
    by (subst x) (simp add: push_bit_eq_mult mask_eq_decr_exp algebra_simps)
  also have "\<dots> = push_bit k (y - 1) OR mask k"
    by (rule disjunctive_add) (auto simp: bit_push_bit_iff bit_mask_iff)
  finally have x1: "x - 1 = push_bit k (y - 1) OR mask k" .
  have le: "k \<le> n" if "bit x n" using that low by (meson not_le)
  have bx: "bit x n \<longleftrightarrow> k \<le> n \<and> bit y (n - k)"
    using le by (auto simp: y_def bit_drop_bit_eq)
  have "n < LENGTH('a)" if "bit x n" using that by (rule bit_imp_le_length)
  with bx odd_bit_iff_bit_pred [OF odd, of "n - k"] odd show ?thesis
    by (auto simp: bit_and_iff x1 bit_or_iff bit_push_bit_iff bit_mask_iff bit_0)
qed

lemma word_zero_iff_no_bit: "(x :: 'a::len word) = 0 \<longleftrightarrow> (\<forall>i < LENGTH('a). \<not> bit x i)"
proof
  assume "\<forall>i < LENGTH('a). \<not> bit x i"
  then show "x = 0" by (intro bit_word_eqI) simp
qed simp

lemma and_decr_less:
  fixes x :: "'a::len word"
  assumes "x \<noteq> 0" shows "x AND (x - 1) < x"
proof -
  have "x AND (x - 1) \<le> x - 1" by (rule word_and_le1)
  also have "x - 1 < x"
    using assms by (simp add: word_less_nat_alt unat_minus_one unat_gt_0)
  finally show ?thesis .
qed

lemma bytes_uint32_roundtrip [simp]: "bytes_uint32 (uint32_bytes v @ rest) = v"
proof (rule bit_word_eqI)
  fix n assume "n < LENGTH(32)"
  then consider "n < 8" | "8 \<le> n" "n < 16" | "16 \<le> n" "n < 24" | "24 \<le> n" "n < 32"
    by fastforce
  then show "bit (bytes_uint32 (uint32_bytes v @ rest)) n = bit v n"
    by cases (simp_all add: bytes_uint32_def uint32_bytes_def upt_rec bit_simps less_diff_conv2)
qed

lemma bytes_uint64_roundtrip [simp]: "bytes_uint64 (uint64_bytes v @ rest) = v"
proof (rule bit_word_eqI)
  fix n assume "n < LENGTH(64)"
  then consider "n < 8" | "8 \<le> n" "n < 16" | "16 \<le> n" "n < 24" | "24 \<le> n" "n < 32"
    | "32 \<le> n" "n < 40" | "40 \<le> n" "n < 48" | "48 \<le> n" "n < 56" | "56 \<le> n" "n < 64"
    by fastforce
  then show "bit (bytes_uint64 (uint64_bytes v @ rest)) n = bit v n"
    by cases (simp_all add: bytes_uint64_def uint64_bytes_def upt_rec bit_simps less_diff_conv2)
qed

lemma length_uint32_bytes [simp]: "length (uint32_bytes v) = 4"
  by (simp add: uint32_bytes_def)

lemma length_uint64_bytes [simp]: "length (uint64_bytes v) = 8"
  by (simp add: uint64_bytes_def)

lemma unat_UINT64_MAX: "unat UINT64_MAX = 2 ^ 64 - 1"
  by (simp only: unsigned_minus_1_eq_mask mask_eq_exp_minus_1) simp

section \<open>Circular arrays\<close>

lemma length_ring_view [simp]: "length (ring_view xs h n) = n"
  by (simp add: ring_view_def)

lemma nth_ring_view [simp]: "i < n \<Longrightarrow> ring_view xs h n ! i = xs ! ((h + i) mod length xs)"
  by (simp add: ring_view_def)

lemma ring_view_eq_Nil [simp]: "ring_view xs h n = [] \<longleftrightarrow> n = 0"
  by (simp add: ring_view_def)

lemma drop_ring_view:
  "k \<le> n \<Longrightarrow> drop k (ring_view xs h n) = ring_view xs ((h + k) mod length xs) (n - k)"
  by (rule nth_equalityI) (auto simp: mod_simps add.assoc)

lemma take_ring_view: "k \<le> n \<Longrightarrow> take k (ring_view xs h n) = ring_view xs h k"
  by (rule nth_equalityI) auto

lemma ring_index_neq:
  assumes "i < j" "j < L"
  shows "(h + i) mod L \<noteq> (h + j) mod (L::nat)"
proof
  assume "(h + i) mod L = (h + j) mod L"
  then have "L dvd (h + j) - (h + i)" by (metis mod_eq_dvd_iff_nat assms(1) less_imp_le nat_add_left_cancel_le)
  moreover have "0 < j - i" "j - i < L" using assms by auto
  ultimately show False by (auto dest: dvd_imp_le)
qed

lemma ring_view_append:
  assumes "n < length xs"
  shows "ring_view (xs[(h + n) mod length xs := v]) h (Suc n) = ring_view xs h n @ [v]"
proof (rule nth_equalityI)
  fix i assume "i < length (ring_view (xs[(h + n) mod length xs := v]) h (Suc n))"
  then consider "i = n" | "i < n" by fastforce
  then show "ring_view (xs[(h + n) mod length xs := v]) h (Suc n) ! i = (ring_view xs h n @ [v]) ! i"
  proof cases
    case 1
    moreover have "(h + n) mod length xs < length xs" using assms by (intro mod_less_divisor) auto
    ultimately show ?thesis by (simp add: nth_append)
  next
    case 2
    then show ?thesis using assms ring_index_neq [of i n "length xs" h]
      by (simp add: nth_append)
  qed
qed simp

end
