(* ===== verification/Successor_List.thy ===== *)
theory Successor_List
  imports Polar_Prelude
begin

text \<open>
  \<^verbatim>\<open>src/backend/utils/list/polar_successor_list.c\<close>: the free list that hands out the items of
  a fixed array (SLRU page slots, local cache segment entries). The list is threaded through
  an array of successors: \<open>items[i]\<close> is the next free item after \<open>i\<close>.

  The interface the clients rely on is the locale \<open>free_pool\<close>: a pool of \<open>n\<close> items whose
  free items are a list, from which pop takes the head and to which push adds one. The
  clients' property, that no item is ever handed out twice before it is given back, is
  proved in the locale and obtained for the code by its interpretation.
\<close>

section \<open>The code\<close>

definition POLAR_SUCCESSOR_LIST_NIL :: int where
  "POLAR_SUCCESSOR_LIST_NIL = -1"

record successor_list =
  free_head :: int
  items :: "int list"

text \<open>\<open>items[total_items - 1]\<close> is out of range when there are no items.\<close>

definition polar_successor_list_init :: "nat \<Rightarrow> successor_list result" where
  "polar_successor_list_init total_items =
     (let its = map (\<lambda>i. int i + 1) [0..<total_items]
      in if total_items = 0 then Inl OutOfBounds
         else rbind (aset its (total_items - 1) POLAR_SUCCESSOR_LIST_NIL)
           (\<lambda>its. Inr \<lparr>free_head = 0, items = its\<rparr>))"

definition polar_successor_list_pop :: "successor_list \<Rightarrow> (int \<times> successor_list) result" where
  "polar_successor_list_pop l =
     (let free_item = free_head l
      in if free_item \<noteq> POLAR_SUCCESSOR_LIST_NIL
         then if free_item < 0 then Inl OutOfBounds
              else rbind (aget (items l) (nat free_item)) (\<lambda>next.
                   rbind (aset (items l) (nat free_item) POLAR_SUCCESSOR_LIST_NIL) (\<lambda>its.
                   Inr (free_item, l\<lparr>free_head := next, items := its\<rparr>)))
         else Inr (free_item, l))"

definition polar_successor_list_push :: "successor_list \<Rightarrow> int \<Rightarrow> successor_list result" where
  "polar_successor_list_push l free_item =
     (if free_item < 0 then Inl OutOfBounds
      else rbind
        (if free_head l \<noteq> POLAR_SUCCESSOR_LIST_NIL
         then aset (items l) (nat free_item) (free_head l)
         else aset (items l) (nat free_item) POLAR_SUCCESSOR_LIST_NIL)
        (\<lambda>its. Inr (l\<lparr>free_head := free_item, items := its\<rparr>)))"

text \<open>The chain of successors from \<open>h\<close> is the list \<open>xs\<close> of item numbers.\<close>

fun chain :: "int list \<Rightarrow> int \<Rightarrow> nat list \<Rightarrow> bool" where
  "chain its h [] \<longleftrightarrow> h = POLAR_SUCCESSOR_LIST_NIL"
| "chain its h (x # xs) \<longleftrightarrow> h = int x \<and> x < length its \<and> chain its (its ! x) xs"

definition free_items :: "nat \<Rightarrow> successor_list \<Rightarrow> nat list \<Rightarrow> bool" where
  "free_items n l xs \<longleftrightarrow> length (items l) = n \<and> chain (items l) (free_head l) xs \<and> distinct xs"

section \<open>The interface\<close>

locale free_pool =
  fixes capacity :: nat
    and pool_pop :: "'s \<Rightarrow> (int \<times> 's) result"
    and pool_push :: "'s \<Rightarrow> int \<Rightarrow> 's result"
    and pool_free :: "'s \<Rightarrow> nat list \<Rightarrow> bool"
  assumes pop_empty: "pool_free s [] \<Longrightarrow> pool_pop s = Inr (-1, s)"
    and pop_item: "pool_free s (x # xs) \<Longrightarrow> \<exists>s'. pool_pop s = Inr (int x, s') \<and> pool_free s' xs"
    and push_item: "\<lbrakk>pool_free s xs; x < capacity; x \<notin> set xs\<rbrakk>
      \<Longrightarrow> \<exists>s'. pool_push s (int x) = Inr s' \<and> pool_free s' (x # xs)"
    and free_distinct: "pool_free s xs \<Longrightarrow> distinct xs"
    and free_bound: "pool_free s xs \<Longrightarrow> set xs \<subseteq> {..<capacity}"
begin

text \<open>
  A client: it owns the items it was given and has not given back, and gives back only
  items it owns.
\<close>

inductive pool_run :: "'s \<times> nat set \<Rightarrow> 's \<times> nat set \<Rightarrow> bool" where
  start: "pool_run c c"
| take: "\<lbrakk>pool_run c (s, own); pool_pop s = Inr (i, s'); i \<noteq> -1\<rbrakk>
    \<Longrightarrow> pool_run c (s', insert (nat i) own)"
| give: "\<lbrakk>pool_run c (s, own); x \<in> own; pool_push s (int x) = Inr s'\<rbrakk>
    \<Longrightarrow> pool_run c (s', own - {x})"

definition pool_ok :: "'s \<times> nat set \<Rightarrow> bool" where
  "pool_ok c \<longleftrightarrow> (\<exists>xs. pool_free (fst c) xs \<and> set xs \<inter> snd c = {} \<and> set xs \<union> snd c = {..<capacity})"

lemma pool_run_ok: "pool_run c d \<Longrightarrow> pool_ok c \<Longrightarrow> pool_ok d"
proof (induction rule: pool_run.induct)
  case (take c s own i s')
  then obtain xs where xs: "pool_free s xs" "set xs \<inter> own = {}" "set xs \<union> own = {..<capacity}"
    by (auto simp: pool_ok_def)
  with take.hyps pop_empty [of s] obtain x ys where cons: "xs = x # ys" by (cases xs) auto
  with xs have "pool_free s (x # ys)" by simp
  from pop_item [OF this] take.hyps have s': "pool_free s' ys" and i: "i = int x" by auto
  from free_distinct [OF xs(1)] cons have "x \<notin> set ys" by simp
  with xs cons s' i show ?case unfolding pool_ok_def by (intro exI [of _ ys]) auto
next
  case (give c s own x s')
  then obtain xs where xs: "pool_free s xs" "set xs \<inter> own = {}" "set xs \<union> own = {..<capacity}"
    by (auto simp: pool_ok_def)
  with give.hyps have x: "x < capacity" "x \<notin> set xs" by auto
  with push_item [OF xs(1), of x] give.hyps have s': "pool_free s' (x # xs)" by auto
  have "set (x # xs) \<inter> (own - {x}) = {}" "set (x # xs) \<union> (own - {x}) = {..<capacity}"
    using xs x give.hyps by auto
  with s' show ?case by (auto simp: pool_ok_def simp del: list.set)
qed

lemma pool_pop_fresh:
  assumes "pool_ok (s, own)" "pool_pop s = Inr (i, s')" "i \<noteq> -1"
  shows "nat i < capacity \<and> nat i \<notin> own"
proof -
  obtain xs where xs: "pool_free s xs" "set xs \<inter> own = {}" "set xs \<union> own = {..<capacity}"
    using assms(1) by (auto simp: pool_ok_def)
  with assms pop_empty [of s] obtain x ys where cons: "xs = x # ys" by (cases xs) auto
  with xs have "pool_free s (x # ys)" by simp
  from pop_item [OF this] assms xs cons show ?thesis by auto
qed

lemma pool_pop_exhausted:
  assumes "pool_ok (s, own)" "pool_pop s = Inr (-1, s')"
  shows "own = {..<capacity}"
proof -
  obtain xs where xs: "pool_free s xs" "set xs \<inter> own = {}" "set xs \<union> own = {..<capacity}"
    using assms(1) by (auto simp: pool_ok_def)
  have "xs = []"
  proof (cases xs)
    case (Cons x ys)
    with xs(1) have "pool_free s (x # ys)" by simp
    from pop_item [OF this] assms(2) show ?thesis by auto
  qed simp
  with xs show ?thesis by simp
qed

end

section \<open>The code implements the interface\<close>

lemma chain_bound: "chain its h xs \<Longrightarrow> set xs \<subseteq> {..<length its}"
  by (induction xs arbitrary: h) auto

lemma chain_update: "x \<notin> set xs \<Longrightarrow> chain (its[x := v]) h xs \<longleftrightarrow> chain its h xs"
  by (induction xs arbitrary: h) auto

lemma pop_refines:
  "free_items n l (x # xs) \<Longrightarrow>
   \<exists>l'. polar_successor_list_pop l = Inr (int x, l') \<and> free_items n l' xs"
  by (auto simp: free_items_def polar_successor_list_pop_def POLAR_SUCCESSOR_LIST_NIL_def
      chain_update)

lemma push_refines:
  assumes "free_items n l xs" "x < n" "x \<notin> set xs"
  shows "\<exists>l'. polar_successor_list_push l (int x) = Inr l' \<and> free_items n l' (x # xs)"
  using assms
  by (cases xs) (auto simp: free_items_def polar_successor_list_push_def chain_update)

interpretation succ_list: free_pool n polar_successor_list_pop polar_successor_list_push
  "free_items n" for n
proof (unfold_locales, goal_cases)
  case (1 s)
  then show ?case
    by (simp add: free_items_def polar_successor_list_pop_def POLAR_SUCCESSOR_LIST_NIL_def)
next
  case (2 s x xs)
  then show ?case by (rule pop_refines)
next
  case (3 s xs x)
  then show ?case by (rule push_refines)
next
  case (4 s xs)
  then show ?case by (simp add: free_items_def)
next
  case (5 s xs)
  then show ?case by (auto simp: free_items_def dest: chain_bound)
qed

lemma chain_upt:
  assumes "\<And>i. i < n \<Longrightarrow> its ! i = (if Suc i = n then -1 else int i + 1)" "length its = n"
  shows "k < n \<Longrightarrow> chain its (int k) [k..<n]"
proof (induction "n - k" arbitrary: k)
  case (Suc d)
  show ?case
  proof (cases "Suc k = n")
    case True
    with assms Suc.prems show ?thesis
      by (simp add: upt_rec POLAR_SUCCESSOR_LIST_NIL_def)
  next
    case False
    have "chain its (int (Suc k)) [Suc k..<n]"
      by (rule Suc.hyps(1)) (use False Suc.hyps(2) Suc.prems in auto)
    then have "chain its (1 + int k) [Suc k..<n]" by simp
    with False assms Suc.prems show ?thesis by (subst upt_rec) (simp add: add.commute)
  qed
qed simp

lemma init_free_items:
  assumes "0 < n"
  shows "\<exists>l. polar_successor_list_init n = Inr l \<and> free_items n l [0..<n]"
proof -
  let ?its = "(map (\<lambda>i. int i + 1) [0..<n])[n - 1 := -1]"
  have "chain ?its (int 0) [0..<n]"
    using assms by (intro chain_upt) (auto simp: nth_list_update)
  with assms show ?thesis
    by (simp add: polar_successor_list_init_def POLAR_SUCCESSOR_LIST_NIL_def free_items_def)
qed

text \<open>
  C5. From a fresh list of \<open>n\<close> items, along every sequence of pops and of pushes of items that
  are in use, a pop that returns an item returns one that is in range and not in use.
\<close>

theorem successor_list_never_hands_out_twice:
  assumes "polar_successor_list_init n = Inr l"
    and "succ_list.pool_run (l, {}) (l', own)"
    and "polar_successor_list_pop l' = Inr (i, l'')" and "i \<noteq> POLAR_SUCCESSOR_LIST_NIL"
  shows "nat i < n \<and> nat i \<notin> own"
proof -
  have "0 < n" using assms(1) by (cases n) (auto simp: polar_successor_list_init_def)
  from init_free_items [OF this] assms(1) have "free_items n l [0..<n]" by auto
  then have "succ_list.pool_ok n (l, {})"
    by (auto simp: succ_list.pool_ok_def intro!: exI [of _ "[0..<n]"])
  from succ_list.pool_run_ok [OF assms(2) this] have "succ_list.pool_ok n (l', own)" .
  from succ_list.pool_pop_fresh [OF this assms(3)] assms(4) show ?thesis
    by (simp add: POLAR_SUCCESSOR_LIST_NIL_def)
qed

theorem successor_list_never_hands_out_twice_witness:
  "\<exists>l l' l''. polar_successor_list_init 2 = Inr l \<and> succ_list.pool_run (l, {}) (l', {0})
    \<and> polar_successor_list_pop l' = Inr (1, l'') \<and> nat 1 < 2 \<and> nat 1 \<notin> {0}"
proof -
  let ?l = "\<lparr>free_head = 0, items = [1, -1]\<rparr>"
  let ?l1 = "\<lparr>free_head = 1, items = [-1, -1]\<rparr>"
  let ?l2 = "\<lparr>free_head = -1, items = [-1, -1]\<rparr>"
  have i: "polar_successor_list_init 2 = Inr ?l"
    by (simp add: polar_successor_list_init_def POLAR_SUCCESSOR_LIST_NIL_def upt_rec)
  have p1: "polar_successor_list_pop ?l = Inr (0, ?l1)"
    by (simp add: polar_successor_list_pop_def POLAR_SUCCESSOR_LIST_NIL_def)
  have p2: "polar_successor_list_pop ?l1 = Inr (1, ?l2)"
    by (simp add: polar_successor_list_pop_def POLAR_SUCCESSOR_LIST_NIL_def)
  have r: "succ_list.pool_run (?l, {}) (?l1, {0})"
    using succ_list.pool_run.take [OF succ_list.pool_run.start p1, of "{}"] by simp
  have n: "(1::int) \<noteq> POLAR_SUCCESSOR_LIST_NIL" by (simp add: POLAR_SUCCESSOR_LIST_NIL_def)
  show ?thesis using successor_list_never_hands_out_twice [OF i r p2 n] i r p2 by blast
qed

end
