(* ===== verification/Checkpoint_Ringbuf.thy ===== *)
theory Checkpoint_Ringbuf
  imports Polar_Prelude
begin

text \<open>
  \<^verbatim>\<open>src/backend/access/transam/polar_checkpoint_ringbuf.c\<close>: the last checkpoints a standby
  with parallel replay has read from the WAL, kept until background replay has passed their
  redo pointer, and their two users in \<^verbatim>\<open>xlog.c\<close>: \<open>RecoveryRestartPoint\<close> records a
  checkpoint, \<open>CreateRestartPoint\<close> takes the one to restart from.

  The ring is abstracted to the list \<open>stash\<close> of its checkpoints. The lock is part of the
  state, because one path of the code leaves it locked.
\<close>

section \<open>The code\<close>

record CheckPoint =
  redo :: XLogRecPtr
  ThisTimeLineID :: uint32
  PrevTimeLineID :: uint32
  fullPageWrites :: bool
  wal_level :: int
  nextXid :: uint64
  nextOid :: Oid
  nextMulti :: uint32
  nextMultiOffset :: uint32
  oldestXid :: TransactionId
  oldestXidDB :: Oid
  oldestMulti :: uint32
  oldestMultiDB :: Oid
  ckpt_time :: int
  oldestCommitTsXid :: TransactionId
  newestCommitTsXid :: TransactionId
  oldestActiveXid :: TransactionId

definition CheckPoint_zero :: CheckPoint where
  "CheckPoint_zero = \<lparr>redo = 0, ThisTimeLineID = 0, PrevTimeLineID = 0, fullPageWrites = False,
     wal_level = 0, nextXid = 0, nextOid = 0, nextMulti = 0, nextMultiOffset = 0, oldestXid = 0,
     oldestXidDB = 0, oldestMulti = 0, oldestMultiDB = 0, ckpt_time = 0, oldestCommitTsXid = 0,
     newestCommitTsXid = 0, oldestActiveXid = 0\<rparr>"

definition POLAR_CHECKPOINT_RINGBUF_CAPACITY :: nat where
  "POLAR_CHECKPOINT_RINGBUF_CAPACITY = 5"

record checkpoint_ringbuf =
  recptrs :: "XLogRecPtr list"
  endptrs :: "XLogRecPtr list"
  checkpoints :: "CheckPoint list"
  lock_held :: bool
  ckpt_head :: nat
  ckpt_size :: nat

text \<open>The shared memory block before initialisation: all bytes zero.\<close>

definition checkpoint_ringbuf_zero :: checkpoint_ringbuf where
  "checkpoint_ringbuf_zero =
     \<lparr>recptrs = replicate POLAR_CHECKPOINT_RINGBUF_CAPACITY 0,
      endptrs = replicate POLAR_CHECKPOINT_RINGBUF_CAPACITY 0,
      checkpoints = replicate POLAR_CHECKPOINT_RINGBUF_CAPACITY CheckPoint_zero,
      lock_held = False, ckpt_head = 0, ckpt_size = 0\<rparr>"

definition polar_checkpoint_ringbuf_init :: "checkpoint_ringbuf \<Rightarrow> checkpoint_ringbuf" where
  "polar_checkpoint_ringbuf_init rb = rb\<lparr>lock_held := False\<rparr>"

definition ckpt_acquire :: "checkpoint_ringbuf \<Rightarrow> checkpoint_ringbuf result" where
  "ckpt_acquire rb = (if lock_held rb then Inl SelfDeadlock else Inr (rb\<lparr>lock_held := True\<rparr>))"

definition ckpt_release :: "checkpoint_ringbuf \<Rightarrow> checkpoint_ringbuf" where
  "ckpt_release rb = rb\<lparr>lock_held := False\<rparr>"

text \<open>The scan of shrink: the first \<open>i \<ge> 1\<close> whose redo pointer is beyond \<open>replayed\<close>.\<close>

function shrink_scan :: "checkpoint_ringbuf \<Rightarrow> XLogRecPtr \<Rightarrow> nat \<Rightarrow> nat result" where
  "shrink_scan rb replayed i =
     (if i < ckpt_size rb
      then rbind (aget (checkpoints rb) ((ckpt_head rb + i) mod POLAR_CHECKPOINT_RINGBUF_CAPACITY))
        (\<lambda>c. if redo c > replayed then Inr i else shrink_scan rb replayed (Suc i))
      else Inr i)"
  by pat_completeness auto
termination by (relation "measure (\<lambda>(rb, _, i). ckpt_size rb - i)") auto

definition polar_checkpoint_ringbuf_shrink ::
  "checkpoint_ringbuf \<Rightarrow> XLogRecPtr \<Rightarrow> checkpoint_ringbuf result" where
  "polar_checkpoint_ringbuf_shrink rb replayed =
     rbind (ckpt_acquire rb) (\<lambda>rb.
     rbind (shrink_scan rb replayed 1) (\<lambda>i.
     Inr (ckpt_release
       (if i > 1
        then rb\<lparr>ckpt_head := (ckpt_head rb + (i - 1)) mod POLAR_CHECKPOINT_RINGBUF_CAPACITY,
                ckpt_size := ckpt_size rb - (i - 1)\<rparr>
        else rb))))"

text \<open>
  \<open>(head + size - 1) % CAPACITY\<close> in C \<open>int\<close> arithmetic: the remainder has the sign of the
  dividend, so an empty ring whose head is 0 gives \<open>-1\<close>, and \<open>checkpoints[-1].redo\<close> is the
  word in memory just before the structure. That word is the parameter \<open>before\<close>.
\<close>

definition tail_redo :: "XLogRecPtr \<Rightarrow> checkpoint_ringbuf \<Rightarrow> XLogRecPtr result" where
  "tail_redo before rb =
     (if ckpt_head rb + ckpt_size rb = 0 then Inr before
      else rbind (aget (checkpoints rb)
             ((ckpt_head rb + ckpt_size rb - 1) mod POLAR_CHECKPOINT_RINGBUF_CAPACITY))
             (\<lambda>c. Inr (redo c)))"

text \<open>The early return of the first branch does not release the lock.\<close>

definition polar_checkpoint_ringbuf_insert ::
  "XLogRecPtr \<Rightarrow> checkpoint_ringbuf \<Rightarrow> XLogRecPtr \<Rightarrow> XLogRecPtr \<Rightarrow> CheckPoint
   \<Rightarrow> checkpoint_ringbuf result" where
  "polar_checkpoint_ringbuf_insert before rb recptr endptr ckpt =
     rbind (ckpt_acquire rb) (\<lambda>rb.
     rbind (tail_redo before rb) (\<lambda>t.
     if t > redo ckpt then Inr rb
     else
       let rb = (if ckpt_size rb = POLAR_CHECKPOINT_RINGBUF_CAPACITY
                 then rb\<lparr>ckpt_size := ckpt_size rb - 1\<rparr> else rb);
           target = (ckpt_head rb + ckpt_size rb) mod POLAR_CHECKPOINT_RINGBUF_CAPACITY
       in rbind (aset (recptrs rb) target recptr) (\<lambda>rs.
          rbind (aset (endptrs rb) target endptr) (\<lambda>es.
          rbind (aset (checkpoints rb) target ckpt) (\<lambda>cs.
          Inr (ckpt_release (rb\<lparr>recptrs := rs, endptrs := es, checkpoints := cs,
                                ckpt_size := ckpt_size rb + 1\<rparr>)))))))"

definition polar_checkpoint_ringbuf_front ::
  "checkpoint_ringbuf \<Rightarrow> ((XLogRecPtr \<times> XLogRecPtr \<times> CheckPoint) \<times> checkpoint_ringbuf) result" where
  "polar_checkpoint_ringbuf_front rb =
     rbind (ckpt_acquire rb) (\<lambda>rb.
     if ckpt_size rb \<noteq> 0
     then let head = ckpt_head rb
          in rbind (aget (recptrs rb) head) (\<lambda>r.
             rbind (aget (endptrs rb) head) (\<lambda>e.
             rbind (aget (checkpoints rb) head) (\<lambda>c.
             Inr ((r, e, c), ckpt_release rb))))
     else Inr ((InvalidXLogRecPtr, InvalidXLogRecPtr, CheckPoint_zero), ckpt_release rb))"

text \<open>The part of \<open>XLogCtl\<close> that the two users in \<^verbatim>\<open>xlog.c\<close> read and write.\<close>

record xlog_ctl =
  lastCheckPointRecPtr :: XLogRecPtr
  lastCheckPointEndPtr :: XLogRecPtr
  lastCheckPoint :: CheckPoint
  ckpt_ringbuf :: checkpoint_ringbuf

text \<open>
  \<open>have_invalid_pages\<close> is the result of \<open>XLogHaveInvalidPages()\<close>, \<open>parallel\<close> that of
  \<open>POLAR_IN_PARALLEL_REPLAY_STANDBY_MODE\<close> and \<open>replayed\<close> the background replay position.
\<close>

definition RecoveryRestartPoint ::
  "XLogRecPtr \<Rightarrow> bool \<Rightarrow> bool \<Rightarrow> XLogRecPtr \<Rightarrow> xlog_ctl \<Rightarrow> XLogRecPtr \<Rightarrow> XLogRecPtr \<Rightarrow> CheckPoint
   \<Rightarrow> xlog_ctl result" where
  "RecoveryRestartPoint before have_invalid_pages parallel replayed ctl readptr endptr ckpt =
     (if have_invalid_pages then Inr ctl
      else
        let ctl = ctl\<lparr>lastCheckPointRecPtr := readptr, lastCheckPointEndPtr := endptr,
                      lastCheckPoint := ckpt\<rparr>
        in if parallel
           then rbind (polar_checkpoint_ringbuf_shrink (ckpt_ringbuf ctl) replayed) (\<lambda>rb.
                rbind (polar_checkpoint_ringbuf_insert before rb readptr endptr ckpt) (\<lambda>rb.
                Inr (ctl\<lparr>ckpt_ringbuf := rb\<rparr>)))
           else Inr ctl)"

definition restart_point_candidate ::
  "bool \<Rightarrow> XLogRecPtr \<Rightarrow> xlog_ctl \<Rightarrow> ((XLogRecPtr \<times> XLogRecPtr \<times> CheckPoint) \<times> xlog_ctl) result" where
  "restart_point_candidate parallel bg_replayed_lsn ctl =
     (if parallel
      then rbind (polar_checkpoint_ringbuf_shrink (ckpt_ringbuf ctl) bg_replayed_lsn) (\<lambda>rb.
           rbind (polar_checkpoint_ringbuf_front rb) (\<lambda>(c, rb).
           Inr (c, ctl\<lparr>ckpt_ringbuf := rb\<rparr>)))
      else Inr ((lastCheckPointRecPtr ctl, lastCheckPointEndPtr ctl, lastCheckPoint ctl), ctl))"

section \<open>Abstraction\<close>

type_synonym stashed = "XLogRecPtr \<times> XLogRecPtr \<times> CheckPoint"

abbreviation stashed_redo :: "stashed \<Rightarrow> XLogRecPtr" where
  "stashed_redo e \<equiv> redo (snd (snd e))"

definition stash :: "checkpoint_ringbuf \<Rightarrow> stashed list" where
  "stash rb = ring_view (zip (recptrs rb) (zip (endptrs rb) (checkpoints rb)))
                (ckpt_head rb) (ckpt_size rb)"

definition ringbuf_wf :: "checkpoint_ringbuf \<Rightarrow> bool" where
  "ringbuf_wf rb \<longleftrightarrow>
     length (recptrs rb) = POLAR_CHECKPOINT_RINGBUF_CAPACITY
     \<and> length (endptrs rb) = POLAR_CHECKPOINT_RINGBUF_CAPACITY
     \<and> length (checkpoints rb) = POLAR_CHECKPOINT_RINGBUF_CAPACITY
     \<and> ckpt_head rb < POLAR_CHECKPOINT_RINGBUF_CAPACITY
     \<and> ckpt_size rb \<le> POLAR_CHECKPOINT_RINGBUF_CAPACITY"

definition stash_shrink :: "XLogRecPtr \<Rightarrow> stashed list \<Rightarrow> stashed list" where
  "stash_shrink replayed q = drop (length (takeWhile (\<lambda>e. stashed_redo e \<le> replayed) (tl q))) q"

definition stash_insert :: "stashed \<Rightarrow> stashed list \<Rightarrow> stashed list" where
  "stash_insert e q =
     (if length q = POLAR_CHECKPOINT_RINGBUF_CAPACITY then butlast q @ [e] else q @ [e])"

text \<open>
  A standby: its ring is initialised, background replay advances, checkpoints are read with redo
  pointers that do not go back, and restart points are taken, in any order. When nothing is
  stashed yet, background replay has started at the redo pointer of the checkpoint that is read, as
  the comment of \<open>polar_checkpoint_ringbuf_front\<close> says. The word \<open>before\<close> is arbitrary.
\<close>

inductive standby_run :: "XLogRecPtr \<Rightarrow> xlog_ctl \<Rightarrow> XLogRecPtr \<Rightarrow> bool" for before where
  init: "ckpt_ringbuf ctl = polar_checkpoint_ringbuf_init checkpoint_ringbuf_zero
    \<Longrightarrow> standby_run before ctl replayed"
| advance: "\<lbrakk>standby_run before ctl replayed; replayed \<le> replayed'\<rbrakk>
    \<Longrightarrow> standby_run before ctl replayed'"
| record_ckpt: "\<lbrakk>standby_run before ctl replayed;
    \<forall>x \<in> set (stash (ckpt_ringbuf ctl)). stashed_redo x \<le> redo c;
    stash (ckpt_ringbuf ctl) = [] \<Longrightarrow> redo c \<le> replayed;
    RecoveryRestartPoint before invalid True replayed ctl r e c = Inr ctl'\<rbrakk>
    \<Longrightarrow> standby_run before ctl' replayed"
| restart: "\<lbrakk>standby_run before ctl replayed;
    restart_point_candidate True replayed ctl = Inr (x, ctl')\<rbrakk>
    \<Longrightarrow> standby_run before ctl' replayed"

section \<open>Refinement\<close>

lemma shrink_scan_eq:
  assumes "ringbuf_wf rb" "1 \<le> i" "i \<le> ckpt_size rb"
  shows "shrink_scan rb replayed i =
    Inr (i + length (takeWhile (\<lambda>e. stashed_redo e \<le> replayed) (drop i (stash rb))))"
  using assms
proof (induction rb replayed i rule: shrink_scan.induct)
  case (1 rb replayed i)
  show ?case
  proof (cases "i < ckpt_size rb")
    case True
    let ?j = "(ckpt_head rb + i) mod POLAR_CHECKPOINT_RINGBUF_CAPACITY"
    have j: "?j < POLAR_CHECKPOINT_RINGBUF_CAPACITY"
      by (simp add: POLAR_CHECKPOINT_RINGBUF_CAPACITY_def)
    with 1 have get: "aget (checkpoints rb) ?j = Inr (checkpoints rb ! ?j)"
      by (simp add: ringbuf_wf_def)
    have "stash rb ! i = (recptrs rb ! ?j, endptrs rb ! ?j, checkpoints rb ! ?j)"
      using 1 True j by (simp add: stash_def ringbuf_wf_def)
    then have "drop i (stash rb) =
        (recptrs rb ! ?j, endptrs rb ! ?j, checkpoints rb ! ?j) # drop (Suc i) (stash rb)"
      using True by (simp add: Cons_nth_drop_Suc [symmetric] stash_def)
    with 1 True get show ?thesis by (subst shrink_scan.simps) auto
  next
    case False
    with 1 show ?thesis by (subst shrink_scan.simps) (simp add: stash_def)
  qed
qed

lemma shrink_scan_empty: "ckpt_size rb = 0 \<Longrightarrow> shrink_scan rb replayed 1 = Inr 1"
  by (subst shrink_scan.simps) simp

lemma shrink_refines:
  assumes "ringbuf_wf rb" "\<not> lock_held rb"
  shows "\<exists>rb'. polar_checkpoint_ringbuf_shrink rb replayed = Inr rb' \<and> ringbuf_wf rb'
    \<and> \<not> lock_held rb' \<and> stash rb' = stash_shrink replayed (stash rb)"
proof -
  let ?k = "length (takeWhile (\<lambda>e. stashed_redo e \<le> replayed) (drop 1 (stash rb)))"
  let ?rb = "rb\<lparr>lock_held := True\<rparr>"
  have st: "stash ?rb = stash rb" by (simp add: stash_def)
  have scan: "shrink_scan ?rb replayed 1 = Inr (1 + ?k)"
  proof (cases "ckpt_size rb = 0")
    case True
    then show ?thesis by (simp add: shrink_scan_empty stash_def)
  next
    case False
    with assms show ?thesis by (subst shrink_scan_eq) (auto simp: ringbuf_wf_def st)
  qed
  have k: "?k \<le> ckpt_size rb"
    using length_takeWhile_le [of "\<lambda>e. stashed_redo e \<le> replayed" "drop 1 (stash rb)"]
    by (simp add: stash_def)
  have eq: "polar_checkpoint_ringbuf_shrink rb replayed = Inr (ckpt_release (?rb
     \<lparr>ckpt_head := (ckpt_head rb + ?k) mod POLAR_CHECKPOINT_RINGBUF_CAPACITY,
      ckpt_size := ckpt_size rb - ?k\<rparr>))"
    using assms scan by (simp add: polar_checkpoint_ringbuf_shrink_def ckpt_acquire_def ringbuf_wf_def)
  have "drop ?k (stash rb) = stash_shrink replayed (stash rb)"
    by (simp add: stash_shrink_def drop_Suc)
  moreover have "(ckpt_head rb + ?k) mod POLAR_CHECKPOINT_RINGBUF_CAPACITY < POLAR_CHECKPOINT_RINGBUF_CAPACITY"
    by (simp add: POLAR_CHECKPOINT_RINGBUF_CAPACITY_def)
  ultimately show ?thesis unfolding eq using assms k
    by (auto simp: ckpt_release_def ringbuf_wf_def stash_def drop_ring_view)
qed

lemma tail_redo_eq:
  assumes "ringbuf_wf rb" "stash rb \<noteq> []"
  shows "tail_redo before rb = Inr (stashed_redo (last (stash rb)))"
proof -
  from assms have "0 < ckpt_size rb" by (simp add: stash_def)
  moreover have "(ckpt_head rb + (ckpt_size rb - 1)) mod POLAR_CHECKPOINT_RINGBUF_CAPACITY
      < POLAR_CHECKPOINT_RINGBUF_CAPACITY"
    by (simp add: POLAR_CHECKPOINT_RINGBUF_CAPACITY_def)
  ultimately show ?thesis using assms
    by (simp add: tail_redo_def stash_def last_conv_nth ringbuf_wf_def)
qed

lemma insert_refines:
  assumes "ringbuf_wf rb" "\<not> lock_held rb" "tail_redo before rb = Inr t" "t \<le> redo c"
  shows "\<exists>rb'. polar_checkpoint_ringbuf_insert before rb r e c = Inr rb' \<and> ringbuf_wf rb'
    \<and> \<not> lock_held rb' \<and> stash rb' = stash_insert (r, e, c) (stash rb)"
proof -
  let ?rb = "rb\<lparr>lock_held := True, ckpt_size :=
     if ckpt_size rb = POLAR_CHECKPOINT_RINGBUF_CAPACITY then ckpt_size rb - 1 else ckpt_size rb\<rparr>"
  let ?t = "(ckpt_head rb + ckpt_size ?rb) mod POLAR_CHECKPOINT_RINGBUF_CAPACITY"
  let ?rb' = "rb\<lparr>recptrs := (recptrs rb)[?t := r], endptrs := (endptrs rb)[?t := e],
    checkpoints := (checkpoints rb)[?t := c], ckpt_size := ckpt_size ?rb + 1\<rparr>"
  have t: "?t < POLAR_CHECKPOINT_RINGBUF_CAPACITY"
    by (simp add: POLAR_CHECKPOINT_RINGBUF_CAPACITY_def)
  have tr: "tail_redo before (rb\<lparr>lock_held := True\<rparr>) = Inr t"
    using assms(3) by (auto simp: tail_redo_def split: if_splits)
  have eq: "polar_checkpoint_ringbuf_insert before rb r e c = Inr (ckpt_release ?rb')"
    using assms t tr
    by (simp add: polar_checkpoint_ringbuf_insert_def ckpt_acquire_def ringbuf_wf_def ckpt_release_def Let_def)
  have n: "ckpt_size ?rb < POLAR_CHECKPOINT_RINGBUF_CAPACITY"
    using assms(1) by (auto simp: ringbuf_wf_def POLAR_CHECKPOINT_RINGBUF_CAPACITY_def)
  have "stash ?rb' = ring_view (zip (recptrs rb) (zip (endptrs rb) (checkpoints rb)))
      (ckpt_head rb) (ckpt_size ?rb) @ [(r, e, c)]"
    using assms(1) n ring_view_append
      [of "ckpt_size ?rb" "zip (recptrs rb) (zip (endptrs rb) (checkpoints rb))" "ckpt_head rb" "(r, e, c)"]
    by (simp add: stash_def ringbuf_wf_def update_zip)
  also have "\<dots> = stash_insert (r, e, c) (stash rb)"
    by (simp add: stash_insert_def stash_def butlast_conv_take take_ring_view)
  finally have "stash (ckpt_release ?rb') = stash_insert (r, e, c) (stash rb)"
    by (simp add: stash_def ckpt_release_def)
  then show ?thesis unfolding eq using assms(1) n
    by (auto simp: ckpt_release_def ringbuf_wf_def)
qed

lemma front_refines:
  assumes "ringbuf_wf rb" "\<not> lock_held rb" "stash rb \<noteq> []"
  shows "polar_checkpoint_ringbuf_front rb = Inr (hd (stash rb), rb)"
  using assms
  by (simp add: polar_checkpoint_ringbuf_front_def ckpt_acquire_def ckpt_release_def stash_def
      ringbuf_wf_def hd_conv_nth Let_def)

section \<open>Reachable states\<close>

definition stash_ok :: "XLogRecPtr \<Rightarrow> stashed list \<Rightarrow> bool" where
  "stash_ok replayed q \<longleftrightarrow>
     q \<noteq> [] \<and> sorted (map stashed_redo q) \<and> stashed_redo (hd q) \<le> replayed"

text \<open>
  The ring holds checkpoints and is unlocked, or it is empty as after its initialisation. In the
  latter case the lock is held only when the last checkpoint was dropped by the comparison with \<open>before\<close>.
\<close>

definition ctl_ok :: "XLogRecPtr \<Rightarrow> xlog_ctl \<Rightarrow> XLogRecPtr \<Rightarrow> bool" where
  "ctl_ok before ctl replayed \<longleftrightarrow> ringbuf_wf (ckpt_ringbuf ctl)
     \<and> (if stash (ckpt_ringbuf ctl) = []
        then ckpt_head (ckpt_ringbuf ctl) = 0 \<and> (lock_held (ckpt_ringbuf ctl) \<longrightarrow> redo (lastCheckPoint ctl) < before)
        else \<not> lock_held (ckpt_ringbuf ctl) \<and> stash_ok replayed (stash (ckpt_ringbuf ctl)))"

lemma stash_shrink_ok:
  assumes "stash_ok p q"
  shows "stash_ok p (stash_shrink p q)"
    and "hd (stash_shrink p q) \<in> set q"
    and "\<forall>x \<in> set q. stashed_redo x \<le> p \<longrightarrow> stashed_redo x \<le> stashed_redo (hd (stash_shrink p q))"
    and "set (stash_shrink p q) \<subseteq> set q"
proof -
  obtain a as where q: "q = a # as" and a: "stashed_redo a \<le> p"
    and srt: "sorted (map stashed_redo q)"
    using assms by (cases q) (auto simp: stash_ok_def)
  let ?P = "\<lambda>e. stashed_redo e \<le> p"
  let ?k = "length (takeWhile ?P as)"
  have k: "?k < length q" using length_takeWhile_le [of ?P as] by (simp add: q)
  have sh: "stash_shrink p q = drop ?k q" by (simp add: stash_shrink_def q)
  then have hd: "hd (stash_shrink p q) = q ! ?k" using k by (simp add: hd_drop_conv_nth)
  have "\<forall>x \<in> set (takeWhile ?P as). ?P x" by (auto dest: set_takeWhileD)
  moreover have "?k \<noteq> 0 \<Longrightarrow> q ! ?k = takeWhile ?P as ! (?k - 1)"
    using q by (simp add: nth_Cons' takeWhile_nth)
  ultimately have le: "?P (q ! ?k)" using a q
    by (cases "?k = 0") (auto simp: nth_mem)
  have "stashed_redo (q ! j) \<le> stashed_redo (q ! ?k)" if "j < length q" "?P (q ! j)" for j
  proof (cases "j \<le> ?k")
    case True
    with srt k show ?thesis by (auto simp: sorted_iff_nth_mono)
  next
    case False
    then have j: "?k < length as" "?k \<le> j - 1" "q ! j = as ! (j - 1)" "j - 1 < length as"
      using that q by (auto simp: nth_Cons')
    then have "p < stashed_redo (as ! ?k)" using nth_length_takeWhile [of ?P as] by simp
    also have "\<dots> \<le> stashed_redo (as ! (j - 1))"
      using srt j q by (auto simp: sorted_iff_nth_mono)
    finally show ?thesis using that j by simp
  qed
  then show "\<forall>x \<in> set q. stashed_redo x \<le> p \<longrightarrow> stashed_redo x \<le> stashed_redo (hd (stash_shrink p q))"
    unfolding hd by (metis in_set_conv_nth)
  show "stash_ok p (stash_shrink p q)"
    using k le srt hd unfolding stash_ok_def sh by (simp add: drop_map [symmetric] sorted_wrt_drop)
  show "hd (stash_shrink p q) \<in> set q" unfolding hd using k by simp
  show "set (stash_shrink p q) \<subseteq> set q" unfolding sh by (rule set_drop_subset)
qed

lemma stash_insert_ok:
  assumes "stash_ok p q" "\<forall>x \<in> set q. stashed_redo x \<le> redo c"
  shows "stash_ok p (stash_insert (r, e, c) q)"
proof -
  define q' where "q' = (if length q = POLAR_CHECKPOINT_RINGBUF_CAPACITY then butlast q else q)"
  have ins: "stash_insert (r, e, c) q = q' @ [(r, e, c)]" by (simp add: stash_insert_def q'_def)
  obtain n where n: "q' = take n q" "0 < n"
  proof (cases "length q = POLAR_CHECKPOINT_RINGBUF_CAPACITY")
    case True
    then show ?thesis using that [of 4]
      by (simp add: q'_def butlast_conv_take POLAR_CHECKPOINT_RINGBUF_CAPACITY_def)
  next
    case False
    then show ?thesis using that [of "length q"] assms(1) by (simp add: q'_def stash_ok_def)
  qed
  have "sorted (map stashed_redo q')"
    using assms(1) n by (simp add: stash_ok_def take_map [symmetric] sorted_wrt_take)
  moreover have "hd q' = hd q" "q' \<noteq> []" "set q' \<subseteq> set q"
    using n assms(1) by (auto simp: stash_ok_def dest: in_set_takeD)
  ultimately show ?thesis using assms unfolding ins
    by (auto simp: stash_ok_def sorted_append)
qed

lemma record_stashed:
  assumes ok: "ctl_ok before ctl p" "stash (ckpt_ringbuf ctl) \<noteq> []"
    and le: "\<forall>x \<in> set (stash (ckpt_ringbuf ctl)). stashed_redo x \<le> redo c"
    and rec: "RecoveryRestartPoint before False True p ctl r e c = Inr ctl'"
  shows "ctl_ok before ctl' p"
proof -
  let ?rb = "ckpt_ringbuf ctl"
  have q: "stash_ok p (stash ?rb)" "ringbuf_wf ?rb" "\<not> lock_held ?rb" using ok by (simp_all add: ctl_ok_def)
  obtain rb1 where
    rb1: "polar_checkpoint_ringbuf_shrink ?rb p = Inr rb1" "ringbuf_wf rb1" "\<not> lock_held rb1"
      "stash rb1 = stash_shrink p (stash ?rb)"
    using shrink_refines [OF q(2,3)] by blast
  with stash_shrink_ok [OF q(1)] le have ok1: "stash_ok p (stash rb1)"
    and le1: "\<forall>x \<in> set (stash rb1). stashed_redo x \<le> redo c" by auto
  then have "tail_redo before rb1 = Inr (stashed_redo (last (stash rb1)))"
    using rb1 by (intro tail_redo_eq) (auto simp: stash_ok_def)
  moreover have "stashed_redo (last (stash rb1)) \<le> redo c"
    using le1 ok1 by (simp add: stash_ok_def)
  ultimately obtain rb2 where
    "polar_checkpoint_ringbuf_insert before rb1 r e c = Inr rb2" "ringbuf_wf rb2" "\<not> lock_held rb2"
      "stash rb2 = stash_insert (r, e, c) (stash rb1)"
    using insert_refines rb1 by blast
  with rb1 rec stash_insert_ok [OF ok1 le1, of r e] show ?thesis
    by (auto simp: RecoveryRestartPoint_def ctl_ok_def stash_ok_def)
qed

lemma shrink_empty:
  "ckpt_size rb = 0 \<Longrightarrow> \<not> lock_held rb \<Longrightarrow> polar_checkpoint_ringbuf_shrink rb p = Inr rb"
  by (simp add: polar_checkpoint_ringbuf_shrink_def ckpt_acquire_def ckpt_release_def shrink_scan_empty)

lemma record_first:
  assumes ok: "ctl_ok before ctl p" "stash (ckpt_ringbuf ctl) = []" "\<not> lock_held (ckpt_ringbuf ctl)" and c: "redo c \<le> p"
    and rec: "RecoveryRestartPoint before False True p ctl r e c = Inr ctl'"
  shows "ctl_ok before ctl' p"
proof -
  let ?rb = "ckpt_ringbuf ctl"
  have wf: "ringbuf_wf ?rb" "ckpt_head ?rb = 0" "ckpt_size ?rb = 0" using ok by (simp_all add: ctl_ok_def stash_def)
  have tail: "tail_redo before ?rb = Inr before" by (simp add: tail_redo_def wf)
  show ?thesis
  proof (cases "before \<le> redo c")
    case True
    from insert_refines [OF wf(1) ok(3) tail this, of r e] obtain rb1 where
      "polar_checkpoint_ringbuf_insert before ?rb r e c = Inr rb1" "ringbuf_wf rb1" "\<not> lock_held rb1"
        "stash rb1 = [(r, e, c)]"
      by (auto simp: ok(2) stash_insert_def POLAR_CHECKPOINT_RINGBUF_CAPACITY_def)
    then show ?thesis using rec c shrink_empty [OF wf(3) ok(3)]
      by (auto simp: RecoveryRestartPoint_def ctl_ok_def stash_ok_def)
  next
    case False
    then have "polar_checkpoint_ringbuf_insert before ?rb r e c = Inr (?rb\<lparr>lock_held := True\<rparr>)"
      using ok(3) wf by (simp add: polar_checkpoint_ringbuf_insert_def ckpt_acquire_def tail_redo_def)
    then show ?thesis using rec False wf shrink_empty [OF wf(3) ok(3)]
      by (auto simp: RecoveryRestartPoint_def ctl_ok_def stash_def ringbuf_wf_def)
  qed
qed

lemma RecoveryRestartPoint_ok:
  assumes "ctl_ok before ctl p" "\<forall>x \<in> set (stash (ckpt_ringbuf ctl)). stashed_redo x \<le> redo c"
    and "stash (ckpt_ringbuf ctl) = [] \<Longrightarrow> redo c \<le> p"
    and "RecoveryRestartPoint before invalid True p ctl r e c = Inr ctl'"
  shows "ctl_ok before ctl' p"
proof (cases invalid)
  case True
  then show ?thesis using assms by (simp add: RecoveryRestartPoint_def)
next
  case False
  then have "\<not> lock_held (ckpt_ringbuf ctl)" using assms(4)
    by (auto simp: RecoveryRestartPoint_def polar_checkpoint_ringbuf_shrink_def ckpt_acquire_def)
  moreover have "RecoveryRestartPoint before False True p ctl r e c = Inr ctl'" using assms(4) False by simp
  ultimately show ?thesis using assms(1-3) record_first record_stashed by (cases "stash (ckpt_ringbuf ctl) = []") blast+
qed

lemma candidate_stashed:
  assumes "ctl_ok before ctl p" "stash (ckpt_ringbuf ctl) \<noteq> []"
  shows "\<exists>ctl'. restart_point_candidate True p ctl =
      Inr (hd (stash_shrink p (stash (ckpt_ringbuf ctl))), ctl') \<and> ctl_ok before ctl' p"
proof -
  let ?rb = "ckpt_ringbuf ctl"
  have q: "stash_ok p (stash ?rb)" "ringbuf_wf ?rb" "\<not> lock_held ?rb" using assms by (simp_all add: ctl_ok_def)
  obtain rb1 where
    rb1: "polar_checkpoint_ringbuf_shrink ?rb p = Inr rb1" "ringbuf_wf rb1" "\<not> lock_held rb1"
      "stash rb1 = stash_shrink p (stash ?rb)"
    using shrink_refines [OF q(2,3)] by blast
  with stash_shrink_ok(1) [OF q(1)] have ok: "stash_ok p (stash rb1)" by simp
  with rb1 front_refines [of rb1] have "polar_checkpoint_ringbuf_front rb1 = Inr (hd (stash rb1), rb1)"
    by (simp add: stash_ok_def)
  with rb1 ok show ?thesis by (auto simp: restart_point_candidate_def ctl_ok_def stash_ok_def)
qed

lemma candidate_empty:
  assumes "stash (ckpt_ringbuf ctl) = []"
  shows "restart_point_candidate True p ctl =
    (if lock_held (ckpt_ringbuf ctl) then Inl SelfDeadlock
     else Inr ((InvalidXLogRecPtr, InvalidXLogRecPtr, CheckPoint_zero), ctl))"
proof (cases "lock_held (ckpt_ringbuf ctl)")
  case True
  then show ?thesis by (simp add: restart_point_candidate_def polar_checkpoint_ringbuf_shrink_def ckpt_acquire_def)
next
  case False
  moreover have "ckpt_size (ckpt_ringbuf ctl) = 0" using assms by (simp add: stash_def)
  ultimately show ?thesis using shrink_empty [of "ckpt_ringbuf ctl" p]
    by (simp add: restart_point_candidate_def polar_checkpoint_ringbuf_front_def ckpt_acquire_def ckpt_release_def)
qed

lemma init_ok: "ckpt_ringbuf ctl = polar_checkpoint_ringbuf_init checkpoint_ringbuf_zero \<Longrightarrow> ctl_ok before ctl p"
  by (simp add: ctl_ok_def ringbuf_wf_def stash_def polar_checkpoint_ringbuf_init_def checkpoint_ringbuf_zero_def
      POLAR_CHECKPOINT_RINGBUF_CAPACITY_def)

lemma standby_run_ok: "standby_run before ctl p \<Longrightarrow> ctl_ok before ctl p"
proof (induction rule: standby_run.induct)
  case (init ctl replayed)
  then show ?case by (rule init_ok)
next
  case (advance ctl replayed replayed')
  then show ?case by (auto simp: ctl_ok_def stash_ok_def split: if_splits)
next
  case (record_ckpt ctl replayed c invalid r e ctl')
  then show ?case using RecoveryRestartPoint_ok by blast
next
  case (restart ctl replayed x ctl')
  then show ?case using candidate_stashed [OF restart.IH] candidate_empty [of ctl replayed]
    by (cases "stash (ckpt_ringbuf ctl) = []") (auto split: if_splits)
qed

text \<open>
  C4. The restart point of a standby, in every state it reaches from an initialised ring, whatever
  word is in memory before the ring. Once a checkpoint is stashed the lock is free and the
  candidate is one of the stashed checkpoints, has a redo pointer at or before the background replay
  position, and is the newest stashed checkpoint with that property, as the comment of
  \<open>polar_checkpoint_ringbuf_front\<close> promises. While nothing is stashed there is no candidate, and the
  call returns so, except when the first checkpoint was dropped because its redo pointer is below
  the word before the ring: then the lock was never released and the call waits for it.
\<close>

theorem restart_point_is_newest_replayed:
  assumes "standby_run before ctl p"
  shows "if stash (ckpt_ringbuf ctl) \<noteq> []
    then \<exists>r e c ctl'. restart_point_candidate True p ctl = Inr ((r, e, c), ctl') \<and> \<not> lock_held (ckpt_ringbuf ctl)
      \<and> (r, e, c) \<in> set (stash (ckpt_ringbuf ctl)) \<and> redo c \<le> p
      \<and> (\<forall>x \<in> set (stash (ckpt_ringbuf ctl)). stashed_redo x \<le> p \<longrightarrow> stashed_redo x \<le> redo c)
    else if lock_held (ckpt_ringbuf ctl)
    then redo (lastCheckPoint ctl) < before \<and> restart_point_candidate True p ctl = Inl SelfDeadlock
    else restart_point_candidate True p ctl = Inr ((InvalidXLogRecPtr, InvalidXLogRecPtr, CheckPoint_zero), ctl)"
proof (cases "stash (ckpt_ringbuf ctl) = []")
  case True
  then show ?thesis using candidate_empty [OF True] standby_run_ok [OF assms] by (simp add: ctl_ok_def)
next
  case False
  note ok = standby_run_ok [OF assms]
  let ?q = "stash (ckpt_ringbuf ctl)"
  have q: "stash_ok p ?q" "\<not> lock_held (ckpt_ringbuf ctl)" using ok False by (simp_all add: ctl_ok_def)
  obtain r e c where hd: "hd (stash_shrink p ?q) = (r, e, c)" by (cases "hd (stash_shrink p ?q)")
  from candidate_stashed [OF ok False] obtain ctl' where
    "restart_point_candidate True p ctl = Inr ((r, e, c), ctl')" by (auto simp: hd)
  moreover have "redo c \<le> p" using stash_shrink_ok(1) [OF q(1)] by (simp add: stash_ok_def hd)
  ultimately show ?thesis using stash_shrink_ok(2,3) [OF q(1)] q(2) False unfolding hd by auto
qed

definition sample_ckpt :: "XLogRecPtr \<Rightarrow> CheckPoint" where
  "sample_ckpt lsn = CheckPoint_zero\<lparr>redo := lsn\<rparr>"

definition sample_ctl :: xlog_ctl where
  "sample_ctl = \<lparr>lastCheckPointRecPtr = 0, lastCheckPointEndPtr = 0, lastCheckPoint = CheckPoint_zero,
     ckpt_ringbuf = polar_checkpoint_ringbuf_init checkpoint_ringbuf_zero\<rparr>"

text \<open>Two checkpoints are read and background replay is between their redo pointers.\<close>

theorem restart_point_is_newest_replayed_witness:
  "\<exists>ctl. standby_run 3 ctl 15 \<and> map stashed_redo (stash (ckpt_ringbuf ctl)) = [10, 20]
    \<and> (\<exists>r e c ctl'. restart_point_candidate True 15 ctl = Inr ((r, e, c), ctl') \<and> redo c = 10)"
proof -
  have run0: "standby_run 3 sample_ctl 10" by (rule standby_run.init) (simp add: sample_ctl_def)
  have st0: "stash (ckpt_ringbuf sample_ctl) = []"
    by (simp add: sample_ctl_def stash_def polar_checkpoint_ringbuf_init_def checkpoint_ringbuf_zero_def)
  note eval = RecoveryRestartPoint_def polar_checkpoint_ringbuf_shrink_def polar_checkpoint_ringbuf_insert_def
    ckpt_acquire_def ckpt_release_def tail_redo_def sample_ckpt_def CheckPoint_zero_def
    POLAR_CHECKPOINT_RINGBUF_CAPACITY_def Let_def shrink_scan.simps
  obtain ctl1 where c1: "RecoveryRestartPoint 3 False True 10 sample_ctl 100 120 (sample_ckpt 10) = Inr ctl1"
    "stash (ckpt_ringbuf ctl1) = [(100, 120, sample_ckpt 10)]" "ckpt_head (ckpt_ringbuf ctl1) = 0" "ckpt_size (ckpt_ringbuf ctl1) = 1"
    by (simp add: eval sample_ctl_def polar_checkpoint_ringbuf_init_def checkpoint_ringbuf_zero_def stash_def ring_view_def)
  have run1: "standby_run 3 ctl1 10" by (rule standby_run.record_ckpt [OF run0 _ _ c1(1)]) (simp_all add: st0 sample_ckpt_def)
  have wf: "ringbuf_wf (ckpt_ringbuf ctl1)" "\<not> lock_held (ckpt_ringbuf ctl1)" using standby_run_ok [OF run1] c1(2) by (simp_all add: ctl_ok_def)
  have tr: "tail_redo 3 (ckpt_ringbuf ctl1) = Inr 10" using tail_redo_eq [OF wf(1)] c1(2) by (simp add: sample_ckpt_def)
  have sh: "polar_checkpoint_ringbuf_shrink (ckpt_ringbuf ctl1) 10 = Inr (ckpt_ringbuf ctl1)"
    using wf(2) c1(4) by (simp add: polar_checkpoint_ringbuf_shrink_def ckpt_acquire_def ckpt_release_def shrink_scan.simps)
  obtain rb where rb: "polar_checkpoint_ringbuf_insert 3 (ckpt_ringbuf ctl1) 200 220 (sample_ckpt 20) = Inr rb"
    "stash rb = [(100, 120, sample_ckpt 10), (200, 220, sample_ckpt 20)]"
    using insert_refines [OF wf tr, of "sample_ckpt 20" 200 220] c1(2)
    by (auto simp: sample_ckpt_def stash_insert_def POLAR_CHECKPOINT_RINGBUF_CAPACITY_def)
  obtain ctl2 where c2: "RecoveryRestartPoint 3 False True 10 ctl1 200 220 (sample_ckpt 20) = Inr ctl2" "ckpt_ringbuf ctl2 = rb"
    using sh rb(1) by (simp add: RecoveryRestartPoint_def Let_def)
  have "standby_run 3 ctl2 10" by (rule standby_run.record_ckpt [OF run1 _ _ c2(1)]) (simp_all add: c1(2) sample_ckpt_def)
  then have run2: "standby_run 3 ctl2 15" by (rule standby_run.advance) simp
  from restart_point_is_newest_replayed [OF run2] run2 show ?thesis
    unfolding c2(2) rb(2) by (intro exI [of _ ctl2]) (auto simp: sample_ckpt_def c2(2) rb(2))
qed

text \<open>
  C26. Inserting a checkpoint whose redo pointer is before that of the newest stashed one leaves
  the stash as it is and the lock held, so that the next operation of the process waits for a
  lock that it holds itself.
\<close>

theorem insert_of_older_checkpoint_leaks_lock:
  assumes "ringbuf_wf rb" "\<not> lock_held rb" "stash rb \<noteq> []" "redo c < stashed_redo (last (stash rb))"
  shows "\<exists>rb'. polar_checkpoint_ringbuf_insert before rb r e c = Inr rb' \<and> stash rb' = stash rb
    \<and> polar_checkpoint_ringbuf_shrink rb' p = Inl SelfDeadlock
    \<and> polar_checkpoint_ringbuf_insert before rb' r' e' c' = Inl SelfDeadlock
    \<and> polar_checkpoint_ringbuf_front rb' = Inl SelfDeadlock"
proof -
  let ?rb = "rb\<lparr>lock_held := True\<rparr>"
  have "ringbuf_wf ?rb" "stash ?rb = stash rb" using assms(1) by (simp_all add: ringbuf_wf_def stash_def)
  with assms(3) tail_redo_eq [of ?rb before]
  have "tail_redo before ?rb = Inr (stashed_redo (last (stash rb)))" by simp
  then have "polar_checkpoint_ringbuf_insert before rb r e c = Inr ?rb"
    using assms by (simp add: polar_checkpoint_ringbuf_insert_def ckpt_acquire_def)
  then show ?thesis
    by (simp add: stash_def polar_checkpoint_ringbuf_shrink_def polar_checkpoint_ringbuf_insert_def
        polar_checkpoint_ringbuf_front_def ckpt_acquire_def)
qed

theorem insert_of_older_checkpoint_leaks_lock_witness:
  "\<exists>rb rb'. stash rb = [(0, 0, CheckPoint_zero\<lparr>redo := 7\<rparr>)]
    \<and> polar_checkpoint_ringbuf_insert 0 rb 1 2 CheckPoint_zero = Inr rb'
    \<and> polar_checkpoint_ringbuf_front rb' = Inl SelfDeadlock"
proof -
  let ?rb = "checkpoint_ringbuf_zero
    \<lparr>checkpoints := replicate 5 (CheckPoint_zero\<lparr>redo := 7\<rparr>), ckpt_size := 1\<rparr>"
  have st: "stash ?rb = [(0, 0, CheckPoint_zero\<lparr>redo := 7\<rparr>)]"
    by (simp add: stash_def ring_view_def checkpoint_ringbuf_zero_def
        POLAR_CHECKPOINT_RINGBUF_CAPACITY_def)
  have "ringbuf_wf ?rb" "\<not> lock_held ?rb"
    by (simp_all add: ringbuf_wf_def checkpoint_ringbuf_zero_def POLAR_CHECKPOINT_RINGBUF_CAPACITY_def)
  moreover have "stash ?rb \<noteq> []" unfolding st by simp
  moreover have "redo CheckPoint_zero < stashed_redo (last (stash ?rb))"
    unfolding st by (simp add: CheckPoint_zero_def)
  ultimately have "\<exists>rb'. polar_checkpoint_ringbuf_insert 0 ?rb 1 2 CheckPoint_zero = Inr rb'
      \<and> polar_checkpoint_ringbuf_front rb' = Inl SelfDeadlock"
    using insert_of_older_checkpoint_leaks_lock [of ?rb CheckPoint_zero 0 1 2] by blast
  with st show ?thesis by blast
qed

text \<open>
  C27. The first insertion into an initialised ring depends on the word \<open>before\<close> in memory just
  before the ring: when it is above the checkpoint's redo pointer, the checkpoint is dropped and
  the lock stays held; otherwise the checkpoint is stashed and the lock is released.
\<close>

theorem first_insert_reads_foreign_memory:
  "\<exists>rb. polar_checkpoint_ringbuf_insert before
      (polar_checkpoint_ringbuf_init checkpoint_ringbuf_zero) r e c = Inr rb
    \<and> stash rb = (if before > redo c then [] else [(r, e, c)])
    \<and> lock_held rb = (before > redo c)"
  by (auto simp: polar_checkpoint_ringbuf_insert_def ckpt_acquire_def ckpt_release_def tail_redo_def
      polar_checkpoint_ringbuf_init_def checkpoint_ringbuf_zero_def stash_def ring_view_def
      POLAR_CHECKPOINT_RINGBUF_CAPACITY_def Let_def)

end
