(* ===== verification/Bitpos.thy ===== *)
theory Bitpos
  imports Polar_Prelude
begin

unbundle bit_operations_syntax

text \<open>
  The bit-set macros of \<^verbatim>\<open>src/include/utils/polar_bitpos.h\<close>, which the ring buffer and the
  mini transaction use to record which slots of a small array are in use. Positions start
  from 1, so position \<open>i\<close> is bit \<open>i - 1\<close>. \<open>POLAR_BIT_LEAST_POS\<close> has two definitions in the
  header, one per compiler; both are modelled.
\<close>

section \<open>The macros\<close>

text \<open>\<open>__builtin_ffsl\<close>: one plus the index of the least significant 1-bit, 0 for 0.\<close>

definition builtin_ffsl :: "uint64 \<Rightarrow> nat" where
  "builtin_ffsl x = (case find (bit x) [0..<64] of None \<Rightarrow> 0 | Some i \<Rightarrow> Suc i)"

definition POLAR_BIT_LEAST_POS :: "uint64 \<Rightarrow> nat" where
  "POLAR_BIT_LEAST_POS v = builtin_ffsl v"

text \<open>One \<open>if\<close> of the definition for other compilers, and the cascade of six of them.\<close>

definition least_pos_step :: "nat \<Rightarrow> uint64 \<times> nat \<Rightarrow> uint64 \<times> nat" where
  "least_pos_step w = (\<lambda>(v, p). if v AND mask w = 0 then (drop_bit w v, p + w) else (v, p))"

definition POLAR_BIT_LEAST_POS_portable :: "uint64 \<Rightarrow> nat" where
  "POLAR_BIT_LEAST_POS_portable val =
     (let (v, p) = least_pos_step 2 (least_pos_step 4 (least_pos_step 8
                     (least_pos_step 16 (least_pos_step 32 (val, 0)))))
      in if v AND 1 = 0 then p + 1 else p)"

definition POLAR_BIT_CLEAR_LEAST :: "uint64 \<Rightarrow> uint64" where
  "POLAR_BIT_CLEAR_LEAST x = x AND (x - 1)"

definition POLAR_BIT_OCCUPY :: "uint64 \<Rightarrow> nat \<Rightarrow> uint64" where
  "POLAR_BIT_OCCUPY x i = x OR push_bit (i - 1) 1"

definition POLAR_BIT_IS_OCCUPIED :: "uint64 \<Rightarrow> nat \<Rightarrow> bool" where
  "POLAR_BIT_IS_OCCUPIED x i = (x AND push_bit (i - 1) 1 \<noteq> 0)"

definition POLAR_BIT_RELEASE_OCCUPIED :: "uint64 \<Rightarrow> nat \<Rightarrow> uint64" where
  "POLAR_BIT_RELEASE_OCCUPIED x i = x AND NOT (push_bit (i - 1) 1)"

text \<open>
  The loop \<open>while (occupied) { POLAR_BIT_LEAST_POS(occupied, i); ...; POLAR_BIT_CLEAR_LEAST(occupied); }\<close>
  of the clients: the positions it visits, in order.
\<close>

function occupied_positions :: "uint64 \<Rightarrow> nat list" where
  "occupied_positions x =
     (if x = 0 then [] else POLAR_BIT_LEAST_POS x # occupied_positions (POLAR_BIT_CLEAR_LEAST x))"
  by pat_completeness auto
termination
  by (relation "measure unat")
    (auto simp: POLAR_BIT_CLEAR_LEAST_def and_decr_less simp flip: word_less_nat_alt)

declare occupied_positions.simps [simp del]

section \<open>What they compute\<close>

lemma least_pos_zero_iff [simp]: "POLAR_BIT_LEAST_POS x = 0 \<longleftrightarrow> x = 0"
proof -
  have "find (bit x) [0..<64] = None \<longleftrightarrow> x = 0"
    by (simp only: find_upt_None word_zero_iff_no_bit len_num1 len_num0 len_bit0) simp
  then show ?thesis
    by (auto simp: POLAR_BIT_LEAST_POS_def builtin_ffsl_def split: option.splits)
qed

lemma least_pos_Suc_iff:
  "POLAR_BIT_LEAST_POS x = Suc i \<longleftrightarrow> bit x i \<and> (\<forall>j<i. \<not> bit x j)"
proof -
  have "bit x i \<Longrightarrow> i < 64" using bit_imp_le_length [of x i] by simp
  moreover have "i = j" if "bit x i" "\<forall>k<i. \<not> bit x k" "bit x j" "\<forall>k<j. \<not> bit x k" for j
    using that by (meson linorder_neqE_nat)
  ultimately show ?thesis
    by (auto simp: POLAR_BIT_LEAST_POS_def builtin_ffsl_def find_upt_Some find_upt_None
        split: option.splits)
qed

lemma least_pos_le: "POLAR_BIT_LEAST_POS x \<le> 64"
  by (auto simp: POLAR_BIT_LEAST_POS_def builtin_ffsl_def find_upt_Some split: option.splits)

lemma bit_two_power [simp]: "bit (2 ^ m :: uint64) n \<longleftrightarrow> n = m \<and> n < 64"
  by (auto simp: bit_exp_iff)

lemma bit_occupy [simp]:
  "bit (POLAR_BIT_OCCUPY x i) n \<longleftrightarrow> bit x n \<or> (n = i - 1 \<and> n < 64)"
  by (auto simp: POLAR_BIT_OCCUPY_def bit_or_iff)

lemma bit_release [simp]:
  "bit (POLAR_BIT_RELEASE_OCCUPIED x i) n \<longleftrightarrow> bit x n \<and> n \<noteq> i - 1"
  using bit_imp_le_length [of x n]
  by (auto simp: POLAR_BIT_RELEASE_OCCUPIED_def bit_and_iff bit_not_iff)

lemma is_occupied_iff: "POLAR_BIT_IS_OCCUPIED x i \<longleftrightarrow> bit x (i - 1)"
proof -
  have "x AND push_bit (i - 1) 1 = 0 \<longleftrightarrow> \<not> bit x (i - 1)"
    using bit_imp_le_length [of x "i - 1"]
    by (auto simp: word_zero_iff_no_bit bit_and_iff)
  then show ?thesis by (simp add: POLAR_BIT_IS_OCCUPIED_def)
qed

lemma bit_clear_least:
  "bit (POLAR_BIT_CLEAR_LEAST x) n \<longleftrightarrow> bit x n \<and> Suc n \<noteq> POLAR_BIT_LEAST_POS x"
proof (cases "x = 0")
  case False
  then obtain k where k: "POLAR_BIT_LEAST_POS x = Suc k"
    by (cases "POLAR_BIT_LEAST_POS x") auto
  then have "bit x k" "\<And>j. j < k \<Longrightarrow> \<not> bit x j" by (simp_all add: least_pos_Suc_iff)
  from bit_and_decr [OF this] k show ?thesis
    by (auto simp: POLAR_BIT_CLEAR_LEAST_def)
qed (simp add: POLAR_BIT_CLEAR_LEAST_def)

lemma set_occupied_positions: "set (occupied_positions x) = {Suc n |n. bit x n}"
proof (induction x rule: occupied_positions.induct)
  case (1 x)
  show ?case
  proof (cases "x = 0")
    case False
    then obtain k where k: "POLAR_BIT_LEAST_POS x = Suc k" by (cases "POLAR_BIT_LEAST_POS x") auto
    then have "bit x k" by (simp add: least_pos_Suc_iff)
    with 1 False k show ?thesis
      by (subst occupied_positions.simps) (auto simp: bit_clear_least)
  qed (simp add: occupied_positions.simps)
qed

lemma sorted_occupied_positions: "sorted_wrt (<) (occupied_positions x)"
proof (induction x rule: occupied_positions.induct)
  case (1 x)
  show ?case
  proof (cases "x = 0")
    case False
    then obtain k where k: "POLAR_BIT_LEAST_POS x = Suc k" by (cases "POLAR_BIT_LEAST_POS x") auto
    then have "\<forall>j<k. \<not> bit x j" by (simp add: least_pos_Suc_iff)
    then have "Suc k < n" if "n \<in> set (occupied_positions (POLAR_BIT_CLEAR_LEAST x))" for n
      using that k by (auto simp: set_occupied_positions bit_clear_least) (metis linorder_neqE_nat)
    with 1 False k show ?thesis by (subst occupied_positions.simps) simp
  qed (simp add: occupied_positions.simps)
qed

lemma occupied_positions_0 [simp]: "occupied_positions 0 = []"
  by (simp add: occupied_positions.simps)

lemma occupied_positions_eq_Nil [simp]: "occupied_positions x = [] \<longleftrightarrow> x = 0"
  by (subst occupied_positions.simps) simp

section \<open>The two definitions of the least position\<close>

text \<open>The least set bit of a step's word, shifted by the step's count, does not change.\<close>

definition least_bit_at :: "uint64 \<times> nat \<Rightarrow> nat \<Rightarrow> bool" where
  "least_bit_at = (\<lambda>(v, p) k. p \<le> k \<and> bit v (k - p) \<and> (\<forall>j < k - p. \<not> bit v j))"

lemma least_pos_step_keeps:
  assumes "least_bit_at s k" "k - snd s < 2 * w" "0 < w"
  shows "least_bit_at (least_pos_step w s) k \<and> k - snd (least_pos_step w s) < w"
proof -
  obtain v p where s: "s = (v, p)" by (cases s)
  have mask0: "v AND mask w = 0 \<longleftrightarrow> (\<forall>j<w. \<not> bit v j)"
    using bit_imp_le_length [of v]
    by (auto simp: word_zero_iff_no_bit bit_and_iff bit_mask_iff)
  show ?thesis
  proof (cases "k - p < w")
    case True
    with assms(1) s have "v AND mask w \<noteq> 0" by (auto simp: least_bit_at_def mask0)
    with True assms(1) s show ?thesis by (simp add: least_pos_step_def)
  next
    case False
    with assms(1) s have "v AND mask w = 0" by (auto simp: least_bit_at_def mask0)
    with False assms s show ?thesis
      by (auto simp: least_pos_step_def least_bit_at_def bit_drop_bit_eq)
  qed
qed

lemma least_pos_portable_bit:
  assumes "bit v k" "\<forall>j<k. \<not> bit v j"
  shows "POLAR_BIT_LEAST_POS_portable v = k"
proof -
  have "k < 64" using bit_imp_le_length [OF assms(1)] by simp
  with assms have 1: "least_bit_at (v, 0) k" "k - snd (v, 0 :: nat) < 2 * 32"
    by (simp_all add: least_bit_at_def)
  from least_pos_step_keeps [OF 1] have 2: "least_bit_at (least_pos_step 32 (v, 0)) k"
    "k - snd (least_pos_step 32 (v, 0)) < 2 * 16" by simp_all
  from least_pos_step_keeps [OF 2] have 3: "least_bit_at (least_pos_step 16 (least_pos_step 32 (v, 0))) k"
    "k - snd (least_pos_step 16 (least_pos_step 32 (v, 0))) < 2 * 8" by simp_all
  from least_pos_step_keeps [OF 3] have 4:
    "least_bit_at (least_pos_step 8 (least_pos_step 16 (least_pos_step 32 (v, 0)))) k"
    "k - snd (least_pos_step 8 (least_pos_step 16 (least_pos_step 32 (v, 0)))) < 2 * 4" by simp_all
  from least_pos_step_keeps [OF 4] have 5:
    "least_bit_at (least_pos_step 4 (least_pos_step 8 (least_pos_step 16 (least_pos_step 32 (v, 0))))) k"
    "k - snd (least_pos_step 4 (least_pos_step 8 (least_pos_step 16 (least_pos_step 32 (v, 0))))) < 2 * 2"
    by simp_all
  obtain w p where wp: "least_pos_step 2 (least_pos_step 4 (least_pos_step 8 (least_pos_step 16
      (least_pos_step 32 (v, 0))))) = (w, p)" by (meson surj_pair)
  from least_pos_step_keeps [OF 5] wp have "least_bit_at (w, p) k" "k - p < 2" by simp_all
  then show ?thesis
    unfolding POLAR_BIT_LEAST_POS_portable_def wp
    by (auto simp: least_bit_at_def and_one_eq mod_2_eq_odd bit_0 le_Suc_eq less_2_cases_iff)
qed

text \<open>
  C28. The definition of \<open>POLAR_BIT_LEAST_POS\<close> for compilers without \<open>__builtin_ffsl\<close> returns
  one less than the other definition for every nonzero value: it counts positions from 0,
  while the macros that take a position count from 1.
\<close>

theorem least_pos_portable_off_by_one:
  "v \<noteq> 0 \<Longrightarrow> POLAR_BIT_LEAST_POS v = Suc (POLAR_BIT_LEAST_POS_portable v)"
proof -
  assume "v \<noteq> 0"
  then obtain k where k: "POLAR_BIT_LEAST_POS v = Suc k" by (cases "POLAR_BIT_LEAST_POS v") auto
  then have "POLAR_BIT_LEAST_POS_portable v = k"
    by (intro least_pos_portable_bit) (simp_all add: least_pos_Suc_iff)
  with k show ?thesis by simp
qed

theorem least_pos_portable_off_by_one_witness:
  "POLAR_BIT_LEAST_POS 40 = 4 \<and> POLAR_BIT_LEAST_POS_portable 40 = 3"
proof -
  have p: "POLAR_BIT_LEAST_POS_portable 40 = 3" by code_simp
  show ?thesis using least_pos_portable_off_by_one [of 40] p by simp
qed

end
