(* ===== verification/Ringbuf.thy ===== *)
theory Ringbuf
  imports Bitpos
begin

text \<open>
  \<^verbatim>\<open>src/include/access/polar_ringbuf.h\<close> and \<^verbatim>\<open>src/backend/access/logindex/polar_ringbuf.c\<close>:
  the ring buffer in shared memory that carries WAL packets from one writer to up to 32
  readers. A packet is one flag byte, four length bytes and the payload; it may wrap around
  the end of the data area. Each reader occupies a slot with its read position and the number
  of packets it has read; the ring's own read position \<open>pread\<close> is that of the slowest reader.

  This theory holds the code. Field names carry the prefix \<open>rb_\<close> (the ring), \<open>sl_\<close> (a slot)
  or \<open>ref_\<close> (a reader's handle). Copies that the code splits at the end of the data area
  go through \<open>ring_read\<close> and \<open>ring_write\<close>, which return \<open>OutOfBounds\<close> when they would leave
  the data area.
\<close>

section \<open>Data\<close>

definition POLAR_RINGBUF_MAX_SLOT :: nat where "POLAR_RINGBUF_MAX_SLOT = 32"
definition POLAR_RINGBUF_MAX_REF_NAME :: nat where "POLAR_RINGBUF_MAX_REF_NAME = 63"
definition POLAR_RINGBUF_PKTHDRSIZE :: nat where "POLAR_RINGBUF_PKTHDRSIZE = 5"

text \<open>Without the wrap-around of 32 bits, which a packet that fits into the ring does not reach.\<close>

definition POLAR_RINGBUF_PKT_SIZE :: "nat \<Rightarrow> nat" where
  "POLAR_RINGBUF_PKT_SIZE len = len + POLAR_RINGBUF_PKTHDRSIZE"

definition POLAR_RINGBUF_PKT_FREE :: byte where "POLAR_RINGBUF_PKT_FREE = 0"
definition POLAR_RINGBUF_PKT_READY :: byte where "POLAR_RINGBUF_PKT_READY = 0x01"
definition POLAR_RINGBUF_PKT_STATE_MASK :: byte where "POLAR_RINGBUF_PKT_STATE_MASK = 0x01"
definition POLAR_RINGBUF_PKT_INVALID_TYPE :: byte where "POLAR_RINGBUF_PKT_INVALID_TYPE = 0"
definition POLAR_RINGBUF_PKT_WAL_META :: byte where "POLAR_RINGBUF_PKT_WAL_META = 0x10"
definition POLAR_RINGBUF_PKT_WAL_STORAGE_BEGIN :: byte where
  "POLAR_RINGBUF_PKT_WAL_STORAGE_BEGIN = 0x20"
definition POLAR_RINGBUF_PKT_WAL_STORAGE_END :: byte where
  "POLAR_RINGBUF_PKT_WAL_STORAGE_END = 0x30"
definition POLAR_RINGBUF_PKT_TYPE_MASK :: byte where "POLAR_RINGBUF_PKT_TYPE_MASK = 0xF0"

record ringbuf_slot =
  sl_strong :: bool
  sl_pread :: nat
  sl_visit :: uint64
  sl_ref_num :: uint64
  sl_ref_name :: string

record ringbuf =
  rb_pread :: nat
  rb_pwrite :: nat
  rb_ref_num :: uint64
  rb_occupied :: uint64
  rb_slot :: "ringbuf_slot list"
  rb_min_visit :: uint64
  rb_size :: nat
  rb_data :: "byte list"

text \<open>\<open>ref_rbuf\<close> says whether the pointer to the ring is set.\<close>

record ringbuf_ref =
  ref_rbuf :: bool
  ref_num :: uint64
  ref_slot :: int
  ref_strong :: bool
  ref_name :: string

definition slot_zero :: ringbuf_slot where
  "slot_zero = \<lparr>sl_strong = False, sl_pread = 0, sl_visit = 0, sl_ref_num = 0, sl_ref_name = []\<rparr>"

text \<open>
  \<open>ref_num0\<close>, \<open>min_visit0\<close> and \<open>data0\<close> are what the memory held before: the code does not
  set them.
\<close>

definition polar_ringbuf_init :: "uint64 \<Rightarrow> uint64 \<Rightarrow> byte list \<Rightarrow> ringbuf" where
  "polar_ringbuf_init ref_num0 min_visit0 data0 =
     \<lparr>rb_pread = 0, rb_pwrite = 0, rb_ref_num = ref_num0, rb_occupied = 0,
      rb_slot = replicate POLAR_RINGBUF_MAX_SLOT slot_zero, rb_min_visit = min_visit0,
      rb_size = length data0, rb_data = data0\<rparr>"

section \<open>Copies that wrap around\<close>

definition ring_read :: "ringbuf \<Rightarrow> nat \<Rightarrow> nat \<Rightarrow> byte list result" where
  "ring_read rb idx todo =
     (let split = (if idx + todo > rb_size rb then rb_size rb - idx else 0)
      in if split > 0
         then rbind (memcpy_from (rb_data rb) idx split) (\<lambda>a.
              rbind (memcpy_from (rb_data rb) 0 (todo - split)) (\<lambda>b. Inr (a @ b)))
         else memcpy_from (rb_data rb) idx todo)"

definition ring_write :: "ringbuf \<Rightarrow> nat \<Rightarrow> byte list \<Rightarrow> ringbuf result" where
  "ring_write rb idx buf =
     (let split = (if idx + length buf > rb_size rb then rb_size rb - idx else 0)
      in if split > 0
         then rbind (memcpy_to (rb_data rb) idx (take split buf)) (\<lambda>d.
              rbind (memcpy_to d 0 (drop split buf)) (\<lambda>d. Inr (rb\<lparr>rb_data := d\<rparr>)))
         else rbind (memcpy_to (rb_data rb) idx buf) (\<lambda>d. Inr (rb\<lparr>rb_data := d\<rparr>)))"

section \<open>Packets\<close>

definition polar_ringbuf_pkt_len :: "ringbuf \<Rightarrow> nat \<Rightarrow> nat result" where
  "polar_ringbuf_pkt_len rb idx =
     rbind (ring_read rb ((idx + 1) mod rb_size rb) 4) (\<lambda>bs. Inr (unat (bytes_uint32 bs)))"

definition polar_ringbuf_free_size :: "ringbuf \<Rightarrow> int" where
  "polar_ringbuf_free_size rb =
     (let free_bytes = int (rb_pread rb) - int (rb_pwrite rb);
          free_bytes = (if free_bytes \<le> 0 then free_bytes + int (rb_size rb) else free_bytes)
      in free_bytes - 1)"

definition slot_get :: "ringbuf \<Rightarrow> int \<Rightarrow> ringbuf_slot result" where
  "slot_get rb i = (if i < 0 then Inl OutOfBounds else aget (rb_slot rb) (nat i))"

definition slot_set :: "ringbuf \<Rightarrow> int \<Rightarrow> ringbuf_slot \<Rightarrow> ringbuf result" where
  "slot_set rb i s =
     (if i < 0 then Inl OutOfBounds
      else rbind (aset (rb_slot rb) (nat i) s) (\<lambda>ss. Inr (rb\<lparr>rb_slot := ss\<rparr>)))"

definition polar_ringbuf_avail :: "ringbuf \<Rightarrow> ringbuf_ref \<Rightarrow> int result" where
  "polar_ringbuf_avail rb ref =
     rbind (slot_get rb (ref_slot ref)) (\<lambda>s.
     let avail = int (rb_pwrite rb) - int (sl_pread s)
     in Inr (if avail < 0 then avail + int (rb_size rb) else avail))"

definition polar_ringbuf_pkt_reserve :: "ringbuf \<Rightarrow> nat \<Rightarrow> (nat \<times> ringbuf) result" where
  "polar_ringbuf_pkt_reserve rb len =
     (let idx = rb_pwrite rb
      in rbind (aset (rb_data rb) idx POLAR_RINGBUF_PKT_FREE) (\<lambda>d.
         Inr (idx, rb\<lparr>rb_data := d, rb_pwrite := (idx + len) mod rb_size rb\<rparr>)))"

text \<open>The result is the packet type and the packet length.\<close>

definition polar_ringbuf_next_ready_pkt :: "ringbuf \<Rightarrow> ringbuf_ref \<Rightarrow> (byte \<times> nat) result" where
  "polar_ringbuf_next_ready_pkt rb ref =
     rbind (slot_get rb (ref_slot ref)) (\<lambda>s.
     rbind (aget (rb_data rb) (sl_pread s)) (\<lambda>flag.
     if flag AND POLAR_RINGBUF_PKT_STATE_MASK \<noteq> POLAR_RINGBUF_PKT_READY
     then Inr (POLAR_RINGBUF_PKT_INVALID_TYPE, 0)
     else rbind (polar_ringbuf_pkt_len rb (sl_pread s)) (\<lambda>pktlen.
          Inr (flag AND POLAR_RINGBUF_PKT_TYPE_MASK, pktlen))))"

definition polar_ringbuf_set_pkt_length :: "ringbuf \<Rightarrow> nat \<Rightarrow> uint32 \<Rightarrow> ringbuf result" where
  "polar_ringbuf_set_pkt_length rb idx len =
     ring_write rb ((idx + 1) mod rb_size rb) (uint32_bytes len)"

definition polar_ringbuf_set_pkt_flag :: "ringbuf \<Rightarrow> nat \<Rightarrow> byte \<Rightarrow> ringbuf result" where
  "polar_ringbuf_set_pkt_flag rb idx flag =
     rbind (aset (rb_data rb) idx flag) (\<lambda>d. Inr (rb\<lparr>rb_data := d\<rparr>))"

text \<open>The number of bytes read, or \<open>-1\<close>, and the bytes.\<close>

definition polar_ringbuf_read_next_pkt ::
  "ringbuf \<Rightarrow> ringbuf_ref \<Rightarrow> nat \<Rightarrow> nat \<Rightarrow> (int \<times> byte list) result" where
  "polar_ringbuf_read_next_pkt rb ref offset len =
     rbind (slot_get rb (ref_slot ref)) (\<lambda>s.
     rbind (polar_ringbuf_pkt_len rb (sl_pread s)) (\<lambda>pktlen.
     if offset \<ge> pktlen then Inr (-1, [])
     else
       let len = (if offset + len > pktlen then pktlen - offset else len);
           idx = (sl_pread s + POLAR_RINGBUF_PKTHDRSIZE + offset) mod rb_size rb
       in rbind (ring_read rb idx len) (\<lambda>buf. Inr (int len, buf))))"

definition polar_ringbuf_pkt_write ::
  "ringbuf \<Rightarrow> nat \<Rightarrow> nat \<Rightarrow> byte list \<Rightarrow> (int \<times> ringbuf) result" where
  "polar_ringbuf_pkt_write rb idx offset buf =
     rbind (polar_ringbuf_pkt_len rb idx) (\<lambda>pktlen.
     if offset \<ge> pktlen \<or> offset + length buf > pktlen then Inr (-1, rb)
     else rbind (ring_write rb ((idx + POLAR_RINGBUF_PKTHDRSIZE + offset) mod rb_size rb) buf)
            (\<lambda>rb. Inr (int (length buf), rb)))"

section \<open>References\<close>

definition RINGBUF_REF_MATCH :: "ringbuf \<Rightarrow> ringbuf_ref \<Rightarrow> bool" where
  "RINGBUF_REF_MATCH rb ref \<longleftrightarrow>
     ref_slot ref \<ge> 0 \<and> ref_slot ref < int POLAR_RINGBUF_MAX_SLOT
     \<and> sl_ref_num (rb_slot rb ! nat (ref_slot ref)) = ref_num ref"

text \<open>
  One turn of the scans over the occupied slots: keep the slot with the fewest visits among
  those that \<open>cand\<close> selects.
\<close>

primrec scan_slots ::
  "(ringbuf_slot \<Rightarrow> bool) \<Rightarrow> ringbuf_slot list \<Rightarrow> nat list \<Rightarrow> nat \<times> uint64 \<Rightarrow> (nat \<times> uint64) result" where
  "scan_slots cand ss [] m = Inr m"
| "scan_slots cand ss (p # ps) m =
     rbind (aget ss (p - 1)) (\<lambda>s.
     scan_slots cand ss ps
       (if cand s \<and> snd m > sl_visit s then (p - 1, sl_visit s) else m))"

definition polar_ringbuf_update_pread :: "ringbuf \<Rightarrow> (bool \<times> ringbuf) result" where
  "polar_ringbuf_update_pread rb =
     rbind (scan_slots (\<lambda>_. True) (rb_slot rb) (occupied_positions (rb_occupied rb))
              (POLAR_RINGBUF_MAX_SLOT, UINT64_MAX)) (\<lambda>(min_slot, min_visit).
     if min_slot \<noteq> POLAR_RINGBUF_MAX_SLOT \<and> rb_min_visit rb \<noteq> min_visit
     then rbind (aget (rb_slot rb) min_slot) (\<lambda>s.
          Inr (True, rb\<lparr>rb_min_visit := min_visit, rb_pread := sl_pread s\<rparr>))
     else Inr (False, rb))"

text \<open>The result is the handle when a slot was free.\<close>

definition polar_ringbuf_new_ref ::
  "ringbuf \<Rightarrow> bool \<Rightarrow> string option \<Rightarrow> (ringbuf_ref option \<times> ringbuf) result" where
  "polar_ringbuf_new_ref rb strong name =
     (let i = POLAR_BIT_LEAST_POS (NOT (rb_occupied rb))
      in if i > 0 \<and> i \<le> POLAR_RINGBUF_MAX_SLOT
         then
           let nm = (case name of None \<Rightarrow> [] | Some n \<Rightarrow> take POLAR_RINGBUF_MAX_REF_NAME n);
               num = rb_ref_num rb + 1;
               s = \<lparr>sl_strong = strong, sl_pread = rb_pread rb, sl_visit = rb_min_visit rb,
                    sl_ref_num = num, sl_ref_name = nm\<rparr>
           in rbind (slot_set rb (int (i - 1)) s) (\<lambda>rb.
              Inr (Some \<lparr>ref_rbuf = True, ref_num = num, ref_slot = int (i - 1),
                         ref_strong = strong, ref_name = nm\<rparr>,
                   rb\<lparr>rb_occupied := POLAR_BIT_OCCUPY (rb_occupied rb) i, rb_ref_num := num\<rparr>))
         else Inr (None, rb))"

definition polar_ringbuf_release_ref ::
  "ringbuf \<Rightarrow> ringbuf_ref \<Rightarrow> (ringbuf_ref \<times> ringbuf) result" where
  "polar_ringbuf_release_ref rb ref =
     (if \<not> ref_rbuf ref then Inr (ref, rb)
      else if RINGBUF_REF_MATCH rb ref
      then let rb = rb\<lparr>rb_occupied :=
                 POLAR_BIT_RELEASE_OCCUPIED (rb_occupied rb) (nat (ref_slot ref + 1))\<rparr>
           in rbind (slot_set rb (ref_slot ref) slot_zero) (\<lambda>rb.
              rbind (polar_ringbuf_update_pread rb) (\<lambda>(_, rb).
              Inr (ref\<lparr>ref_rbuf := False\<rparr>, rb)))
      else Inr (ref\<lparr>ref_rbuf := False\<rparr>, rb))"

definition polar_ringbuf_get_ref :: "ringbuf \<Rightarrow> ringbuf_ref \<Rightarrow> (bool \<times> ringbuf) result" where
  "polar_ringbuf_get_ref rb ref =
     (if RINGBUF_REF_MATCH rb ref
      then rbind (slot_get rb (ref_slot ref)) (\<lambda>s.
           rbind (slot_set rb (ref_slot ref) (s\<lparr>sl_strong := True\<rparr>)) (\<lambda>rb. Inr (True, rb)))
      else Inr (False, rb))"

definition polar_ringbuf_valid_ref :: "ringbuf \<Rightarrow> ringbuf_ref option \<Rightarrow> bool" where
  "polar_ringbuf_valid_ref rb ref =
     (case ref of None \<Rightarrow> False
      | Some r \<Rightarrow> if \<not> ref_rbuf r then False else RINGBUF_REF_MATCH rb r)"

definition polar_ringbuf_clear_ref :: "ringbuf \<Rightarrow> ringbuf_ref \<Rightarrow> (bool \<times> ringbuf) result" where
  "polar_ringbuf_clear_ref rb ref =
     (if RINGBUF_REF_MATCH rb ref
      then rbind (slot_get rb (ref_slot ref)) (\<lambda>s.
           rbind (slot_set rb (ref_slot ref) (s\<lparr>sl_strong := False\<rparr>)) (\<lambda>rb. Inr (True, rb)))
      else Inr (False, rb))"

definition polar_ringbuf_update_ref :: "ringbuf \<Rightarrow> ringbuf_ref \<Rightarrow> ringbuf result" where
  "polar_ringbuf_update_ref rb ref =
     rbind (slot_get rb (ref_slot ref)) (\<lambda>s.
     rbind (polar_ringbuf_pkt_len rb (sl_pread s)) (\<lambda>pktlen.
     slot_set rb (ref_slot ref)
       (s\<lparr>sl_pread := (sl_pread s + POLAR_RINGBUF_PKTHDRSIZE + pktlen) mod rb_size rb,
          sl_visit := sl_visit s + 1\<rparr>)))"

definition polar_ringbuf_evict_ref :: "ringbuf \<Rightarrow> (bool \<times> ringbuf) result" where
  "polar_ringbuf_evict_ref rb =
     rbind (scan_slots (\<lambda>s. \<not> sl_strong s) (rb_slot rb) (occupied_positions (rb_occupied rb))
              (POLAR_RINGBUF_MAX_SLOT, UINT64_MAX)) (\<lambda>(min_slot, _).
     if min_slot \<noteq> POLAR_RINGBUF_MAX_SLOT
     then rbind (aget (rb_slot rb) min_slot) (\<lambda>s.
          if rb_pread rb = sl_pread s
          then rbind (slot_set rb (int min_slot) slot_zero) (\<lambda>rb.
               Inr (True, rb\<lparr>rb_occupied :=
                 POLAR_BIT_RELEASE_OCCUPIED (rb_occupied rb) (min_slot + 1)\<rparr>))
          else Inr (False, rb))
     else Inr (False, rb))"

definition polar_ringbuf_update_keep_data :: "ringbuf \<Rightarrow> ringbuf result" where
  "polar_ringbuf_update_keep_data rb =
     rbind (polar_ringbuf_update_pread rb) (\<lambda>(_, rb). Inr rb)"

text \<open>
  The loop of \<open>polar_ringbuf_free_up\<close>. In a turn that can neither free nor evict anything the
  process gives up the lock, runs the callback and sleeps; what the callback and the other
  processes do to the ring meanwhile is \<open>env\<close>, which gets the number of turns left. Between
  the other turns, where the code gives up the lock for a moment, nobody acts. The result is \<open>None\<close> when the turns are used up.
\<close>

fun polar_ringbuf_free_up ::
  "nat \<Rightarrow> (nat \<Rightarrow> ringbuf \<Rightarrow> ringbuf) \<Rightarrow> ringbuf \<Rightarrow> nat \<Rightarrow> ringbuf option result" where
  "polar_ringbuf_free_up 0 env rb len = Inr None"
| "polar_ringbuf_free_up (Suc n) env rb len =
     (if polar_ringbuf_free_size rb > int len then Inr (Some rb)
      else rbind (polar_ringbuf_update_pread rb) (\<lambda>(updated, rb).
        if updated then polar_ringbuf_free_up n env rb len
        else rbind (polar_ringbuf_evict_ref rb) (\<lambda>(evicted, rb).
          if evicted then polar_ringbuf_free_up n env rb len
          else polar_ringbuf_free_up n env (env n rb) len)))"

text \<open>
  \<open>polar_ringbuf_ref_keep_data\<close>: the reader skips packets until at most \<open>keep_size\<close> bytes
  (the product of the ring's size with a ratio) are left for it.
\<close>

partial_function (option) skip_packets ::
  "ringbuf \<Rightarrow> ringbuf_ref \<Rightarrow> int \<Rightarrow> bool \<Rightarrow> ((bool \<times> ringbuf) result) option" where
  "skip_packets rb ref keep_size updated =
     (case polar_ringbuf_avail rb ref of
        Inl e \<Rightarrow> Some (Inl e)
      | Inr avail \<Rightarrow>
          if avail > keep_size
          then (case polar_ringbuf_update_ref rb ref of
                  Inl e \<Rightarrow> Some (Inl e)
                | Inr rb' \<Rightarrow> skip_packets rb' ref keep_size True)
          else Some (Inr (updated, rb)))"

definition polar_ringbuf_ref_keep_data :: "ringbuf \<Rightarrow> ringbuf_ref \<Rightarrow> int \<Rightarrow> ringbuf result option" where
  "polar_ringbuf_ref_keep_data rb ref keep_size =
     map_option (\<lambda>r. rbind r (\<lambda>(updated, rb).
       if updated then polar_ringbuf_update_keep_data rb else Inr rb))
       (skip_packets rb ref keep_size False)"

text \<open>One turn of \<open>polar_ringbuf_reset\<close>, which spins while a reference exists.\<close>

definition polar_ringbuf_reset :: "ringbuf \<Rightarrow> ringbuf option" where
  "polar_ringbuf_reset rb =
     (if rb_occupied rb \<noteq> 0 then None else Some (rb\<lparr>rb_pread := 0, rb_pwrite := 0\<rparr>))"

section \<open>Wrap-around copies are circular copies\<close>

lemma ring_read_view:
  assumes "length (rb_data rb) = rb_size rb" "idx < rb_size rb" "n \<le> rb_size rb"
  shows "ring_read rb idx n = Inr (ring_view (rb_data rb) idx n)"
proof -
  let ?L = "rb_size rb"
  show ?thesis
  proof (cases "idx + n > ?L")
    case True
    have "take (?L - idx) (drop idx (rb_data rb)) @ take (n - (?L - idx)) (rb_data rb)
        = ring_view (rb_data rb) idx n"
    proof (rule nth_equalityI)
      fix i assume "i < length (take (?L - idx) (drop idx (rb_data rb)) @ take (n - (?L - idx)) (rb_data rb))"
      then have "i < n" using assms True by simp
      then show "(take (?L - idx) (drop idx (rb_data rb)) @ take (n - (?L - idx)) (rb_data rb)) ! i
          = ring_view (rb_data rb) idx n ! i"
        using assms True by (auto simp: nth_append mod_if add.commute)
    qed (use assms True in simp)
    with assms True show ?thesis by (simp add: ring_read_def)
  next
    case False
    have "take n (drop idx (rb_data rb)) = ring_view (rb_data rb) idx n"
      using assms False by (intro nth_equalityI) auto
    with assms False show ?thesis by (simp add: ring_read_def)
  qed
qed

lemma ring_write_nth:
  assumes "length (rb_data rb) = rb_size rb" "idx < rb_size rb" "length b \<le> rb_size rb"
  shows "\<exists>d. ring_write rb idx b = Inr (rb\<lparr>rb_data := d\<rparr>) \<and> length d = rb_size rb
    \<and> (\<forall>j < rb_size rb. d ! j = (if (j + rb_size rb - idx) mod rb_size rb < length b
         then b ! ((j + rb_size rb - idx) mod rb_size rb) else rb_data rb ! j))"
proof -
  let ?L = "rb_size rb" and ?d = "rb_data rb"
  have md: "(j + ?L - idx) mod ?L = (if idx \<le> j then j - idx else j + ?L - idx)" if "j < ?L" for j
    using that assms(2) by (auto simp: mod_if)
  show ?thesis
  proof (cases "idx + length b > ?L")
    case True
    let ?s = "?L - idx"
    let ?d1 = "take idx ?d @ take ?s b @ drop ?L ?d"
    let ?d2 = "drop ?s b @ drop (length b - ?s) ?d1"
    have "?d2 ! j = (if (j + ?L - idx) mod ?L < length b then b ! ((j + ?L - idx) mod ?L) else ?d ! j)"
      if "j < ?L" for j
      unfolding md [OF that] using that assms True by (auto simp: nth_append min_def add.commute)
    moreover have "ring_write rb idx b = Inr (rb\<lparr>rb_data := ?d2\<rparr>)"
      using assms True by (simp add: ring_write_def min_def Let_def)
    ultimately show ?thesis using assms True by (intro exI [of _ ?d2]) auto
  next
    case False
    let ?d1 = "take idx ?d @ b @ drop (idx + length b) ?d"
    have "?d1 ! j = (if (j + ?L - idx) mod ?L < length b then b ! ((j + ?L - idx) mod ?L) else ?d ! j)"
      if "j < ?L" for j
      unfolding md [OF that] using that assms False by (auto simp: nth_memcpy)
    moreover have "ring_write rb idx b = Inr (rb\<lparr>rb_data := ?d1\<rparr>)"
      using assms False by (simp add: ring_write_def Let_def)
    ultimately show ?thesis using assms False by (intro exI [of _ ?d1]) auto
  qed
qed

lemma ring_distance:
  fixes L :: nat
  assumes "i < L" "k < L"
  shows "((h + i) mod L + L - (h + k) mod L) mod L = (if k \<le> i then i - k else i + L - k)"
    (is "?l = ?r")
proof -
  have "(h + k) mod L \<le> (h + i) mod L + L"
    using mod_less_divisor [of L "h + k"] assms by linarith
  then have "int ?l = (int ((h + i) mod L) + int L - int ((h + k) mod L)) mod int L"
    by (simp add: zmod_int of_nat_diff)
  also have "\<dots> = (int ((h + i) mod L) - int ((h + k) mod L) + int L) mod int L"
    by (simp add: algebra_simps)
  also have "\<dots> = (int (h + i) mod int L - int (h + k) mod int L) mod int L"
    by (simp only: mod_add_self2 zmod_int)
  also have "\<dots> = (int i - int k) mod int L" by (simp only: mod_diff_eq) simp
  also have "\<dots> = int ?r"
  proof (cases "k \<le> i")
    case False
    then have "(int i - int k) mod int L = (int i - int k + int L) mod int L" by simp
    also have "\<dots> = int i - int k + int L" using False assms by (intro mod_pos_pos_trivial) auto
    finally show ?thesis using False assms by (simp add: of_nat_diff)
  qed (use assms in \<open>simp add: of_nat_diff\<close>)
  finally show ?thesis by simp
qed

text \<open>
  Writing inside the window of \<open>n\<close> bytes that starts at \<open>h\<close> overwrites that part of the window
  and nothing else of it.
\<close>

lemma ring_write_view:
  assumes L: "length (rb_data rb) = rb_size rb"
    and n: "k + length b \<le> n" "n \<le> rb_size rb" and k: "k < rb_size rb"
  shows "\<exists>d. ring_write rb ((h + k) mod rb_size rb) b = Inr (rb\<lparr>rb_data := d\<rparr>)
    \<and> length d = rb_size rb
    \<and> ring_view d h n = take k (ring_view (rb_data rb) h n) @ b
                        @ drop (k + length b) (ring_view (rb_data rb) h n)"
proof -
  let ?L = "rb_size rb" and ?v = "ring_view (rb_data rb) h n"
  have "(h + k) mod ?L < ?L" using k by (intro mod_less_divisor) auto
  from ring_write_nth [OF L this, of b] n obtain d where
    d: "ring_write rb ((h + k) mod ?L) b = Inr (rb\<lparr>rb_data := d\<rparr>)" "length d = ?L"
    and nth: "\<And>j. j < ?L \<Longrightarrow> d ! j = (if (j + ?L - (h + k) mod ?L) mod ?L < length b
         then b ! ((j + ?L - (h + k) mod ?L) mod ?L) else rb_data rb ! j)"
    by auto
  have "ring_view d h n = take k ?v @ b @ drop (k + length b) ?v"
  proof (rule nth_equalityI)
    fix i assume "i < length (ring_view d h n)"
    then have i: "i < n" by simp
    then have iL: "i < ?L" "(h + i) mod ?L < ?L" using n k by auto
    show "ring_view d h n ! i = (take k ?v @ b @ drop (k + length b) ?v) ! i"
      using i n L d(2) iL by (simp add: nth_memcpy nth ring_distance [OF iL(1) k]) linarith
  qed (use n in simp)
  with d show ?thesis by auto
qed

lemma ring_read_slice:
  assumes L: "length (rb_data rb) = rb_size rb"
    and n: "k + m \<le> n" "n \<le> rb_size rb" "k < rb_size rb"
  shows "ring_read rb ((h + k) mod rb_size rb) m = Inr (take m (drop k (ring_view (rb_data rb) h n)))"
proof -
  have "(h + k) mod rb_size rb < rb_size rb" using n by (intro mod_less_divisor) auto
  then have "ring_read rb ((h + k) mod rb_size rb) m = Inr (ring_view (rb_data rb) ((h + k) mod rb_size rb) m)"
    using L n by (intro ring_read_view) auto
  also have "ring_view (rb_data rb) ((h + k) mod rb_size rb) m = take m (drop k (ring_view (rb_data rb) h n))"
    using n L by (simp add: drop_ring_view take_ring_view)
  finally show ?thesis .
qed

end
