(* ===== verification/Ringbuf_Packets.thy ===== *)
theory Ringbuf_Packets
  imports Ringbuf
begin

text \<open>
  The ring buffer refines a log of packets with one cursor per reader. The bytes between
  \<open>pread\<close> and \<open>pwrite\<close>, read circularly, are the concatenation of the packets' encodings; the
  cursor of an occupied slot is the number of packets from \<open>pread\<close> to the slot's read position,
  which is also by how much its visit count exceeds \<open>min_visit\<close>. Every operation of
  \<open>Ringbuf\<close> is shown to act on the log: reserving appends, filling in and marking ready change
  one packet, reading returns the packet at the cursor, the collection of \<open>pread\<close> drops the
  packets that all readers have read.
\<close>

section \<open>Abstraction\<close>

text \<open>A packet that is ready, with its flag byte and payload, or the raw bytes of a reserved one.\<close>

datatype ring_item = Ready byte "byte list" | Reserved "byte list"

fun encode :: "ring_item \<Rightarrow> byte list" where
  "encode (Ready f p) = f # uint32_bytes (of_nat (length p)) @ p"
| "encode (Reserved bs) = bs"

fun item_ok :: "ring_item \<Rightarrow> bool" where
  "item_ok (Ready f p) \<longleftrightarrow>
     f AND POLAR_RINGBUF_PKT_STATE_MASK = POLAR_RINGBUF_PKT_READY \<and> length p < 2 ^ 32"
| "item_ok (Reserved bs) \<longleftrightarrow>
     5 \<le> length bs \<and> hd bs AND POLAR_RINGBUF_PKT_STATE_MASK \<noteq> POLAR_RINGBUF_PKT_READY"

definition content :: "ring_item list \<Rightarrow> byte list" where
  "content its = concat (map encode its)"

definition start :: "ring_item list \<Rightarrow> nat \<Rightarrow> nat" where
  "start its k = length (content (take k its))"

definition ring_wf :: "ringbuf \<Rightarrow> bool" where
  "ring_wf rb \<longleftrightarrow> length (rb_data rb) = rb_size rb \<and> rb_pread rb < rb_size rb
     \<and> rb_pwrite rb < rb_size rb \<and> length (rb_slot rb) = POLAR_RINGBUF_MAX_SLOT
     \<and> (\<forall>i. bit (rb_occupied rb) i \<longrightarrow> i < POLAR_RINGBUF_MAX_SLOT)"

definition used :: "ringbuf \<Rightarrow> nat" where
  "used rb = (rb_pwrite rb + rb_size rb - rb_pread rb) mod rb_size rb"

definition ring_content :: "ringbuf \<Rightarrow> ring_item list \<Rightarrow> bool" where
  "ring_content rb its \<longleftrightarrow> ring_view (rb_data rb) (rb_pread rb) (used rb) = content its
     \<and> list_all item_ok its"

definition item_at :: "ringbuf \<Rightarrow> ring_item list \<Rightarrow> nat \<Rightarrow> nat" where
  "item_at rb its k = (rb_pread rb + start its k) mod rb_size rb"

text \<open>
  \<open>pos\<close> gives the cursors. The last conjunct is that the 64-bit visit counters do not wrap.
\<close>

definition ring_readers :: "ringbuf \<Rightarrow> ring_item list \<Rightarrow> (nat \<Rightarrow> nat) \<Rightarrow> bool" where
  "ring_readers rb its pos \<longleftrightarrow>
     (\<forall>i. bit (rb_occupied rb) i \<longrightarrow> pos i \<le> length its
        \<and> sl_pread (rb_slot rb ! i) = item_at rb its (pos i)
        \<and> sl_visit (rb_slot rb ! i) = rb_min_visit rb + of_nat (pos i))
     \<and> unat (rb_min_visit rb) + length its < 2 ^ 64 - 1"

definition ring_abs :: "ringbuf \<Rightarrow> ring_item list \<Rightarrow> (nat \<Rightarrow> nat) \<Rightarrow> bool" where
  "ring_abs rb its pos \<longleftrightarrow> ring_wf rb \<and> ring_content rb its \<and> ring_readers rb its pos"

lemma ring_absD:
  assumes "ring_abs rb its pos"
  shows "ring_wf rb" "ring_content rb its" "ring_readers rb its pos"
  using assms by (simp_all add: ring_abs_def)

lemma ring_abs_cong:
  "\<lbrakk>ring_abs rb its pos; \<And>i. bit (rb_occupied rb) i \<Longrightarrow> pos i = pos' i\<rbrakk> \<Longrightarrow> ring_abs rb its pos'"
  by (simp add: ring_abs_def ring_readers_def)

section \<open>Positions\<close>

lemma content_simps [simp]:
  "content [] = []" "content (x # xs) = encode x @ content xs"
  "content (xs @ ys) = content xs @ content ys"
  by (simp_all add: content_def)

lemma content_split:
  "j < length its \<Longrightarrow> content its = content (take j its) @ encode (its ! j) @ content (drop (Suc j) its)"
  by (subst id_take_nth_drop [of j its]) simp_all

lemma encode_length_ge [simp]: "item_ok x \<Longrightarrow> 5 \<le> length (encode x)"
  by (cases x) simp_all

lemma start_Suc: "k < length its \<Longrightarrow> start its (Suc k) = start its k + length (encode (its ! k))"
  by (simp add: start_def take_Suc_conv_app_nth)

lemma start_end: "start its k + length (content (drop k its)) = length (content its)"
  unfolding start_def by (metis append_take_drop_id content_simps(3) length_append)

lemma start_le: "start its k \<le> length (content its)"
  using start_end [of its k] by simp

lemma start_0 [simp]: "start its 0 = 0"
  by (simp add: start_def)

lemma start_drop: "m \<le> k \<Longrightarrow> start its k = start its m + start (drop m its) (k - m)"
  unfolding start_def
  by (metis content_simps(3) length_append take_add le_add_diff_inverse)

lemma start_append: "k \<le> length its \<Longrightarrow> start (its @ ys) k = start its k"
  by (simp add: start_def)

lemma start_update:
  assumes "length (encode x) = length (encode (its ! j))"
  shows "start (its[j := x]) k = start its k"
proof (cases "j < length its \<and> j < k")
  case True
  then have "take k (its[j := x]) = (take k its)[j := x]" by (simp add: take_update_swap)
  moreover have "map (length \<circ> encode) ((take k its)[j := x]) = map (length \<circ> encode) (take k its)"
    using True assms by (intro nth_equalityI) (auto simp: nth_list_update)
  ultimately show ?thesis by (simp add: start_def content_def length_concat)
qed (auto simp: start_def not_less list_update_beyond)

lemma used_lt: "ring_wf rb \<Longrightarrow> used rb < rb_size rb"
  unfolding used_def ring_wf_def by (metis mod_less_divisor not_gr_zero not_less_zero)

lemma pread_used: "ring_wf rb \<Longrightarrow> (rb_pread rb + used rb) mod rb_size rb = rb_pwrite rb"
  by (auto simp: used_def ring_wf_def mod_simps)

lemma content_length: "ring_content rb its \<Longrightarrow> length (content its) = used rb"
  unfolding ring_content_def by (metis length_ring_view)

lemma pwrite_item_at:
  "\<lbrakk>ring_wf rb; ring_content rb its\<rbrakk> \<Longrightarrow> rb_pwrite rb = item_at rb its (length its)"
  using start_end [of its "length its"] by (simp add: item_at_def pread_used content_length)

lemma used_of_offset:
  assumes "n < L" "h < L"
  shows "((h + n) mod L + L - h) mod L = (n::nat)"
  using ring_distance [of n L 0 h] assms by simp

text \<open>The free size reported is the size of the ring minus one minus the bytes of the log.\<close>

lemma free_size_eq:
  assumes "ring_wf rb"
  shows "polar_ringbuf_free_size rb = int (rb_size rb) - 1 - int (used rb)"
proof -
  have "used rb = (if rb_pread rb \<le> rb_pwrite rb then rb_pwrite rb - rb_pread rb
      else rb_pwrite rb + rb_size rb - rb_pread rb)"
    using assms by (auto simp: used_def ring_wf_def mod_if)
  then show ?thesis using assms by (auto simp: polar_ringbuf_free_size_def ring_wf_def)
qed

section \<open>Reading and writing inside an item\<close>

lemma item_window:
  assumes "ring_wf rb" "ring_content rb its" "j < length its"
  shows "start its j + length (encode (its ! j)) \<le> used rb"
  using start_Suc [OF assms(3)] start_le [of its "Suc j"] content_length [OF assms(2)] by simp

lemma read_item:
  assumes "ring_wf rb" "ring_content rb its" "j < length its"
    and "off + m \<le> length (encode (its ! j))"
  shows "ring_read rb ((item_at rb its j + off) mod rb_size rb) m
    = Inr (take m (drop off (encode (its ! j))))"
proof -
  let ?A = "content (take j its)" and ?B = "encode (its ! j)" and ?C = "content (drop (Suc j) its)"
  have le: "start its j + off + m \<le> used rb" using item_window [OF assms(1-3)] assms(4) by simp
  have idx: "(item_at rb its j + off) mod rb_size rb = (rb_pread rb + (start its j + off)) mod rb_size rb"
    by (simp add: item_at_def mod_simps add.assoc)
  have "ring_read rb ((rb_pread rb + (start its j + off)) mod rb_size rb) m
      = Inr (take m (drop (start its j + off) (ring_view (rb_data rb) (rb_pread rb) (used rb))))"
    using assms(1) le used_lt [OF assms(1)] by (intro ring_read_slice) (auto simp: ring_wf_def)
  also have "ring_view (rb_data rb) (rb_pread rb) (used rb) = ?A @ ?B @ ?C"
    using assms(2,3) content_split by (simp add: ring_content_def)
  finally show ?thesis using assms(4) unfolding idx by (simp add: start_def)
qed

lemma write_item:
  assumes "ring_wf rb" "ring_content rb its" "j < length its"
    and "off + length b \<le> length (encode (its ! j))"
  shows "\<exists>d. ring_write rb ((item_at rb its j + off) mod rb_size rb) b = Inr (rb\<lparr>rb_data := d\<rparr>)
    \<and> length d = rb_size rb
    \<and> ring_view d (rb_pread rb) (used rb) = content (take j its)
        @ (take off (encode (its ! j)) @ b @ drop (off + length b) (encode (its ! j)))
        @ content (drop (Suc j) its)"
proof -
  let ?A = "content (take j its)" and ?B = "encode (its ! j)" and ?C = "content (drop (Suc j) its)"
  have le: "start its j + off + length b \<le> used rb" using item_window [OF assms(1-3)] assms(4) by simp
  have idx: "(item_at rb its j + off) mod rb_size rb = (rb_pread rb + (start its j + off)) mod rb_size rb"
    by (simp add: item_at_def mod_simps add.assoc)
  have v: "ring_view (rb_data rb) (rb_pread rb) (used rb) = ?A @ ?B @ ?C"
    using assms(2,3) content_split by (simp add: ring_content_def)
  have "\<exists>d. ring_write rb ((rb_pread rb + (start its j + off)) mod rb_size rb) b = Inr (rb\<lparr>rb_data := d\<rparr>)
    \<and> length d = rb_size rb
    \<and> ring_view d (rb_pread rb) (used rb) = take (start its j + off) (?A @ ?B @ ?C) @ b
                        @ drop (start its j + off + length b) (?A @ ?B @ ?C)"
    unfolding v [symmetric]
    using assms(1) le used_lt [OF assms(1)] by (intro ring_write_view) (auto simp: ring_wf_def)
  then show ?thesis unfolding idx using assms(4) by (simp add: start_def)
qed

lemma set_byte_is_write:
  assumes "ring_wf rb" "idx < rb_size rb"
  shows "ring_write rb idx [v] = Inr (rb\<lparr>rb_data := (rb_data rb)[idx := v]\<rparr>)"
  using assms by (simp add: ring_write_def ring_wf_def upd_conv_take_nth_drop)

lemma data_update_inj: "rb\<lparr>rb_data := a\<rparr> = rb\<lparr>rb_data := d\<rparr> \<longleftrightarrow> a = d"
  by (cases rb) simp

lemma item_at_lt: "ring_wf rb \<Longrightarrow> item_at rb its k < rb_size rb"
  unfolding item_at_def ring_wf_def by (metis mod_less_divisor not_gr_zero not_less_zero)

text \<open>Replacing a reserved item's bytes by as many bytes keeps the rest of the log.\<close>

lemma replace_item:
  assumes abs: "ring_abs rb its pos" and j: "j < length its"
    and len: "length d = rb_size rb" "length (encode x) = length (encode (its ! j))" "item_ok x"
    and view: "ring_view d (rb_pread rb) (used rb)
      = content (take j its) @ encode x @ content (drop (Suc j) its)"
  shows "ring_abs (rb\<lparr>rb_data := d\<rparr>) (its[j := x]) pos"
proof -
  have "content (its[j := x]) = content (take j its) @ encode x @ content (drop (Suc j) its)"
    using content_split [of j "its[j := x]"] j by simp
  moreover have "list_all item_ok (its[j := x])"
    using ring_absD(2) [OF abs] len(3)
    by (auto simp: ring_content_def list_all_iff dest: set_update_subset_insert [THEN subsetD])
  ultimately have "ring_content (rb\<lparr>rb_data := d\<rparr>) (its[j := x])"
    using view by (simp add: ring_content_def used_def)
  moreover have "ring_readers (rb\<lparr>rb_data := d\<rparr>) (its[j := x]) pos"
    using ring_absD(3) [OF abs] len(2) by (simp add: ring_readers_def item_at_def start_update)
  ultimately show ?thesis using ring_absD(1) [OF abs] len(1) by (simp add: ring_abs_def ring_wf_def)
qed

section \<open>Writer\<close>

lemma reserve_abs:
  assumes abs: "ring_abs rb its pos" and n: "5 \<le> n" "int n \<le> polar_ringbuf_free_size rb"
    and visits: "unat (rb_min_visit rb) + length its < 2 ^ 64 - 2"
  shows "\<exists>rb' bs. polar_ringbuf_pkt_reserve rb n = Inr (item_at rb its (length its), rb')
    \<and> length bs = n \<and> hd bs = POLAR_RINGBUF_PKT_FREE
    \<and> ring_abs rb' (its @ [Reserved bs]) pos \<and> rb_size rb' = rb_size rb
    \<and> rb_min_visit rb' = rb_min_visit rb \<and> rb_pread rb' = rb_pread rb
    \<and> rb_occupied rb' = rb_occupied rb \<and> rb_slot rb' = rb_slot rb"
proof -
  note wf = ring_absD(1) [OF abs] and ct = ring_absD(2) [OF abs]
  let ?L = "rb_size rb" and ?u = "used rb"
  let ?d = "(rb_data rb)[rb_pwrite rb := POLAR_RINGBUF_PKT_FREE]"
  let ?rb = "rb\<lparr>rb_data := ?d, rb_pwrite := (rb_pwrite rb + n) mod ?L\<rparr>"
  let ?v = "ring_view (rb_data rb) (rb_pread rb) (?u + n)"
  have un: "?u + n < ?L" using n free_size_eq [OF wf] by simp
  have pw: "rb_pwrite rb < ?L" and L: "length (rb_data rb) = ?L" using wf by (auto simp: ring_wf_def)
  have "\<exists>d. ring_write rb ((rb_pread rb + ?u) mod ?L) [POLAR_RINGBUF_PKT_FREE] = Inr (rb\<lparr>rb_data := d\<rparr>)
    \<and> length d = ?L \<and> ring_view d (rb_pread rb) (?u + n)
      = take ?u ?v @ [POLAR_RINGBUF_PKT_FREE] @ drop (?u + length [POLAR_RINGBUF_PKT_FREE]) ?v"
    by (rule ring_write_view) (use L un n in auto)
  then have view: "ring_view ?d (rb_pread rb) (?u + n)
      = content its @ (POLAR_RINGBUF_PKT_FREE # drop (Suc ?u) ?v)"
    using ct un pread_used [OF wf] set_byte_is_write [OF wf pw]
    by (auto simp: take_ring_view ring_content_def data_update_inj)
  have u': "used ?rb = ?u + n"
  proof -
    have "(rb_pwrite rb + n) mod ?L = (rb_pread rb + (?u + n)) mod ?L"
      unfolding pread_used [OF wf, symmetric] by (simp add: mod_simps add.assoc)
    then show ?thesis using wf un by (simp add: used_def used_of_offset ring_wf_def)
  qed
  let ?bs = "POLAR_RINGBUF_PKT_FREE # drop (Suc ?u) ?v"
  have bs: "length ?bs = n" using n by simp
  then have "ring_content ?rb (its @ [Reserved ?bs])"
    using view u' ct n by (simp add: ring_content_def POLAR_RINGBUF_PKT_FREE_def
        POLAR_RINGBUF_PKT_STATE_MASK_def POLAR_RINGBUF_PKT_READY_def)
  moreover have "ring_wf ?rb" using wf by (auto simp: ring_wf_def)
  moreover have "ring_readers ?rb (its @ [Reserved ?bs]) pos"
    using ring_absD(3) [OF abs] visits by (auto simp: ring_readers_def item_at_def start_append)
  moreover have "polar_ringbuf_pkt_reserve rb n = Inr (item_at rb its (length its), ?rb)"
    using pw L pwrite_item_at [OF wf ct] by (simp add: polar_ringbuf_pkt_reserve_def Let_def)
  ultimately show ?thesis using bs by (intro exI [of _ ?rb] exI [of _ ?bs]) (simp add: ring_abs_def)
qed

lemma write_reserved:
  assumes abs: "ring_abs rb its pos" and j: "j < length its" "its ! j = Reserved bs"
    and off: "0 < off" "off + length b \<le> length bs"
  shows "\<exists>d. ring_write rb ((item_at rb its j + off) mod rb_size rb) b = Inr (rb\<lparr>rb_data := d\<rparr>)
    \<and> ring_abs (rb\<lparr>rb_data := d\<rparr>) (its[j := Reserved (take off bs @ b @ drop (off + length b) bs)]) pos"
proof -
  have ok: "item_ok (Reserved bs)"
    using ring_absD(2) [OF abs] j by (auto simp: ring_content_def list_all_length)
  then have ok': "item_ok (Reserved (take off bs @ b @ drop (off + length b) bs))"
    using off by (cases bs) (auto simp: take_Cons')
  from write_item [OF ring_absD(1,2) [OF abs] j(1), of off b] off j obtain d where
    d: "ring_write rb ((item_at rb its j + off) mod rb_size rb) b = Inr (rb\<lparr>rb_data := d\<rparr>)"
      "length d = rb_size rb"
      "ring_view d (rb_pread rb) (used rb) = content (take j its)
        @ (take off bs @ b @ drop (off + length b) bs) @ content (drop (Suc j) its)"
    by auto
  with replace_item [OF abs j(1) d(2), of "Reserved (take off bs @ b @ drop (off + length b) bs)"]
  show ?thesis using off j ok' by auto
qed

lemma set_length_abs:
  assumes abs: "ring_abs rb its pos" and j: "j < length its" "its ! j = Reserved bs"
  shows "\<exists>d. polar_ringbuf_set_pkt_length rb (item_at rb its j) len = Inr (rb\<lparr>rb_data := d\<rparr>)
    \<and> ring_abs (rb\<lparr>rb_data := d\<rparr>) (its[j := Reserved (hd bs # uint32_bytes len @ drop 5 bs)]) pos"
proof -
  have bs: "5 \<le> length bs" using ring_absD(2) [OF abs] j by (auto simp: ring_content_def list_all_length)
  then have "take 1 bs = [hd bs]" by (cases bs) auto
  with write_reserved [OF abs j, of 1 "uint32_bytes len"] bs show ?thesis
    by (simp add: polar_ringbuf_set_pkt_length_def)
qed

lemma pkt_len_read:
  assumes "ring_wf rb" "ring_content rb its" "j < length its"
    and "encode (its ! j) = f # uint32_bytes len @ rest"
  shows "polar_ringbuf_pkt_len rb (item_at rb its j) = Inr (unat len)"
  using read_item [OF assms(1-3), of 1 4] assms(4) bytes_uint32_roundtrip [of len "[]"]
  by (simp add: polar_ringbuf_pkt_len_def)

lemma pkt_write_abs:
  assumes abs: "ring_abs rb its pos" and j: "j < length its"
    and it: "its ! j = Reserved (f # uint32_bytes (of_nat n) @ p)"
    and n: "n < 2 ^ 32" "length p = n" and off: "off < n" "off + length b \<le> n"
  shows "\<exists>d. polar_ringbuf_pkt_write rb (item_at rb its j) off b = Inr (int (length b), rb\<lparr>rb_data := d\<rparr>)
    \<and> ring_abs (rb\<lparr>rb_data := d\<rparr>)
        (its[j := Reserved (f # uint32_bytes (of_nat n) @ take off p @ b @ drop (off + length b) p)]) pos"
proof -
  have len: "polar_ringbuf_pkt_len rb (item_at rb its j) = Inr n"
    using pkt_len_read [OF ring_absD(1,2) [OF abs] j] it n by (simp add: unat_of_nat)
  have idx: "item_at rb its j + POLAR_RINGBUF_PKTHDRSIZE + off = item_at rb its j + (5 + off)"
    by (simp add: POLAR_RINGBUF_PKTHDRSIZE_def)
  from write_reserved [OF abs j it, of "5 + off" b] n off obtain d where
    d: "ring_write rb ((item_at rb its j + (5 + off)) mod rb_size rb) b = Inr (rb\<lparr>rb_data := d\<rparr>)"
      "ring_abs (rb\<lparr>rb_data := d\<rparr>) (its[j := Reserved
        (take (5 + off) (f # uint32_bytes (of_nat n) @ p) @ b
         @ drop (5 + off + length b) (f # uint32_bytes (of_nat n) @ p))]) pos"
    by auto
  moreover have "take (5 + off) (f # uint32_bytes (of_nat n) @ p) = f # uint32_bytes (of_nat n) @ take off p"
    "drop (5 + off + length b) (f # uint32_bytes (of_nat n) @ p) = drop (off + length b) p"
    by (simp_all add: take_Cons' drop_Cons')
  ultimately show ?thesis using len off unfolding polar_ringbuf_pkt_write_def idx
    by (intro exI [of _ d]) simp
qed

lemma set_flag_abs:
  assumes abs: "ring_abs rb its pos" and j: "j < length its"
    and it: "its ! j = Reserved (x # uint32_bytes (of_nat (length p)) @ p)"
    and f: "item_ok (Ready f p)"
  shows "\<exists>d. polar_ringbuf_set_pkt_flag rb (item_at rb its j) f = Inr (rb\<lparr>rb_data := d\<rparr>)
    \<and> ring_abs (rb\<lparr>rb_data := d\<rparr>) (its[j := Ready f p]) pos"
proof -
  note wf = ring_absD(1) [OF abs]
  have lt: "item_at rb its j < rb_size rb" by (rule item_at_lt [OF wf])
  from write_item [OF wf ring_absD(2) [OF abs] j, of 0 "[f]"] it lt obtain d where
    d: "ring_write rb (item_at rb its j) [f] = Inr (rb\<lparr>rb_data := d\<rparr>)" "length d = rb_size rb"
      "ring_view d (rb_pread rb) (used rb) = content (take j its) @ encode (Ready f p)
        @ content (drop (Suc j) its)"
    by auto
  from replace_item [OF abs j d(2) _ f d(3)] it
  have "ring_abs (rb\<lparr>rb_data := d\<rparr>) (its[j := Ready f p]) pos" by simp
  moreover have "polar_ringbuf_set_pkt_flag rb (item_at rb its j) f = Inr (rb\<lparr>rb_data := d\<rparr>)"
    using d(1) set_byte_is_write [OF wf lt, of f] lt wf
    by (simp add: polar_ringbuf_set_pkt_flag_def ring_wf_def)
  ultimately show ?thesis by blast
qed

section \<open>Readers\<close>

definition reader :: "ringbuf \<Rightarrow> ringbuf_ref \<Rightarrow> nat \<Rightarrow> bool" where
  "reader rb ref i \<longleftrightarrow> ref_slot ref = int i \<and> bit (rb_occupied rb) i"

lemma reader_slot:
  assumes "ring_abs rb its pos" "reader rb ref i"
  shows "i < POLAR_RINGBUF_MAX_SLOT" "slot_get rb (ref_slot ref) = Inr (rb_slot rb ! i)"
    "sl_pread (rb_slot rb ! i) = item_at rb its (pos i)" "pos i \<le> length its"
    "sl_visit (rb_slot rb ! i) = rb_min_visit rb + of_nat (pos i)"
proof -
  show i: "i < POLAR_RINGBUF_MAX_SLOT"
    using assms by (simp add: ring_abs_def ring_wf_def reader_def)
  show "slot_get rb (ref_slot ref) = Inr (rb_slot rb ! i)"
    using assms i by (simp add: slot_get_def reader_def ring_abs_def ring_wf_def)
qed (use assms in \<open>auto simp: ring_abs_def ring_readers_def reader_def\<close>)

lemma signed_distance:
  assumes "a < L" "b < L"
  shows "(let d = int a - int b in if d < 0 then d + int L else d) = int ((a + L - b) mod L)"
  using assms by (auto simp: Let_def mod_if)

lemma avail_abs:
  assumes "ring_abs rb its pos" "reader rb ref i"
  shows "polar_ringbuf_avail rb ref = Inr (int (length (content (drop (pos i) its))))"
proof -
  note wf = ring_absD(1) [OF assms(1)] and ct = ring_absD(2) [OF assms(1)]
  have lt: "item_at rb its (pos i) < rb_size rb" by (rule item_at_lt [OF wf])
  have st: "start its (pos i) \<le> used rb"
    using start_le [of its "pos i"] content_length [OF ct] by simp
  have "(rb_pwrite rb + rb_size rb - item_at rb its (pos i)) mod rb_size rb = used rb - start its (pos i)"
    unfolding pread_used [OF wf, symmetric] item_at_def
    using ring_distance [of "used rb" "rb_size rb" "start its (pos i)" "rb_pread rb"] st used_lt [OF wf]
    by simp
  also have "\<dots> = length (content (drop (pos i) its))"
    using start_end [of its "pos i"] content_length [OF ct] by simp
  finally show ?thesis
    using signed_distance [of "rb_pwrite rb" "rb_size rb" "item_at rb its (pos i)"] lt wf
      reader_slot [OF assms]
    by (simp add: polar_ringbuf_avail_def ring_wf_def Let_def split: if_splits)
qed

lemma avail_pos_iff:
  assumes "ring_abs rb its pos" "reader rb ref i"
  shows "(case polar_ringbuf_avail rb ref of Inl _ \<Rightarrow> False | Inr n \<Rightarrow> n > 0) \<longleftrightarrow> pos i < length its"
proof (cases "pos i < length its")
  case True
  then have "drop (pos i) its = its ! pos i # drop (Suc (pos i)) its" by (simp add: Cons_nth_drop_Suc)
  moreover have "item_ok (its ! pos i)"
    using ring_absD(2) [OF assms(1)] True by (simp add: ring_content_def list_all_length)
  ultimately have "0 < length (content (drop (pos i) its))" using encode_length_ge by fastforce
  with True show ?thesis by (simp add: avail_abs [OF assms])
next
  case False
  then show ?thesis by (simp add: avail_abs [OF assms])
qed

lemma flag_byte:
  assumes "ring_wf rb" "ring_content rb its" "k < length its"
  shows "aget (rb_data rb) (item_at rb its k) = Inr (hd (encode (its ! k)))"
proof -
  have lt: "item_at rb its k < rb_size rb" by (rule item_at_lt [OF assms(1)])
  have ok: "5 \<le> length (encode (its ! k))"
    using assms(2,3) by (simp add: ring_content_def list_all_length)
  then have "take 1 (encode (its ! k)) = [hd (encode (its ! k))]" by (cases "encode (its ! k)") auto
  with read_item [OF assms, of 0 1] lt ok
  have "ring_read rb (item_at rb its k) 1 = Inr [hd (encode (its ! k))]" by simp
  moreover have "ring_read rb (item_at rb its k) 1 = Inr [rb_data rb ! item_at rb its k]"
    using lt assms(1) by (subst ring_read_view) (auto simp: ring_wf_def ring_view_def)
  ultimately show ?thesis using lt assms(1) by (simp add: ring_wf_def)
qed

lemma next_ready_abs:
  assumes "ring_abs rb its pos" "reader rb ref i" "pos i < length its"
  shows "polar_ringbuf_next_ready_pkt rb ref = Inr (case its ! pos i of
      Ready f p \<Rightarrow> (f AND POLAR_RINGBUF_PKT_TYPE_MASK, length p)
    | Reserved _ \<Rightarrow> (POLAR_RINGBUF_PKT_INVALID_TYPE, 0))"
proof -
  note wf = ring_absD(1) [OF assms(1)] and ct = ring_absD(2) [OF assms(1)]
  have ok: "item_ok (its ! pos i)" using ct assms(3) by (simp add: ring_content_def list_all_length)
  note facts = polar_ringbuf_next_ready_pkt_def reader_slot [OF assms(1,2)] flag_byte [OF wf ct assms(3)]
  show ?thesis
  proof (cases "its ! pos i")
    case (Ready f p)
    then have "polar_ringbuf_pkt_len rb (item_at rb its (pos i)) = Inr (length p)"
      using pkt_len_read [OF wf ct assms(3)] ok by (simp add: unat_of_nat)
    with Ready ok show ?thesis by (simp add: facts)
  next
    case (Reserved bs)
    with ok show ?thesis by (simp add: facts)
  qed
qed

lemma ready_pkt_len:
  assumes "ring_abs rb its pos" "k < length its" "its ! k = Ready f p"
  shows "polar_ringbuf_pkt_len rb (item_at rb its k) = Inr (length p)"
proof -
  have "item_ok (its ! k)"
    using ring_absD(2) [OF assms(1)] assms(2) by (simp add: ring_content_def list_all_length)
  then show ?thesis
    using pkt_len_read [OF ring_absD(1,2) [OF assms(1)] assms(2)] assms(3) by (simp add: unat_of_nat)
qed

lemma read_next_abs:
  assumes "ring_abs rb its pos" "reader rb ref i" "pos i < length its" "its ! pos i = Ready f p"
  shows "polar_ringbuf_read_next_pkt rb ref off n =
    Inr (if off \<ge> length p then (-1, [])
         else (int (min n (length p - off)), take n (drop off p)))"
proof (cases "off \<ge> length p")
  case True
  then show ?thesis using reader_slot [OF assms(1,2)] ready_pkt_len [OF assms(1,3,4)]
    by (simp add: polar_ringbuf_read_next_pkt_def)
next
  case False
  let ?n = "if off + n > length p then length p - off else n"
  have n: "?n = min n (length p - off)" using False by auto
  have "ring_read rb ((item_at rb its (pos i) + (5 + off)) mod rb_size rb) ?n
      = Inr (take ?n (drop (5 + off) (encode (its ! pos i))))"
    by (rule read_item [OF ring_absD(1,2) [OF assms(1)] assms(3)]) (use assms(4) False in auto)
  also have "drop (5 + off) (encode (its ! pos i)) = drop off p" by (simp add: assms(4) drop_Cons')
  also have "take ?n (drop off p) = take n (drop off p)" unfolding n by (simp add: min_def)
  finally have "ring_read rb ((item_at rb its (pos i) + POLAR_RINGBUF_PKTHDRSIZE + off) mod rb_size rb) ?n
      = Inr (take n (drop off p))"
    by (simp add: POLAR_RINGBUF_PKTHDRSIZE_def add.assoc)
  then show ?thesis using reader_slot [OF assms(1,2)] ready_pkt_len [OF assms(1,3,4)] False n
    by (simp add: polar_ringbuf_read_next_pkt_def Let_def)
qed

lemma update_ref_abs:
  assumes "ring_abs rb its pos" "reader rb ref i" "pos i < length its" "its ! pos i = Ready f p"
  shows "\<exists>rb'. polar_ringbuf_update_ref rb ref = Inr rb' \<and> ring_abs rb' its (pos(i := Suc (pos i)))
    \<and> rb_occupied rb' = rb_occupied rb \<and> rb_min_visit rb' = rb_min_visit rb \<and> rb_pread rb' = rb_pread rb
    \<and> rb_pwrite rb' = rb_pwrite rb \<and> rb_size rb' = rb_size rb
    \<and> (\<forall>k. k \<noteq> i \<longrightarrow> rb_slot rb' ! k = rb_slot rb ! k)"
proof -
  let ?s = "rb_slot rb ! i"
  let ?s' = "?s\<lparr>sl_pread := item_at rb its (Suc (pos i)), sl_visit := sl_visit ?s + 1\<rparr>"
  let ?rb = "rb\<lparr>rb_slot := (rb_slot rb)[i := ?s']\<rparr>"
  note rs = reader_slot [OF assms(1,2)] and len = ready_pkt_len [OF assms(1,3,4)]
  have slots: "length (rb_slot rb) = POLAR_RINGBUF_MAX_SLOT"
    using assms(1) by (simp add: ring_abs_def ring_wf_def)
  have "(item_at rb its (pos i) + POLAR_RINGBUF_PKTHDRSIZE + length p) mod rb_size rb
      = item_at rb its (Suc (pos i))"
    using assms(3,4)
    by (simp add: item_at_def start_Suc POLAR_RINGBUF_PKTHDRSIZE_def mod_simps add.assoc)
  then have "polar_ringbuf_update_ref rb ref = Inr ?rb"
    using rs len slots assms(2) by (simp add: polar_ringbuf_update_ref_def slot_set_def reader_def)
  moreover have "ring_abs ?rb its (pos(i := Suc (pos i)))"
    using assms(1,3) rs(1,5) slots
    by (auto simp: ring_abs_def ring_wf_def ring_content_def ring_readers_def used_def item_at_def
        nth_list_update)
  ultimately show ?thesis by simp
qed

end
