(* ===== verification/Ringbuf_Refs.thy ===== *)
theory Ringbuf_Refs
  imports Ringbuf_Packets
begin

text \<open>
  The management of the readers of the ring buffer: the collection of what every reader has
  read, new, released and evicted references, waiting for free space and skipping to bound the
  data kept for a reader. All of them are shown to keep the abstraction to the packet log.
\<close>

section \<open>Collection\<close>

lemma scan_slots_spec:
  assumes "\<forall>p \<in> set ps. p - 1 < length ss"
  shows "\<exists>r. scan_slots cand ss ps m = Inr r \<and> snd r \<le> snd m
    \<and> (\<forall>p \<in> set ps. cand (ss ! (p - 1)) \<longrightarrow> snd r \<le> sl_visit (ss ! (p - 1)))
    \<and> (r = m \<or> (\<exists>p \<in> set ps. cand (ss ! (p - 1)) \<and> r = (p - 1, sl_visit (ss ! (p - 1)))
              \<and> snd r < snd m))"
  using assms
proof (induction ps arbitrary: m)
  case (Cons p ps)
  let ?s = "ss ! (p - 1)"
  let ?m = "if cand ?s \<and> snd m > sl_visit ?s then (p - 1, sl_visit ?s) else m"
  have "\<forall>p \<in> set ps. p - 1 < length ss" using Cons.prems by simp
  from Cons.IH [OF this, of ?m] obtain r where
    r: "scan_slots cand ss ps ?m = Inr r" "snd r \<le> snd ?m"
      "\<forall>p \<in> set ps. cand (ss ! (p - 1)) \<longrightarrow> snd r \<le> sl_visit (ss ! (p - 1))"
      "r = ?m \<or> (\<exists>p \<in> set ps. cand (ss ! (p - 1)) \<and> r = (p - 1, sl_visit (ss ! (p - 1)))
              \<and> snd r < snd ?m)"
    by blast
  have lt: "p - 1 < length ss" using Cons.prems by simp
  have "scan_slots cand ss (p # ps) m = Inr r"
    using r(1) by (simp only: scan_slots.simps aget_in [OF lt] rbind_simps)
  moreover have "snd r \<le> snd m \<and> (cand ?s \<longrightarrow> snd r \<le> sl_visit ?s)"
    using r(2) by (auto split: if_splits)
  moreover have "r = m \<or> (\<exists>p \<in> set (p # ps). cand (ss ! (p - 1)) \<and> r = (p - 1, sl_visit (ss ! (p - 1)))
      \<and> snd r < snd m)"
    using r(4) by (auto split: if_splits)
  ultimately show ?case using r(3) by auto
qed simp

lemma positions_in_range:
  "ring_wf rb \<Longrightarrow> \<forall>p \<in> set (occupied_positions (rb_occupied rb)). p - 1 < length (rb_slot rb)"
  by (auto simp: set_occupied_positions ring_wf_def)

lemma drop_items:
  assumes abs: "ring_abs rb its pos" and m: "m \<le> length its"
    and ge: "\<And>i. bit (rb_occupied rb) i \<Longrightarrow> m \<le> pos i"
  shows "ring_abs (rb\<lparr>rb_min_visit := rb_min_visit rb + of_nat m, rb_pread := item_at rb its m\<rparr>)
    (drop m its) (\<lambda>i. pos i - m)"
proof -
  note wf = ring_absD(1) [OF abs] and ct = ring_absD(2) [OF abs] and rd = ring_absD(3) [OF abs]
  let ?rb = "rb\<lparr>rb_min_visit := rb_min_visit rb + of_nat m, rb_pread := item_at rb its m\<rparr>"
  let ?L = "rb_size rb"
  have lt: "item_at rb its m < ?L" by (rule item_at_lt [OF wf])
  have st: "start its m \<le> used rb" using start_le [of its m] content_length [OF ct] by simp
  have "rb_pwrite rb = (rb_pread rb + start its m + (used rb - start its m)) mod ?L"
    using pread_used [OF wf] st by simp
  then have "rb_pwrite rb = (item_at rb its m + (used rb - start its m)) mod ?L"
    by (simp only: item_at_def mod_add_left_eq)
  moreover have "used ?rb = (rb_pwrite rb + ?L - item_at rb its m) mod ?L" by (simp add: used_def)
  ultimately have used': "used ?rb = used rb - start its m"
    using used_of_offset [of "used rb - start its m" ?L "item_at rb its m"] lt used_lt [OF wf]
    by simp
  have wf': "ring_wf ?rb" using wf lt by (simp add: ring_wf_def)
  have "ring_view (rb_data rb) (item_at rb its m) (used rb - start its m) = drop (start its m) (content its)"
    using drop_ring_view [OF st, of "rb_data rb" "rb_pread rb"] ct wf
    by (simp add: ring_content_def item_at_def ring_wf_def)
  also have "drop (start its m) (content its) = content (drop m its)"
  proof -
    have "content its = content (take m its) @ content (drop m its)"
      by (metis append_take_drop_id content_simps(3))
    then show ?thesis by (simp add: start_def)
  qed
  finally have ct': "ring_content ?rb (drop m its)"
    using ct by (auto simp: ring_content_def used' list_all_length)
  have visits: "unat (rb_min_visit rb + of_nat m) = unat (rb_min_visit rb) + m"
    using rd m by (simp add: ring_readers_def unat_word_ariths unat_of_nat)
  have "item_at ?rb (drop m its) (pos i - m) = item_at rb its (pos i)" if "m \<le> pos i" for i
    using start_drop [OF that, of its] by (simp add: item_at_def mod_simps add.assoc)
  moreover have "rb_min_visit rb + of_nat m + of_nat (pos i - m) = rb_min_visit rb + of_nat (pos i)"
    if "m \<le> pos i" for i using that by (simp add: of_nat_diff)
  ultimately have "ring_readers ?rb (drop m its) (\<lambda>i. pos i - m)"
    using rd ge m visits by (auto simp: ring_readers_def diff_le_mono)
  with wf' ct' show ?thesis by (simp add: ring_abs_def)
qed

lemma visit_order:
  assumes "ring_readers rb its pos" "bit (rb_occupied rb) i"
  shows "unat (sl_visit (rb_slot rb ! i)) = unat (rb_min_visit rb) + pos i"
    "sl_visit (rb_slot rb ! i) < UINT64_MAX"
proof -
  have le: "pos i \<le> length its" and v: "sl_visit (rb_slot rb ! i) = rb_min_visit rb + of_nat (pos i)"
    and b: "unat (rb_min_visit rb) + length its < 2 ^ 64 - 1"
    using assms by (auto simp: ring_readers_def)
  show eq: "unat (sl_visit (rb_slot rb ! i)) = unat (rb_min_visit rb) + pos i"
    unfolding v using le b by (simp add: unat_word_ariths unat_of_nat)
  have "unat (sl_visit (rb_slot rb ! i)) < 2 ^ 64 - 1" unfolding eq using le b by linarith
  then show "sl_visit (rb_slot rb ! i) < UINT64_MAX"
    by (simp add: word_less_nat_alt unat_UINT64_MAX)
qed

text \<open>
  \<open>update_pread\<close> drops from the log the packets that every reader has read, and reports whether
  there were any.
\<close>

lemma update_pread_abs:
  assumes abs: "ring_abs rb its pos" and i0: "bit (rb_occupied rb) i0"
    and min: "\<And>i. bit (rb_occupied rb) i \<Longrightarrow> pos i0 \<le> pos i"
  shows "polar_ringbuf_update_pread rb = Inr (0 < pos i0,
      rb\<lparr>rb_min_visit := rb_min_visit rb + of_nat (pos i0), rb_pread := item_at rb its (pos i0)\<rparr>)"
proof -
  note wf = ring_absD(1) [OF abs] and rd = ring_absD(3) [OF abs]
  let ?ps = "occupied_positions (rb_occupied rb)"
  from scan_slots_spec [OF positions_in_range [OF wf], of "\<lambda>_. True" "(POLAR_RINGBUF_MAX_SLOT, UINT64_MAX)"]
  obtain r where
    r: "scan_slots (\<lambda>_. True) (rb_slot rb) ?ps (POLAR_RINGBUF_MAX_SLOT, UINT64_MAX) = Inr r"
      "\<forall>p \<in> set ?ps. snd r \<le> sl_visit (rb_slot rb ! (p - 1))"
      "r = (POLAR_RINGBUF_MAX_SLOT, UINT64_MAX)
       \<or> (\<exists>p \<in> set ?ps. r = (p - 1, sl_visit (rb_slot rb ! (p - 1))))"
    by blast
  have le: "snd r \<le> sl_visit (rb_slot rb ! i)" if "bit (rb_occupied rb) i" for i
    using r(2) that by (auto simp: set_occupied_positions)
  have "snd r < UINT64_MAX" using le [OF i0] visit_order(2) [OF rd i0] by (rule le_less_trans)
  with r(3) obtain i where i: "bit (rb_occupied rb) i" "r = (i, sl_visit (rb_slot rb ! i))"
    by (auto simp: set_occupied_positions)
  have "pos i \<le> pos i0"
    using le [OF i0] visit_order(1) [OF rd i0] visit_order(1) [OF rd i(1)] i(2)
    by (simp add: word_le_nat_alt)
  with min i(1) have pi: "pos i = pos i0" by (simp add: le_antisym)
  have s: "sl_visit (rb_slot rb ! i) = rb_min_visit rb + of_nat (pos i0)"
    "sl_pread (rb_slot rb ! i) = item_at rb its (pos i0)"
    using rd i(1) by (auto simp: ring_readers_def pi)
  have ilt: "i < POLAR_RINGBUF_MAX_SLOT" "length (rb_slot rb) = POLAR_RINGBUF_MAX_SLOT"
    using wf i(1) by (auto simp: ring_wf_def)
  have "unat (rb_min_visit rb + of_nat (pos i0)) = unat (rb_min_visit rb) + pos i0"
    using visit_order(1) [OF rd i(1)] unfolding s(1) pi .
  then have z: "rb_min_visit rb \<noteq> rb_min_visit rb + of_nat (pos i0)" if "0 < pos i0"
    using that by (metis add_cancel_right_right neq0_conv)
  show ?thesis
  proof (cases "pos i0 = 0")
    case True
    then have "item_at rb its (pos i0) = rb_pread rb" using wf by (simp add: item_at_def ring_wf_def)
    with True r(1) i(2) s ilt show ?thesis by (simp add: polar_ringbuf_update_pread_def)
  next
    case False
    then have "rb_min_visit rb \<noteq> rb_min_visit rb + of_nat (pos i0)" using z by simp
    with False r(1) i(2) s ilt show ?thesis by (simp add: polar_ringbuf_update_pread_def)
  qed
qed

lemma update_pread_no_refs:
  "rb_occupied rb = 0 \<Longrightarrow> polar_ringbuf_update_pread rb = Inr (False, rb)"
  by (simp add: polar_ringbuf_update_pread_def)

text \<open>The slowest reader.\<close>

lemma slowest_reader:
  assumes "rb_occupied rb \<noteq> 0"
  obtains i0 where "bit (rb_occupied rb) i0" "\<And>i. bit (rb_occupied rb) i \<Longrightarrow> pos i0 \<le> (pos i :: nat)"
proof -
  let ?S = "{i. bit (rb_occupied rb) i}"
  have "?S \<noteq> {}" using assms word_zero_iff_no_bit [of "rb_occupied rb"] by auto
  then obtain i where "i \<in> ?S" by blast
  from ex_has_least_nat [of "\<lambda>i. bit (rb_occupied rb) i" i pos] this that show ?thesis by auto
qed

lemma update_pread_keeps_abs:
  assumes "ring_abs rb its pos"
  shows "\<exists>b rb' m. polar_ringbuf_update_pread rb = Inr (b, rb')
    \<and> (\<forall>i. bit (rb_occupied rb) i \<longrightarrow> m \<le> pos i) \<and> m \<le> length its
    \<and> ring_abs rb' (drop m its) (\<lambda>i. pos i - m) \<and> rb_occupied rb' = rb_occupied rb
    \<and> rb_slot rb' = rb_slot rb \<and> rb_size rb' = rb_size rb
    \<and> unat (rb_min_visit rb') = unat (rb_min_visit rb) + m
    \<and> b = (0 < m) \<and> (rb_occupied rb \<noteq> 0 \<longrightarrow> (\<exists>i. bit (rb_occupied rb) i \<and> m = pos i))"
proof (cases "rb_occupied rb = 0")
  case True
  then show ?thesis using update_pread_no_refs assms by (intro exI [of _ False] exI [of _ rb] exI [of _ 0]) auto
next
  case False
  from slowest_reader [OF this, of pos] obtain i0 where
    i0: "bit (rb_occupied rb) i0" and min: "\<And>i. bit (rb_occupied rb) i \<Longrightarrow> pos i0 \<le> pos i" by blast
  have le: "pos i0 \<le> length its" using ring_absD(3) [OF assms] i0 by (simp add: ring_readers_def)
  moreover have "unat (rb_min_visit rb + of_nat (pos i0)) = unat (rb_min_visit rb) + pos i0"
    using visit_order(1) [OF ring_absD(3) [OF assms] i0] ring_absD(3) [OF assms] i0
    by (simp add: ring_readers_def)
  ultimately show ?thesis
    using update_pread_abs [OF assms i0 min] drop_items [OF assms le min] min i0
    by (intro exI [of _ "0 < pos i0"] exI [of _ "pos i0"]) auto
qed

section \<open>References come and go\<close>

text \<open>Slots are handed out while one of the 32 is free; a new reader starts at the oldest packet.\<close>

lemma new_ref_abs:
  assumes abs: "ring_abs rb its pos" and free: "j < POLAR_RINGBUF_MAX_SLOT" "\<not> bit (rb_occupied rb) j"
  shows "\<exists>ref rb' i. polar_ringbuf_new_ref rb strong name = Inr (Some ref, rb')
    \<and> \<not> bit (rb_occupied rb) i \<and> reader rb' ref i \<and> RINGBUF_REF_MATCH rb' ref
    \<and> ring_abs rb' its (pos(i := 0)) \<and> sl_strong (rb_slot rb' ! i) = strong
    \<and> (\<forall>k. bit (rb_occupied rb') k \<longleftrightarrow> k = i \<or> bit (rb_occupied rb) k)"
proof -
  note wf = ring_absD(1) [OF abs]
  let ?i = "POLAR_BIT_LEAST_POS (NOT (rb_occupied rb))"
  have j64: "j < 64" using free(1) by (simp add: POLAR_RINGBUF_MAX_SLOT_def)
  then have "bit (NOT (rb_occupied rb)) j" using free(2) by (simp add: bit_not_iff)
  then have "NOT (rb_occupied rb) \<noteq> 0" by (metis bit_0_eq bot_apply bot_bool_def)
  then have "?i \<noteq> 0" by (simp only: least_pos_zero_iff) simp
  then obtain i where i: "?i = Suc i" using not0_implies_Suc by blast
  then have ib: "bit (NOT (rb_occupied rb)) i" "\<forall>k<i. \<not> bit (NOT (rb_occupied rb)) k"
    by (simp_all add: least_pos_Suc_iff)
  have "i \<le> j" using ib(2) \<open>bit (NOT (rb_occupied rb)) j\<close> by (meson not_le_imp_less)
  with free(1) have lt: "i < POLAR_RINGBUF_MAX_SLOT" by simp
  have nb: "\<not> bit (rb_occupied rb) i" using ib(1) by (simp add: bit_not_iff)
  let ?nm = "case name of None \<Rightarrow> [] | Some n \<Rightarrow> take POLAR_RINGBUF_MAX_REF_NAME n"
  let ?s = "\<lparr>sl_strong = strong, sl_pread = rb_pread rb, sl_visit = rb_min_visit rb,
    sl_ref_num = rb_ref_num rb + 1, sl_ref_name = ?nm\<rparr>"
  let ?rb = "rb\<lparr>rb_slot := (rb_slot rb)[i := ?s],
    rb_occupied := POLAR_BIT_OCCUPY (rb_occupied rb) (Suc i), rb_ref_num := rb_ref_num rb + 1\<rparr>"
  let ?ref = "\<lparr>ref_rbuf = True, ref_num = rb_ref_num rb + 1, ref_slot = int i,
    ref_strong = strong, ref_name = ?nm\<rparr>"
  have i64: "i < 64" using lt by (simp add: POLAR_RINGBUF_MAX_SLOT_def)
  have slots: "length (rb_slot rb) = POLAR_RINGBUF_MAX_SLOT" using wf by (simp add: ring_wf_def)
  have eq: "polar_ringbuf_new_ref rb strong name = Inr (Some ?ref, ?rb)"
    using i lt slots by (simp add: polar_ringbuf_new_ref_def slot_set_def Let_def)
  have "ring_wf ?rb" using wf lt by (auto simp: ring_wf_def)
  moreover have "ring_content ?rb its"
    using ring_absD(2) [OF abs] by (simp add: ring_content_def used_def)
  moreover have "ring_readers ?rb its (pos(i := 0))"
    using ring_absD(3) [OF abs] wf lt nb slots
    by (auto simp: ring_readers_def item_at_def ring_wf_def nth_list_update)
  ultimately have "ring_abs ?rb its (pos(i := 0))" by (simp add: ring_abs_def)
  moreover have "reader ?rb ?ref i" using i64 by (simp add: reader_def)
  moreover have "RINGBUF_REF_MATCH ?rb ?ref" using lt slots by (simp add: RINGBUF_REF_MATCH_def)
  moreover have "\<forall>k. bit (rb_occupied ?rb) k \<longleftrightarrow> k = i \<or> bit (rb_occupied rb) k" using i64 by auto
  moreover have "sl_strong (rb_slot ?rb ! i) = strong" using lt slots by simp
  ultimately show ?thesis using eq nb by blast
qed

lemma new_ref_full:
  assumes "\<forall>j < POLAR_RINGBUF_MAX_SLOT. bit (rb_occupied rb) j"
  shows "polar_ringbuf_new_ref rb strong name = Inr (None, rb)"
proof -
  have "POLAR_BIT_LEAST_POS (NOT (rb_occupied rb)) = 0
      \<or> POLAR_BIT_LEAST_POS (NOT (rb_occupied rb)) > POLAR_RINGBUF_MAX_SLOT"
  proof (cases "POLAR_BIT_LEAST_POS (NOT (rb_occupied rb))")
    case (Suc i)
    then have "\<not> bit (rb_occupied rb) i" by (simp add: least_pos_Suc_iff bit_not_iff)
    with assms have "\<not> i < POLAR_RINGBUF_MAX_SLOT" by blast
    with Suc show ?thesis by simp
  qed simp
  then have "\<not> (POLAR_BIT_LEAST_POS (NOT (rb_occupied rb)) > 0
      \<and> POLAR_BIT_LEAST_POS (NOT (rb_occupied rb)) \<le> POLAR_RINGBUF_MAX_SLOT)" by linarith
  then show ?thesis by (simp only: polar_ringbuf_new_ref_def Let_def if_False)
qed

lemma forget_reader:
  assumes "ring_abs rb its pos"
  shows "ring_abs (rb\<lparr>rb_slot := (rb_slot rb)[i := slot_zero],
    rb_occupied := POLAR_BIT_RELEASE_OCCUPIED (rb_occupied rb) (Suc i)\<rparr>) its pos"
  using assms
  by (auto simp: ring_abs_def ring_wf_def ring_content_def ring_readers_def used_def item_at_def)

lemma slot_occupied_commute:
  "rb\<lparr>rb_occupied := oc, rb_slot := ss\<rparr> = rb\<lparr>rb_slot := ss, rb_occupied := oc\<rparr>"
  by (cases rb) simp

lemma release_ref_abs:
  assumes "ring_abs rb its pos" "reader rb ref i" "ref_rbuf ref" "RINGBUF_REF_MATCH rb ref"
  shows "\<exists>rb' m. polar_ringbuf_release_ref rb ref = Inr (ref\<lparr>ref_rbuf := False\<rparr>, rb')
    \<and> ring_abs rb' (drop m its) (\<lambda>k. pos k - m)
    \<and> (\<forall>k. bit (rb_occupied rb') k \<longleftrightarrow> bit (rb_occupied rb) k \<and> k \<noteq> i)
    \<and> (\<forall>k. bit (rb_occupied rb') k \<longrightarrow> m \<le> pos k)"
proof -
  let ?rb = "rb\<lparr>rb_slot := (rb_slot rb)[i := slot_zero],
    rb_occupied := POLAR_BIT_RELEASE_OCCUPIED (rb_occupied rb) (Suc i)\<rparr>"
  from update_pread_keeps_abs [OF forget_reader [OF assms(1), of i]] obtain b rb' m where
    u: "polar_ringbuf_update_pread ?rb = Inr (b, rb')"
      "\<forall>k. bit (rb_occupied ?rb) k \<longrightarrow> m \<le> pos k"
      "ring_abs rb' (drop m its) (\<lambda>i. pos i - m)" "rb_occupied rb' = rb_occupied ?rb"
    by blast
  have "i < length (rb_slot rb)"
    using reader_slot(1) [OF assms(1,2)] assms(1) by (simp add: ring_abs_def ring_wf_def)
  moreover have "nat (int i + 1) = Suc i" by simp
  ultimately have "polar_ringbuf_release_ref rb ref = Inr (ref\<lparr>ref_rbuf := False\<rparr>, rb')"
    using assms(2-4) u(1)
    by (simp add: polar_ringbuf_release_ref_def slot_set_def reader_def Let_def slot_occupied_commute)
  with u show ?thesis by (intro exI [of _ rb'] exI [of _ m]) auto
qed


section \<open>Waiting for space\<close>















text \<open>A ring of 16 bytes with no reader.\<close>

definition demo_ring :: ringbuf where
  "demo_ring = polar_ringbuf_init 0 0 (replicate 16 0)"

lemma demo_ring_abs: "ring_abs demo_ring [] (\<lambda>_. 0)"
  by (simp add: demo_ring_def ring_abs_def ring_wf_def ring_content_def ring_readers_def used_def
      polar_ringbuf_init_def POLAR_RINGBUF_MAX_SLOT_def)

text \<open>A ring of 20 bytes with two packets of 8 bytes and a strong reader that has read none.\<close>

definition demo_pkt :: ring_item where
  "demo_pkt = Ready (POLAR_RINGBUF_PKT_WAL_META OR POLAR_RINGBUF_PKT_READY) [1, 2, 3]"

definition full_ring :: ringbuf where
  "full_ring = (polar_ringbuf_init 0 0 (content [demo_pkt, demo_pkt] @ replicate 4 0))
     \<lparr>rb_pwrite := 16, rb_occupied := 1, rb_slot := (replicate POLAR_RINGBUF_MAX_SLOT slot_zero)[0 := slot_zero\<lparr>sl_strong := True\<rparr>]\<rparr>"

lemma full_ring_abs: "ring_abs full_ring [demo_pkt, demo_pkt] (\<lambda>_. 0)" "rb_size full_ring = 20" "bit (rb_occupied full_ring) 0"
  "sl_strong (rb_slot full_ring ! 0)" "polar_ringbuf_free_size full_ring = 3"
proof -
  have len: "length (content [demo_pkt, demo_pkt]) = 16" by (simp add: demo_pkt_def)
  then show "rb_size full_ring = 20" by (simp add: full_ring_def polar_ringbuf_init_def)
  show "bit (rb_occupied full_ring) 0" by (simp add: full_ring_def)
  show "sl_strong (rb_slot full_ring ! 0)" by (simp add: full_ring_def POLAR_RINGBUF_MAX_SLOT_def)
  show "polar_ringbuf_free_size full_ring = 3" using len by (simp add: full_ring_def polar_ringbuf_init_def polar_ringbuf_free_size_def)
  have "ring_view (rb_data full_ring) 0 16 = content [demo_pkt, demo_pkt]"
    using len by (intro nth_equalityI) (simp_all add: full_ring_def polar_ringbuf_init_def nth_append del: content_simps)
  moreover have "item_ok demo_pkt"
    by (simp add: demo_pkt_def POLAR_RINGBUF_PKT_WAL_META_def POLAR_RINGBUF_PKT_READY_def POLAR_RINGBUF_PKT_STATE_MASK_def)
  moreover have "bit (1 :: uint64) i \<longleftrightarrow> i = 0" for i by (simp add: bit_1_iff)
  ultimately show "ring_abs full_ring [demo_pkt, demo_pkt] (\<lambda>_. 0)"
    using len by (auto simp: ring_abs_def ring_wf_def ring_content_def ring_readers_def used_def full_ring_def polar_ringbuf_init_def
        POLAR_RINGBUF_MAX_SLOT_def item_at_def slot_zero_def simp del: content_simps)
qed




text \<open>
  C20. With no reference at all, and too little free space, the wait never ends: \<open>pread\<close> is
  advanced only through a reader's slot, so the packets that nobody will read are never freed.
\<close>

theorem free_up_without_references_never_returns:
  assumes "\<And>n r. rb_occupied r = 0 \<Longrightarrow>
      rb_occupied (env n r) = 0 \<and> polar_ringbuf_free_size (env n r) = polar_ringbuf_free_size r"
    and "rb_occupied rb = 0" "polar_ringbuf_free_size rb \<le> int len"
  shows "polar_ringbuf_free_up n env rb len = Inr None"
  using assms(2,3)
proof (induction n arbitrary: rb)
  case (Suc n)
  have "polar_ringbuf_evict_ref rb = Inr (False, rb)"
    using Suc.prems(1) by (simp add: polar_ringbuf_evict_ref_def)
  with Suc assms(1) show ?case by (simp add: update_pread_no_refs)
qed simp

theorem free_up_without_references_never_returns_witness:
  "polar_ringbuf_free_up 1000 (\<lambda>_ rb. rb) (demo_ring\<lparr>rb_pwrite := 12\<rparr>) 5 = Inr None"
  by (rule free_up_without_references_never_returns)
    (simp_all add: demo_ring_def polar_ringbuf_init_def polar_ringbuf_free_size_def)

text \<open>
  C18. When the readers, of which there is one, have read everything, waiting for space ends after
  at most two turns for every request below the size of the ring minus one.
\<close>

theorem free_up_returns_when_caught_up:
  assumes abs: "ring_abs rb its pos" and i0: "bit (rb_occupied rb) i0"
    and caught_up: "\<And>i. bit (rb_occupied rb) i \<Longrightarrow> pos i = length its"
    and len: "len + 1 < rb_size rb"
  shows "\<exists>rb'. polar_ringbuf_free_up 2 env rb len = Inr (Some rb') \<and> polar_ringbuf_free_size rb' > int len"
proof (cases "polar_ringbuf_free_size rb > int len")
  case False
  let ?rb = "rb\<lparr>rb_min_visit := rb_min_visit rb + of_nat (pos i0), rb_pread := item_at rb its (pos i0)\<rparr>"
  have u: "polar_ringbuf_update_pread rb = Inr (0 < pos i0, ?rb)"
    using caught_up i0 by (intro update_pread_abs [OF abs i0]) simp
  have "ring_abs ?rb (drop (pos i0) its) (\<lambda>i. pos i - pos i0)"
    using caught_up i0 by (intro drop_items [OF abs]) simp_all
  then have abs': "ring_abs ?rb [] (\<lambda>_. 0)"
    using caught_up i0 by (auto simp: ring_abs_def ring_readers_def)
  have full: "used ?rb = 0" using content_length [OF ring_absD(2) [OF abs']] by simp
  have "0 < pos i0"
  proof (rule ccontr)
    assume "\<not> 0 < pos i0"
    then have "used rb = 0" using caught_up [OF i0] content_length [OF ring_absD(2) [OF abs]] by simp
    with False free_size_eq [OF ring_absD(1) [OF abs]] len show False by simp
  qed
  moreover have "polar_ringbuf_free_size ?rb > int len"
    using free_size_eq [OF ring_absD(1) [OF abs']] full len by simp
  ultimately have "polar_ringbuf_free_up 2 env rb len = Inr (Some ?rb)"
      "polar_ringbuf_free_size ?rb > int len"
    using False u by (simp_all add: numeral_2_eq_2)
  then show ?thesis by blast
qed (simp add: numeral_2_eq_2)

theorem free_up_returns_when_caught_up_witness:
  "\<exists>ref rb rb'. polar_ringbuf_new_ref demo_ring True None = Inr (Some ref, rb)
    \<and> polar_ringbuf_free_up 2 (\<lambda>_ rb. rb) rb 10 = Inr (Some rb') \<and> polar_ringbuf_free_size rb' > 10"
proof -
  have "(0::nat) < POLAR_RINGBUF_MAX_SLOT" "\<not> bit (rb_occupied demo_ring) 0"
    by (simp_all add: POLAR_RINGBUF_MAX_SLOT_def demo_ring_def polar_ringbuf_init_def)
  from new_ref_abs [OF demo_ring_abs this, of True None] obtain ref rb i where
    n: "polar_ringbuf_new_ref demo_ring True None = Inr (Some ref, rb)"
      "ring_abs rb [] ((\<lambda>_. 0)(i := 0))" "\<forall>k. bit (rb_occupied rb) k \<longleftrightarrow> k = i \<or> bit (rb_occupied demo_ring) k"
    by blast
  have b: "bit (rb_occupied rb) i" using n(3) by simp
  have "rb_size rb = 16"
    using n(1) by (auto simp: polar_ringbuf_new_ref_def demo_ring_def polar_ringbuf_init_def slot_set_def
        Let_def split: if_splits)
  then have "10 + 1 < rb_size rb" by simp
  with free_up_returns_when_caught_up [OF n(2) b, of 10 "\<lambda>_ rb. rb"] n(1) show ?thesis by auto
qed

section \<open>Bounding the data kept for a reader\<close>

lemma skip_packets_abs:
  assumes "ring_abs rb its pos" "reader rb ref i" "0 \<le> keep"
    and "\<forall>k. pos i \<le> k \<and> k < length its \<longrightarrow> (\<exists>f p. its ! k = Ready f p)"
  shows "\<exists>rb' n. skip_packets rb ref keep upd = Some (Inr (upd \<or> 0 < n, rb'))
    \<and> ring_abs rb' its (pos(i := pos i + n)) \<and> rb_occupied rb' = rb_occupied rb
    \<and> (\<forall>k. k \<noteq> i \<longrightarrow> rb_slot rb' ! k = rb_slot rb ! k)
    \<and> int (length (content (drop (pos i + n) its))) \<le> keep
    \<and> (\<forall>k < n. int (length (content (drop (pos i + k) its))) > keep)"
  using assms
proof (induction "length its - pos i" arbitrary: rb pos upd)
  case 0
  then have "drop (pos i) its = []" by simp
  with 0 avail_abs [OF 0(2,3)] have "skip_packets rb ref keep upd = Some (Inr (upd, rb))"
    by (subst skip_packets.simps) simp
  with 0 show ?case by (intro exI [of _ rb] exI [of _ 0]) simp
next
  case (Suc d)
  note av = avail_abs [OF Suc.prems(1,2)]
  show ?case
  proof (cases "int (length (content (drop (pos i) its))) > keep")
    case False
    with av have "skip_packets rb ref keep upd = Some (Inr (upd, rb))"
      by (subst skip_packets.simps) simp
    with False Suc.prems show ?thesis by (intro exI [of _ rb] exI [of _ 0]) simp
  next
    case True
    have lt: "pos i < length its" using Suc.hyps(2) by simp
    then obtain f p where "its ! pos i = Ready f p" using Suc.prems(4) by blast
    from update_ref_abs [OF Suc.prems(1,2) lt this] obtain rb1 where
      rb1: "polar_ringbuf_update_ref rb ref = Inr rb1" "ring_abs rb1 its (pos(i := Suc (pos i)))"
        "rb_occupied rb1 = rb_occupied rb" "\<forall>k. k \<noteq> i \<longrightarrow> rb_slot rb1 ! k = rb_slot rb ! k" by blast
    have rd: "reader rb1 ref i" using Suc.prems(2) rb1(3) by (simp add: reader_def)
    have d: "d = length its - (pos(i := Suc (pos i))) i" using Suc.hyps(2) by simp
    from Suc.hyps(1) [OF d rb1(2) rd Suc.prems(3), of True] Suc.prems(4) obtain rb' n where
      n: "skip_packets rb1 ref keep True = Some (Inr (True, rb'))"
        "ring_abs rb' its (pos(i := Suc (pos i) + n))" "rb_occupied rb' = rb_occupied rb1" "\<forall>k. k \<noteq> i \<longrightarrow> rb_slot rb' ! k = rb_slot rb1 ! k"
        "int (length (content (drop (Suc (pos i) + n) its))) \<le> keep"
        "\<forall>k < n. int (length (content (drop (Suc (pos i) + k) its))) > keep"
      by auto
    have "skip_packets rb ref keep upd = skip_packets rb1 ref keep True"
      using av True rb1(1) by (subst skip_packets.simps) simp
    moreover have "\<forall>k < Suc n. int (length (content (drop (pos i + k) its))) > keep"
      using True n(6) by (auto simp: less_Suc_eq_0_disj)
    ultimately show ?thesis using n rb1(3,4)
      by (intro exI [of _ rb'] exI [of _ "Suc n"]) simp
  qed
qed

text \<open>
  C19. \<open>polar_ringbuf_ref_keep_data\<close> ends, when all packets that the reader has not read are complete:
  afterwards at most \<open>keep\<close> bytes are left for the reader, and the last packet skipped was needed to
  get there. All references stay, the slots of the other readers are unchanged, and when packets
  were skipped exactly those before the slowest reader are dropped from the ring.
\<close>

theorem ref_keep_data_bounds_backlog:
  assumes "ring_abs rb its pos" "reader rb ref i" "0 \<le> keep"
    and "\<forall>k. pos i \<le> k \<and> k < length its \<longrightarrow> (\<exists>f p. its ! k = Ready f p)"
  shows "\<exists>rb' m n. polar_ringbuf_ref_keep_data rb ref keep = Some (Inr rb')
    \<and> ring_abs rb' (drop m its) (\<lambda>k. (pos(i := pos i + n)) k - m)
    \<and> rb_occupied rb' = rb_occupied rb \<and> (\<forall>k. k \<noteq> i \<longrightarrow> rb_slot rb' ! k = rb_slot rb ! k)
    \<and> (\<forall>k. bit (rb_occupied rb) k \<longrightarrow> m \<le> (pos(i := pos i + n)) k)
    \<and> (if n = 0 then m = 0 else \<exists>k. bit (rb_occupied rb) k \<and> m = (pos(i := pos i + n)) k)
    \<and> int (length (content (drop (pos i + n) its))) \<le> keep
    \<and> (\<forall>k < n. int (length (content (drop (pos i + k) its))) > keep)"
proof -
  from skip_packets_abs [OF assms, of False] obtain rb1 n where
    s: "skip_packets rb ref keep False = Some (Inr (0 < n, rb1))"
      "ring_abs rb1 its (pos(i := pos i + n))" "rb_occupied rb1 = rb_occupied rb"
      "int (length (content (drop (pos i + n) its))) \<le> keep"
      "\<forall>k < n. int (length (content (drop (pos i + k) its))) > keep"
      "\<forall>k. k \<noteq> i \<longrightarrow> rb_slot rb1 ! k = rb_slot rb ! k"
    by auto
  have nz: "rb_occupied rb \<noteq> 0" using assms(2) by (auto simp: reader_def)
  show ?thesis
  proof (cases "0 < n")
    case True
    from update_pread_keeps_abs [OF s(2)] nz s(3) obtain b rb' m where
      u: "polar_ringbuf_update_pread rb1 = Inr (b, rb')"
        "\<forall>k. bit (rb_occupied rb) k \<longrightarrow> m \<le> (pos(i := pos i + n)) k"
        "ring_abs rb' (drop m its) (\<lambda>k. (pos(i := pos i + n)) k - m)" "rb_occupied rb' = rb_occupied rb" "rb_slot rb' = rb_slot rb1"
        "\<exists>k. bit (rb_occupied rb) k \<and> m = (pos(i := pos i + n)) k"
      by auto
    have "polar_ringbuf_ref_keep_data rb ref keep = Some (Inr rb')"
      using s(1) u(1) True by (simp add: polar_ringbuf_ref_keep_data_def polar_ringbuf_update_keep_data_def)
    with u s True show ?thesis by (intro exI [of _ rb'] exI [of _ m] exI [of _ n]) simp
  next
    case False
    then have "polar_ringbuf_ref_keep_data rb ref keep = Some (Inr rb1)"
      using s(1) by (simp add: polar_ringbuf_ref_keep_data_def)
    with False s show ?thesis by (intro exI [of _ rb1] exI [of _ 0] exI [of _ n]) simp
  qed
qed

definition full_ref :: ringbuf_ref where
  "full_ref = \<lparr>ref_rbuf = True, ref_num = 0, ref_slot = 0, ref_strong = True, ref_name = []\<rparr>"

text \<open>The reader of two packets of 8 bytes keeps one when it may keep 10 bytes.\<close>

theorem ref_keep_data_bounds_backlog_witness:
  "\<exists>rb'. polar_ringbuf_ref_keep_data full_ring full_ref 10 = Some (Inr rb')
    \<and> ring_abs rb' [demo_pkt] (\<lambda>_. 0) \<and> rb_occupied rb' = 1"
proof -
  let ?its = "[demo_pkt, demo_pkt]"
  have rd: "reader full_ring full_ref 0" using full_ring_abs(3) by (simp add: reader_def full_ref_def)
  have ready: "\<forall>k. (0 :: nat) \<le> k \<and> k < length ?its \<longrightarrow> (\<exists>f p. ?its ! k = Ready f p)"
    by (auto simp: demo_pkt_def less_Suc_eq)
  have occ: "rb_occupied full_ring = 1" "bit (1 :: uint64) k \<longleftrightarrow> k = 0" for k by (simp_all add: full_ring_def bit_1_iff)
  from ref_keep_data_bounds_backlog [OF full_ring_abs(1) rd, of 10] ready obtain rb' m n where
    r: "polar_ringbuf_ref_keep_data full_ring full_ref 10 = Some (Inr rb')"
      "ring_abs rb' (drop m ?its) (\<lambda>k. ((\<lambda>_. 0)(0 := n)) k - m)" "rb_occupied rb' = 1"
      "if n = 0 then m = 0 else \<exists>k. bit (rb_occupied full_ring) k \<and> m = ((\<lambda>_. 0)(0 := 0 + n)) k"
      "int (length (content (drop n ?its))) \<le> 10" "\<forall>k < n. int (length (content (drop k ?its))) > 10"
    by (auto simp: occ)
  have "n \<noteq> 0"
  proof
    assume "n = 0"
    then show False using r(5) by (simp add: demo_pkt_def)
  qed
  moreover have "\<not> 1 < n"
  proof
    assume "1 < n"
    then show False using r(6) by (auto simp: demo_pkt_def dest!: spec [of _ 1])
  qed
  ultimately have "n = 1" "m = 1" using r(4) by (auto simp: occ split: if_splits)
  then show ?thesis using r(1-3) ring_abs_cong [OF r(2), of "\<lambda>_. 0"] by (auto simp: occ)
qed

end
