(* ===== verification/Queue_Manager.thy ===== *)
theory Queue_Manager
  imports Ringbuf_Refs
begin

text \<open>
  \<^verbatim>\<open>src/backend/access/logindex/polar_queue_manager.c\<close>: the transfer of WAL packets from the
  primary's send queue to a replica's receive queue. The primary's walsender pops packets
  from the ring as frames, four bytes of length followed by the payload; the replica's
  walreceiver parses the frames and pushes the packets into its own ring. A packet's payload
  starts with the end LSN of its record (8 bytes) and the record's length (4 bytes).

  The interface locale \<open>broadcast_log\<close> states what a queue promises to its users: a packet put
  reaches every reader exactly once, in the order of the puts. It is interpreted on the ring
  buffer with these operations.
\<close>

section \<open>The code\<close>

definition POLAR_XLOG_HEAD_SIZE :: nat where "POLAR_XLOG_HEAD_SIZE = 12"

abbreviation WAL_META_READY :: byte where
  "WAL_META_READY \<equiv> POLAR_RINGBUF_PKT_WAL_META OR POLAR_RINGBUF_PKT_READY"

text \<open>\<open>while (free_size < n) free_up(n)\<close>, with the fuel and environment of \<open>polar_ringbuf_free_up\<close>.\<close>

fun wait_for_space ::
  "nat \<Rightarrow> (nat \<Rightarrow> ringbuf \<Rightarrow> ringbuf) \<Rightarrow> ringbuf \<Rightarrow> nat \<Rightarrow> ringbuf option result" where
  "wait_for_space 0 env rb n = Inr None"
| "wait_for_space (Suc k) env rb n =
     (if polar_ringbuf_free_size rb < int n
      then rbind (polar_ringbuf_free_up k env rb n) (\<lambda>r.
             case r of None \<Rightarrow> Inr None | Some rb \<Rightarrow> wait_for_space k env rb n)
      else Inr (Some rb))"

text \<open>
  The part of the loop of \<open>polar_xlog_recv_queue_push\<close> after the wait. \<open>write_len\<close> is a
  \<open>uint32\<close>, so the \<open>-1\<close> of a failed write is compared as \<open>2 ^ 32 - 1\<close>.
\<close>

definition recv_push_packet :: "ringbuf \<Rightarrow> byte list \<Rightarrow> ringbuf result" where
  "recv_push_packet rb payload =
     (let pktlen = of_nat (length payload) :: uint32
      in rbind (polar_ringbuf_pkt_reserve rb (POLAR_RINGBUF_PKT_SIZE (length payload))) (\<lambda>(idx, rb).
         if idx \<ge> rb_size rb then Inl (PANIC ''Failed to reserve space from xlog recv queue'')
         else
           rbind (polar_ringbuf_set_pkt_length rb idx pktlen) (\<lambda>rb.
           rbind (polar_ringbuf_pkt_write rb idx 0 payload) (\<lambda>(write_len, rb).
           if (word_of_int write_len :: uint32) \<noteq> pktlen
           then Inl (PANIC ''Failed to copy xlog recv queue'')
           else polar_ringbuf_set_pkt_flag rb idx WAL_META_READY))))"

text \<open>
  The \<open>do \<dots> while (copy_len < len)\<close> loop over the received buffer; \<open>buf\<close> is what is left of
  it, and reading past its end is \<open>OutOfBounds\<close>.
\<close>

function recv_push_loop ::
  "nat \<Rightarrow> (nat \<Rightarrow> ringbuf \<Rightarrow> ringbuf) \<Rightarrow> ringbuf \<Rightarrow> byte list \<Rightarrow> nat \<Rightarrow> nat
   \<Rightarrow> (nat \<times> ringbuf) option result" where
  "recv_push_loop fuel env rb buf copy_len len =
     rbind (memcpy_from buf 0 4) (\<lambda>hdr.
     let pktlen = unat (bytes_uint32 hdr); rest = drop 4 buf
     in rbind (wait_for_space fuel env rb (POLAR_RINGBUF_PKT_SIZE pktlen)) (\<lambda>w.
        case w of None \<Rightarrow> Inr None
        | Some rb \<Rightarrow>
            rbind (memcpy_from rest 0 pktlen) (\<lambda>payload.
            rbind (recv_push_packet rb payload) (\<lambda>rb.
            if copy_len + 4 + pktlen < len
            then recv_push_loop fuel env rb (drop pktlen rest) (copy_len + 4 + pktlen) len
            else Inr (Some (copy_len + 4 + pktlen, rb))))))"
  by pat_completeness auto
termination
  by (relation "measure (\<lambda>(_, _, _, buf, _, _). length buf)")
    (auto simp: memcpy_from_def split: if_splits)

definition polar_xlog_recv_queue_push ::
  "nat \<Rightarrow> (nat \<Rightarrow> ringbuf \<Rightarrow> ringbuf) \<Rightarrow> ringbuf \<Rightarrow> byte list \<Rightarrow> ringbuf option result" where
  "polar_xlog_recv_queue_push fuel env rb buf =
     rbind (recv_push_loop fuel env rb buf 0 (length buf)) (\<lambda>r.
     case r of None \<Rightarrow> Inr None
     | Some (copy_len, rb) \<Rightarrow>
         if copy_len \<noteq> length buf then Inl (PANIC ''Failed to copy xlog recv queue'')
         else Inr (Some rb))"

definition polar_xlog_recv_queue_push_storage_begin ::
  "nat \<Rightarrow> (nat \<Rightarrow> ringbuf \<Rightarrow> ringbuf) \<Rightarrow> ringbuf \<Rightarrow> ringbuf option result" where
  "polar_xlog_recv_queue_push_storage_begin fuel env rb =
     rbind (wait_for_space fuel env rb POLAR_RINGBUF_PKTHDRSIZE) (\<lambda>w.
     case w of None \<Rightarrow> Inr None
     | Some rb \<Rightarrow>
         rbind (polar_ringbuf_pkt_reserve rb POLAR_RINGBUF_PKTHDRSIZE) (\<lambda>(idx, rb).
         rbind (polar_ringbuf_set_pkt_length rb idx 0) (\<lambda>rb.
         rbind (polar_ringbuf_set_pkt_flag rb idx
                  (POLAR_RINGBUF_PKT_WAL_STORAGE_BEGIN OR POLAR_RINGBUF_PKT_READY)) (\<lambda>rb.
         Inr (Some rb)))))"

text \<open>\<open>avail > 0\<close> and the type and length of a ready packet.\<close>

definition ready_packet :: "ringbuf \<Rightarrow> ringbuf_ref \<Rightarrow> (byte \<times> nat) option result" where
  "ready_packet rb ref =
     rbind (polar_ringbuf_avail rb ref) (\<lambda>avail.
     if avail > 0
     then rbind (polar_ringbuf_next_ready_pkt rb ref) (\<lambda>(type, pktlen).
          Inr (if type \<noteq> POLAR_RINGBUF_PKT_INVALID_TYPE then Some (type, pktlen) else None))
     else Inr None)"

text \<open>
  Reading 8 bytes into \<open>lsn\<close>: a shorter packet overwrites only the first bytes.
\<close>

definition read_lsn :: "ringbuf \<Rightarrow> ringbuf_ref \<Rightarrow> XLogRecPtr \<Rightarrow> XLogRecPtr result" where
  "read_lsn rb ref lsn =
     rbind (polar_ringbuf_read_next_pkt rb ref 0 8) (\<lambda>(_, bs).
     Inr (bytes_uint64 (bs @ drop (length bs) (uint64_bytes lsn))))"

definition polar_xlog_send_queue_next_lsn ::
  "ringbuf \<Rightarrow> ringbuf_ref \<Rightarrow> (XLogRecPtr \<times> nat option) result" where
  "polar_xlog_send_queue_next_lsn rb ref =
     rbind (ready_packet rb ref) (\<lambda>r.
     case r of None \<Rightarrow> Inr (InvalidXLogRecPtr, None)
     | Some (_, pktlen) \<Rightarrow> rbind (read_lsn rb ref InvalidXLogRecPtr) (\<lambda>lsn. Inr (lsn, Some pktlen)))"

record pop_state =
  ps_ring :: ringbuf
  ps_data :: "byte list"
  ps_copy_size :: int
  ps_free_size :: int
  ps_lsn :: XLogRecPtr
  ps_max_lsn :: XLogRecPtr

text \<open>
  One turn of the loop of \<open>polar_xlog_send_queue_raw_data_pop\<close>: \<open>None\<close> when the loop ends. The LSN up to
  which the WAL is flushed is an argument, the same for all turns; the code asks for it in each turn.
\<close>

definition raw_data_pop_step :: "ringbuf_ref \<Rightarrow> XLogRecPtr \<Rightarrow> pop_state \<Rightarrow> pop_state option result" where
  "raw_data_pop_step ref flushable s =
     rbind (ready_packet (ps_ring s) ref) (\<lambda>r.
     case r of None \<Rightarrow> Inr None
     | Some (_, pktlen) \<Rightarrow>
         if int pktlen + 4 > ps_free_size s then Inr None
         else
           rbind (read_lsn (ps_ring s) ref (ps_lsn s)) (\<lambda>lsn.
           if lsn > flushable then Inr None
           else
             rbind (polar_ringbuf_read_next_pkt (ps_ring s) ref 0 pktlen) (\<lambda>(n, payload).
             let len = 4 + n in
             rbind (polar_ringbuf_update_ref (ps_ring s) ref) (\<lambda>rb.
             Inr (Some \<lparr>ps_ring = rb,
               ps_data = ps_data s @ uint32_bytes (of_nat pktlen) @ payload,
               ps_copy_size = ps_copy_size s + len, ps_free_size = ps_free_size s - len,
               ps_lsn = lsn, ps_max_lsn = lsn\<rparr>)))))"

partial_function (option) raw_data_pop_loop ::
  "ringbuf_ref \<Rightarrow> XLogRecPtr \<Rightarrow> pop_state \<Rightarrow> pop_state result option" where
  "raw_data_pop_loop ref flushable s =
     (case raw_data_pop_step ref flushable s of
        Inl e \<Rightarrow> Some (Inl e)
      | Inr None \<Rightarrow> Some (Inr s)
      | Inr (Some s') \<Rightarrow> raw_data_pop_loop ref flushable s')"

definition polar_xlog_send_queue_raw_data_pop ::
  "ringbuf \<Rightarrow> ringbuf_ref \<Rightarrow> nat \<Rightarrow> XLogRecPtr \<Rightarrow> XLogRecPtr \<Rightarrow> pop_state result option" where
  "polar_xlog_send_queue_raw_data_pop rb ref bufsize flushable max_lsn =
     raw_data_pop_loop ref flushable \<lparr>ps_ring = rb, ps_data = [], ps_copy_size = 0,
       ps_free_size = int bufsize, ps_lsn = InvalidXLogRecPtr, ps_max_lsn = max_lsn\<rparr>"

text \<open>\<open>POLAR_COPY_QUEUE_CONTENT\<close>.\<close>

definition copy_queue_content :: "ringbuf \<Rightarrow> ringbuf_ref \<Rightarrow> nat \<Rightarrow> nat \<Rightarrow> byte list result" where
  "copy_queue_content rb ref offset n =
     rbind (polar_ringbuf_read_next_pkt rb ref offset n) (\<lambda>(len, bs).
     if len \<noteq> int n then Inl (PANIC ''Failed to read from xlog recv queue'') else Inr bs)"

text \<open>
  \<open>polar_xlog_queue_pop_record\<close>: the start and end LSN of the record and its bytes, which the
  code then hands to the record decoder.
\<close>

definition polar_xlog_queue_pop_record ::
  "ringbuf \<Rightarrow> ringbuf_ref \<Rightarrow> nat \<Rightarrow> ((XLogRecPtr \<times> XLogRecPtr \<times> byte list) \<times> ringbuf) result" where
  "polar_xlog_queue_pop_record rb ref pktlen =
     rbind (copy_queue_content rb ref 0 8) (\<lambda>e.
     rbind (copy_queue_content rb ref 8 4) (\<lambda>x.
     let end_rec_ptr = bytes_uint64 e; xlog_len = bytes_uint32 x;
         read_rec_ptr = end_rec_ptr - ucast xlog_len;
         data_len = (of_nat pktlen - of_nat POLAR_XLOG_HEAD_SIZE :: uint32)
     in rbind (copy_queue_content rb ref 12 (unat data_len)) (\<lambda>d.
        rbind (polar_ringbuf_update_ref rb ref) (\<lambda>rb.
        Inr ((read_rec_ptr, end_rec_ptr, d), rb)))))"

section \<open>Pushing\<close>

abbreviation meta :: "byte list \<Rightarrow> ring_item" where
  "meta p \<equiv> Ready WAL_META_READY p"

lemma WAL_META_READY_eq: "WAL_META_READY = 0x11"
  by (simp add: POLAR_RINGBUF_PKT_WAL_META_def POLAR_RINGBUF_PKT_READY_def)

lemma meta_ok [simp]: "item_ok (meta p) \<longleftrightarrow> length p < 2 ^ 32"
  unfolding WAL_META_READY_eq item_ok.simps
  by (simp add: POLAR_RINGBUF_PKT_STATE_MASK_def POLAR_RINGBUF_PKT_READY_def)

lemma item_at_append:
  "\<lbrakk>rb_size rb' = rb_size rb; rb_pread rb' = rb_pread rb\<rbrakk>
   \<Longrightarrow> item_at rb' (its @ ys) (length its) = item_at rb its (length its)"
  by (simp add: item_at_def start_append)

text \<open>
  Reserving, setting the length, writing the payload and setting the flag appends a packet.
\<close>

lemma recv_push_packet_abs:
  assumes abs: "ring_abs rb its pos" and p: "0 < length p" "length p < 2 ^ 32"
    and space: "int (POLAR_RINGBUF_PKT_SIZE (length p)) \<le> polar_ringbuf_free_size rb"
    and visits: "unat (rb_min_visit rb) + length its < 2 ^ 64 - 2"
  shows "\<exists>rb'. recv_push_packet rb p = Inr rb' \<and> ring_abs rb' (its @ [meta p]) pos
    \<and> rb_occupied rb' = rb_occupied rb \<and> rb_min_visit rb' = rb_min_visit rb
    \<and> rb_slot rb' = rb_slot rb \<and> rb_size rb' = rb_size rb"
proof -
  let ?n = "POLAR_RINGBUF_PKT_SIZE (length p)" and ?j = "length its" and ?len = "of_nat (length p) :: uint32"
  have n5: "5 \<le> ?n" by (simp add: POLAR_RINGBUF_PKT_SIZE_def POLAR_RINGBUF_PKTHDRSIZE_def)
  from reserve_abs [OF abs n5 space visits] obtain rb1 bs where
    r: "polar_ringbuf_pkt_reserve rb ?n = Inr (item_at rb its ?j, rb1)" "length bs = ?n"
      "ring_abs rb1 (its @ [Reserved bs]) pos" "rb_size rb1 = rb_size rb" "rb_min_visit rb1 = rb_min_visit rb"
      "rb_pread rb1 = rb_pread rb" "rb_occupied rb1 = rb_occupied rb" "rb_slot rb1 = rb_slot rb"
    by blast
  let ?idx = "item_at rb its ?j"
  have idx: "item_at (rb1\<lparr>rb_data := d\<rparr>) (its @ ys) ?j = ?idx" for d ys
    using r(4,6) by (intro item_at_append) simp_all
  have idx1: "item_at rb1 (its @ ys) ?j = ?idx" for ys using r(4,6) by (intro item_at_append)
  from set_length_abs [OF r(3), of ?j bs ?len] obtain d2 where
    s: "polar_ringbuf_set_pkt_length rb1 ?idx ?len = Inr (rb1\<lparr>rb_data := d2\<rparr>)"
      "ring_abs (rb1\<lparr>rb_data := d2\<rparr>) (its @ [Reserved (hd bs # uint32_bytes ?len @ drop 5 bs)]) pos"
    by (auto simp: idx1)
  have "length (drop 5 bs) = length p"
    using r(2) by (simp add: POLAR_RINGBUF_PKT_SIZE_def POLAR_RINGBUF_PKTHDRSIZE_def)
  with pkt_write_abs [OF s(2), of ?j "hd bs" "length p" "drop 5 bs" 0 p] p obtain d3 where
    w: "polar_ringbuf_pkt_write (rb1\<lparr>rb_data := d2\<rparr>) ?idx 0 p = Inr (int (length p), rb1\<lparr>rb_data := d3\<rparr>)"
      "ring_abs (rb1\<lparr>rb_data := d3\<rparr>) (its @ [Reserved (hd bs # uint32_bytes ?len @ p)]) pos"
    by (auto simp: idx)
  from set_flag_abs [OF w(2), of ?j "hd bs" p WAL_META_READY] p obtain d4 where
    f: "polar_ringbuf_set_pkt_flag (rb1\<lparr>rb_data := d3\<rparr>) ?idx WAL_META_READY = Inr (rb1\<lparr>rb_data := d4\<rparr>)"
      "ring_abs (rb1\<lparr>rb_data := d4\<rparr>) (its @ [meta p]) pos"
    by (auto simp: idx simp del: item_ok.simps)
  have "?idx < rb_size rb1" using item_at_lt [OF ring_absD(1) [OF abs]] r(4) by simp
  moreover have "(word_of_int (int (length p)) :: uint32) = ?len" by simp
  ultimately have "recv_push_packet rb p = Inr (rb1\<lparr>rb_data := d4\<rparr>)"
    using r(1) s(1) w(1) f(1) by (simp add: recv_push_packet_def)
  with f(2) r show ?thesis by simp
qed

text \<open>The frames that travel from the primary to the replica.\<close>

definition frame :: "byte list \<Rightarrow> byte list" where
  "frame p = uint32_bytes (of_nat (length p)) @ p"

definition frames :: "byte list list \<Rightarrow> byte list" where
  "frames ps = concat (map frame ps)"

definition payload_ok :: "byte list \<Rightarrow> bool" where
  "payload_ok p \<longleftrightarrow> 8 \<le> length p \<and> length p < 2 ^ 32"

lemma frames_simps [simp]: "frames [] = []" "frames (p # ps) = frame p @ frames ps"
  by (simp_all add: frames_def)

lemma frame_header:
  assumes "length p < 2 ^ 32"
  shows "memcpy_from (frame p @ rest) 0 4 = Inr (uint32_bytes (of_nat (length p)))"
    "unat (bytes_uint32 (uint32_bytes (of_nat (length p)))) = length p"
    "drop 4 (frame p @ rest) = p @ rest"
  using assms bytes_uint32_roundtrip [of "of_nat (length p)" "[]"]
  by (simp_all add: frame_def unat_of_nat)

lemma wait_for_space_enough:
  "\<lbrakk>0 < fuel; int n \<le> polar_ringbuf_free_size rb\<rbrakk> \<Longrightarrow> wait_for_space fuel env rb n = Inr (Some rb)"
  by (cases fuel) simp_all

lemma free_size_content:
  "ring_abs rb its pos \<Longrightarrow> polar_ringbuf_free_size rb = int (rb_size rb) - 1 - int (length (content its))"
  using free_size_eq content_length by (auto simp: ring_abs_def)

lemma recv_push_loop_abs:
  assumes "ring_abs rb its pos" "ps \<noteq> []" "list_all payload_ok ps" "0 < fuel"
    and "length (content (its @ map meta ps)) < rb_size rb"
    and "unat (rb_min_visit rb) + length its + length ps < 2 ^ 64 - 1"
  shows "\<exists>rb'. recv_push_loop fuel env rb (frames ps) c (c + length (frames ps))
      = Inr (Some (c + length (frames ps), rb'))
    \<and> ring_abs rb' (its @ map meta ps) pos \<and> rb_occupied rb' = rb_occupied rb"
  using assms
proof (induction ps arbitrary: rb its c)
  case (Cons p ps)
  let ?n = "POLAR_RINGBUF_PKT_SIZE (length p)"
  have ok: "8 \<le> length p" "length p < 2 ^ 32" using Cons.prems(3) by (simp_all add: payload_ok_def)
  have space: "int ?n \<le> polar_ringbuf_free_size rb"
    using Cons.prems(1,5) free_size_content [of rb its pos]
    by (simp add: POLAR_RINGBUF_PKT_SIZE_def POLAR_RINGBUF_PKTHDRSIZE_def)
  have "0 < length p" using ok(1) by linarith
  with recv_push_packet_abs [OF Cons.prems(1) _ ok(2) space] Cons.prems(6) obtain rb1 where
    rb1: "recv_push_packet rb p = Inr rb1" "ring_abs rb1 (its @ [meta p]) pos"
      "rb_occupied rb1 = rb_occupied rb" "rb_min_visit rb1 = rb_min_visit rb" "rb_size rb1 = rb_size rb"
    by auto
  have len: "length (frame p) = 4 + length p" by (simp add: frame_def)
  have step: "recv_push_loop fuel env rb (frames (p # ps)) c (c + length (frames (p # ps))) =
      (if frames ps \<noteq> []
       then recv_push_loop fuel env rb1 (frames ps) (c + 4 + length p) (c + length (frames (p # ps)))
       else Inr (Some (c + 4 + length p, rb1)))"
    using rb1(1) wait_for_space_enough [OF Cons.prems(4) space] frame_header(1,3) [OF ok(2), of "frames ps"] frame_header(2) [OF ok(2)]
    by (subst recv_push_loop.simps) (simp add: Let_def len)
  show ?case
  proof (cases "ps = []")
    case True
    with step rb1 len show ?thesis by simp
  next
    case False
    then obtain q qs where q: "ps = q # qs" by (cases ps) auto
    have "frames ps \<noteq> []" unfolding q by (simp add: frame_def uint32_bytes_def)
    with step Cons.IH [OF rb1(2) False, of "c + 4 + length p"] Cons.prems rb1(3-5) len
    show ?thesis by (auto simp: add.assoc)
  qed
qed simp

lemma recv_queue_push_abs:
  assumes "ring_abs rb its pos" "ps \<noteq> []" "list_all payload_ok ps" "0 < fuel"
    and "length (content (its @ map meta ps)) < rb_size rb"
    and "unat (rb_min_visit rb) + length its + length ps < 2 ^ 64 - 1"
  shows "\<exists>rb'. polar_xlog_recv_queue_push fuel env rb (frames ps) = Inr (Some rb')
    \<and> ring_abs rb' (its @ map meta ps) pos \<and> rb_occupied rb' = rb_occupied rb"
  using recv_push_loop_abs [OF assms, of env 0] by (auto simp: polar_xlog_recv_queue_push_def)

section \<open>Popping\<close>

text \<open>
  Which packets a pop takes: from the reader's cursor on, those that are ready, fit into the
  free part of the buffer with their length word, and end at or before the flushable LSN.
\<close>

definition payload_lsn :: "byte list \<Rightarrow> XLogRecPtr" where
  "payload_lsn p = bytes_uint64 (take 8 p)"

fun poppable :: "XLogRecPtr \<Rightarrow> int \<Rightarrow> ring_item list \<Rightarrow> byte list list" where
  "poppable flushable free (Ready f p # xs) =
     (if int (length (frame p)) \<le> free \<and> payload_lsn p \<le> flushable
      then p # poppable flushable (free - int (length (frame p))) xs else [])"
| "poppable flushable free _ = []"

text \<open>A send queue holds WAL metadata packets, ready or still being written.\<close>

definition send_item :: "ring_item \<Rightarrow> bool" where
  "send_item x = (case x of Ready f p \<Rightarrow> f = WAL_META_READY \<and> payload_ok p | Reserved _ \<Rightarrow> True)"

lemma meta_type: "WAL_META_READY AND POLAR_RINGBUF_PKT_TYPE_MASK = POLAR_RINGBUF_PKT_WAL_META"
  "POLAR_RINGBUF_PKT_WAL_META \<noteq> POLAR_RINGBUF_PKT_INVALID_TYPE"
  unfolding WAL_META_READY_eq
  by (simp_all add: POLAR_RINGBUF_PKT_TYPE_MASK_def POLAR_RINGBUF_PKT_WAL_META_def
      POLAR_RINGBUF_PKT_INVALID_TYPE_def)

lemma ready_packet_abs:
  assumes "ring_abs rb its pos" "reader rb ref i" "list_all send_item its"
  shows "ready_packet rb ref = Inr (case drop (pos i) its of
      Ready f p # _ \<Rightarrow> Some (POLAR_RINGBUF_PKT_WAL_META, length p) | _ \<Rightarrow> None)"
proof (cases "pos i < length its")
  case True
  then have d: "drop (pos i) its = its ! pos i # drop (Suc (pos i)) its" by (simp add: Cons_nth_drop_Suc)
  have si: "send_item (its ! pos i)" using assms(3) True by (simp add: list_all_length)
  obtain n where n: "polar_ringbuf_avail rb ref = Inr n" "n > 0"
    using avail_pos_iff [OF assms(1,2)] True by (auto split: sum.splits)
  show ?thesis using n next_ready_abs [OF assms(1,2) True] si d meta_type
    by (cases "its ! pos i") (auto simp: ready_packet_def send_item_def)
next
  case False
  then show ?thesis using avail_abs [OF assms(1,2)] by (simp add: ready_packet_def)
qed

lemma read_lsn_abs:
  assumes "ring_abs rb its pos" "reader rb ref i" "pos i < length its" "its ! pos i = Ready f p"
    and "8 \<le> length p"
  shows "read_lsn rb ref lsn = Inr (payload_lsn p)"
proof -
  have "\<not> 0 \<ge> length p" using assms(5) by linarith
  with read_next_abs [OF assms(1-4), of 0 8] assms(5) show ?thesis
    by (simp add: read_lsn_def payload_lsn_def min_def)
qed

lemma raw_data_pop_loop_abs:
  fixes flushable :: XLogRecPtr
  assumes "ring_abs (ps_ring s) its pos" "reader (ps_ring s) ref i" "list_all send_item its"
  defines "qs \<equiv> poppable flushable (ps_free_size s) (drop (pos i) its)"
  shows "\<exists>s'. raw_data_pop_loop ref flushable s = Some (Inr s')
    \<and> ps_data s' = ps_data s @ frames qs
    \<and> ps_copy_size s' = ps_copy_size s + int (length (frames qs))
    \<and> ps_free_size s' = ps_free_size s - int (length (frames qs))
    \<and> ring_abs (ps_ring s') its (pos(i := pos i + length qs))
    \<and> rb_occupied (ps_ring s') = rb_occupied (ps_ring s)
    \<and> ps_max_lsn s' = (if qs = [] then ps_max_lsn s else payload_lsn (last qs))"
  using assms(1,2) unfolding qs_def
proof (induction "length its - pos i" arbitrary: s pos rule: less_induct)
  case less
  note rp = ready_packet_abs [OF less.prems assms(3)]
  show ?case
  proof (cases "poppable flushable (ps_free_size s) (drop (pos i) its)")
    case Nil
    have "raw_data_pop_step ref flushable s = Inr None"
    proof (cases "drop (pos i) its")
      case (Cons x xs)
      then have lt: "pos i < length its" "its ! pos i = x" using drop_ConsD [OF Cons] by simp_all
      have si: "send_item x" using assms(3) lt by (auto simp: list_all_length)
      show ?thesis
      proof (cases x)
        case (Ready f p)
        then have "8 \<le> length p" using si by (simp add: send_item_def payload_ok_def)
        from read_lsn_abs [OF less.prems lt(1) lt(2) [unfolded Ready] this] Ready Cons Nil rp show ?thesis
          by (auto simp: raw_data_pop_step_def frame_def split: if_splits)
      qed (use rp Cons in \<open>simp add: raw_data_pop_step_def\<close>)
    qed (use rp in \<open>simp add: raw_data_pop_step_def\<close>)
    then have "raw_data_pop_loop ref flushable s = Some (Inr s)"
      by (subst raw_data_pop_loop.simps) simp
    with Nil less.prems show ?thesis by simp
  next
    case (Cons p ps)
    then obtain f xs where d: "drop (pos i) its = Ready f p # xs"
      and fit: "int (length (frame p)) \<le> ps_free_size s" "payload_lsn p \<le> flushable"
      and ps: "ps = poppable flushable (ps_free_size s - int (length (frame p))) xs"
      by (cases "(flushable, ps_free_size s, drop (pos i) its)" rule: poppable.cases)
        (auto split: if_splits)
    have lt: "pos i < length its" "its ! pos i = Ready f p" and xs: "xs = drop (Suc (pos i)) its"
      using drop_ConsD [OF d] by simp_all
    have "send_item (Ready f p)" using assms(3) lt by (metis list_all_length)
    then have p8: "8 \<le> length p" by (simp add: send_item_def payload_ok_def)
    from update_ref_abs [OF less.prems lt] obtain rb' where
      u: "polar_ringbuf_update_ref (ps_ring s) ref = Inr rb'" "ring_abs rb' its (pos(i := Suc (pos i)))"
        "rb_occupied rb' = rb_occupied (ps_ring s)" by blast
    let ?s = "\<lparr>ps_ring = rb', ps_data = ps_data s @ frame p,
      ps_copy_size = ps_copy_size s + int (length (frame p)),
      ps_free_size = ps_free_size s - int (length (frame p)),
      ps_lsn = payload_lsn p, ps_max_lsn = payload_lsn p\<rparr>"
    have "raw_data_pop_step ref flushable s = Inr (Some ?s)"
      using rp d fit u(1) read_lsn_abs [OF less.prems lt p8] read_next_abs [OF less.prems lt, of 0 "length p"] p8
      by (auto simp: raw_data_pop_step_def frame_def Let_def algebra_simps)
    then have "raw_data_pop_loop ref flushable s = raw_data_pop_loop ref flushable ?s"
      by (subst raw_data_pop_loop.simps) simp
    moreover have "reader (ps_ring ?s) ref i" using less.prems(2) u(3) by (simp add: reader_def)
    moreover have "length its - (pos(i := Suc (pos i))) i < length its - pos i" using lt(1) by simp
    ultimately show ?thesis using less.hyps [of "pos(i := Suc (pos i))" ?s] u(2,3) Cons ps xs
      by (auto simp: add.assoc)
  qed
qed

lemma poppable_prefix:
  assumes "list_all send_item xs"
  shows "map meta (poppable flushable free xs) = take (length (poppable flushable free xs)) xs"
  using assms
  by (induction flushable free xs rule: poppable.induct) (auto simp: send_item_def)

lemma poppable_ok:
  assumes "list_all send_item xs" "p \<in> set (poppable flushable free xs)"
  shows "payload_ok p" "payload_lsn p \<le> flushable"
  using assms
  by (induction flushable free xs rule: poppable.induct) (auto simp: send_item_def split: if_splits)

lemma poppable_fits:
  "0 \<le> free \<Longrightarrow> int (length (frames (poppable flushable free xs))) \<le> free"
  by (induction flushable free xs rule: poppable.induct) auto

section \<open>From the primary to the replica\<close>

text \<open>
  C6. Popping frames from the primary's send queue and pushing them into a replica's receive
  queue with enough room appends to the latter, in order, exactly the packets \<open>qs\<close> that follow
  the sender's cursor; the cursor moves behind them; the frames fit the send buffer; and no
  packet beyond the flushable LSN leaves the primary.
\<close>

theorem wal_transfer_appends_flushed_prefix:
  assumes "ring_abs rb its pos" "reader rb ref i" "list_all send_item its"
    and "ring_abs rrb rits rpos" "0 < fuel"
    and "qs = poppable flushable (int bufsize) (drop (pos i) its)" "qs \<noteq> []"
    and "length (content (rits @ map meta qs)) < rb_size rrb"
    and "unat (rb_min_visit rrb) + length rits + length qs < 2 ^ 64 - 1"
  shows "\<exists>s rrb'. polar_xlog_send_queue_raw_data_pop rb ref bufsize flushable max_lsn = Some (Inr s)
    \<and> polar_xlog_recv_queue_push fuel env rrb (ps_data s) = Inr (Some rrb')
    \<and> ring_abs rrb' (rits @ take (length qs) (drop (pos i) its)) rpos
    \<and> ring_abs (ps_ring s) its (pos(i := pos i + length qs))
    \<and> length (ps_data s) \<le> bufsize \<and> ps_copy_size s = int (length (ps_data s))
    \<and> ps_max_lsn s = payload_lsn (last qs) \<and> (\<forall>p \<in> set qs. payload_lsn p \<le> flushable)"
proof -
  let ?s0 = "\<lparr>ps_ring = rb, ps_data = [], ps_copy_size = 0, ps_free_size = int bufsize,
    ps_lsn = InvalidXLogRecPtr, ps_max_lsn = max_lsn\<rparr>"
  have send: "list_all send_item (drop (pos i) its)" using assms(3) by (auto simp: list_all_iff dest: in_set_dropD)
  from raw_data_pop_loop_abs [of ?s0 its pos ref i flushable] assms(1-3,6,7) obtain s where
    s: "raw_data_pop_loop ref flushable ?s0 = Some (Inr s)" "ps_data s = frames qs"
      "ps_copy_size s = int (length (frames qs))" "ring_abs (ps_ring s) its (pos(i := pos i + length qs))"
      "ps_max_lsn s = payload_lsn (last qs)"
    by auto
  have ok: "list_all payload_ok qs" "\<forall>p \<in> set qs. payload_lsn p \<le> flushable"
    using poppable_ok [OF send] assms(6) by (auto simp: list_all_iff)
  from recv_queue_push_abs [OF assms(4,7) ok(1) assms(5,8,9), of env] obtain rrb' where
    "polar_xlog_recv_queue_push fuel env rrb (frames qs) = Inr (Some rrb')"
    "ring_abs rrb' (rits @ map meta qs) rpos" by blast
  moreover have "map meta qs = take (length qs) (drop (pos i) its)"
    using poppable_prefix [OF send] assms(6) by simp
  moreover have "length (frames qs) \<le> bufsize"
    using poppable_fits [of "int bufsize" flushable "drop (pos i) its"] assms(6) by simp
  ultimately show ?thesis using s ok(2)
    by (intro exI [of _ s] exI [of _ rrb']) (simp add: polar_xlog_send_queue_raw_data_pop_def)
qed

lemma demo_queue:
  assumes "16 \<le> n" "n < 2 ^ 16"
  shows "\<exists>ref rb i. polar_ringbuf_new_ref (polar_ringbuf_init 0 0 (replicate n 0)) True None = Inr (Some ref, rb)
    \<and> reader rb ref i \<and> ring_abs rb [] (\<lambda>_. 0) \<and> rb_size rb = n \<and> rb_min_visit rb = 0"
proof -
  let ?r = "polar_ringbuf_init 0 0 (replicate n 0)"
  have abs: "ring_abs ?r [] (\<lambda>_. 0)"
    using assms by (simp add: ring_abs_def ring_wf_def ring_content_def ring_readers_def used_def
        polar_ringbuf_init_def POLAR_RINGBUF_MAX_SLOT_def)
  have "(0::nat) < POLAR_RINGBUF_MAX_SLOT" "\<not> bit (rb_occupied ?r) 0"
    by (simp_all add: POLAR_RINGBUF_MAX_SLOT_def polar_ringbuf_init_def)
  from new_ref_abs [OF abs this, of True None] obtain ref rb i where
    n: "polar_ringbuf_new_ref ?r True None = Inr (Some ref, rb)" "reader rb ref i"
      "ring_abs rb [] ((\<lambda>_. 0)(i := 0))" by blast
  moreover have "rb_size rb = n" "rb_min_visit rb = 0"
    using n(1) by (auto simp: polar_ringbuf_new_ref_def polar_ringbuf_init_def slot_set_def
        Let_def split: if_splits)
  moreover have "(\<lambda>_. 0)(i := 0) = (\<lambda>_. 0 :: nat)" by auto
  ultimately show ?thesis by metis
qed

theorem wal_transfer_appends_flushed_prefix_witness:
  "\<exists>rb its pos ref rrb s rrb'. its = [meta (replicate 12 0)] \<and> ring_abs rb its pos
    \<and> polar_xlog_send_queue_raw_data_pop rb ref 100 7 0 = Some (Inr s)
    \<and> polar_xlog_recv_queue_push 1 (\<lambda>_ rb. rb) rrb (ps_data s) = Inr (Some rrb')
    \<and> ring_abs rrb' its (\<lambda>_. 0)"
proof -
  define p :: "byte list" where "p = replicate 12 0"
  have p: "length p = 12" "payload_lsn p = 0"
    by (simp add: p_def) (simp add: p_def payload_lsn_def bytes_uint64_def numeral_eq_Suc)
  from demo_queue [of 64] obtain ref rb0 i where
    q: "reader rb0 ref i" "ring_abs rb0 [] (\<lambda>_. 0)" "rb_size rb0 = 64" "rb_min_visit rb0 = 0" by auto
  have fs: "int (POLAR_RINGBUF_PKT_SIZE (length p)) \<le> polar_ringbuf_free_size rb0"
    using free_size_content [OF q(2)] q(3) p
    by (simp add: POLAR_RINGBUF_PKT_SIZE_def POLAR_RINGBUF_PKTHDRSIZE_def)
  from recv_push_packet_abs [OF q(2) _ _ fs] q(4) p obtain rb where
    rb: "ring_abs rb [meta p] (\<lambda>_. 0)" "rb_occupied rb = rb_occupied rb0" by auto
  have rd: "reader rb ref i" using q(1) rb(2) by (simp add: reader_def)
  have pop: "[p] = poppable 7 (int 100) (drop ((\<lambda>_. 0) i) [meta p])"
    by (simp add: p frame_def)
  have send: "list_all send_item [meta p]" by (simp add: send_item_def payload_ok_def p)
  have room: "length (content ([] @ map meta [p])) < rb_size rb0" using q(3) p by simp
  have visits: "unat (rb_min_visit rb0) + length ([] :: ring_item list) + length [p] < 2 ^ 64 - 1"
    using q(4) by simp
  from wal_transfer_appends_flushed_prefix [OF rb(1) rd send q(2) zero_less_one pop _ room visits,
      of 0 "\<lambda>_ rb. rb"] obtain s rrb' where
    t: "polar_xlog_send_queue_raw_data_pop rb ref 100 7 0 = Some (Inr s)"
    "polar_xlog_recv_queue_push 1 (\<lambda>_ rb. rb) rb0 (ps_data s) = Inr (Some rrb')"
    "ring_abs rrb' ([] @ take (length [p]) (drop 0 [meta p])) (\<lambda>_. 0)"
    by blast
  have "ring_abs rrb' [meta p] (\<lambda>_. 0)" using t(3) by simp
  with rb(1) t(1,2) show ?thesis unfolding p_def by blast
qed

section \<open>The queue as a broadcast log\<close>

text \<open>
  The interface: a log of packets with a cursor per reader, packets put at the end, each
  reader getting the packet at its cursor, and a collection that forgets packets behind all
  cursors.
\<close>

locale broadcast_log =
  fixes log_rep :: "'s \<Rightarrow> 'p list \<Rightarrow> (nat \<Rightarrow> nat option) \<Rightarrow> bool"
    and log_room :: "'s \<Rightarrow> 'p \<Rightarrow> bool"
    and log_put :: "'s \<Rightarrow> 'p \<Rightarrow> 's result"
    and log_get :: "'s \<Rightarrow> nat \<Rightarrow> ('p option \<times> 's) result"
    and log_collect :: "'s \<Rightarrow> 's result"
  assumes put_law: "\<lbrakk>log_rep s q pos; log_room s p\<rbrakk>
      \<Longrightarrow> \<exists>s'. log_put s p = Inr s' \<and> log_rep s' (q @ [p]) pos"
    and get_law: "\<lbrakk>log_rep s q pos; pos r = Some k; k < length q\<rbrakk>
      \<Longrightarrow> \<exists>s'. log_get s r = Inr (Some (q ! k), s') \<and> log_rep s' q (pos(r \<mapsto> Suc k))"
    and get_end: "\<lbrakk>log_rep s q pos; pos r = Some (length q)\<rbrakk> \<Longrightarrow> log_get s r = Inr (None, s)"
    and cursor_law: "\<lbrakk>log_rep s q pos; pos r = Some k\<rbrakk> \<Longrightarrow> k \<le> length q"
    and collect_law: "log_rep s q pos \<Longrightarrow> \<exists>s' m. log_collect s = Inr s'
        \<and> (\<forall>r k. pos r = Some k \<longrightarrow> m \<le> k)
        \<and> log_rep s' (drop m q) (\<lambda>r. map_option (\<lambda>k. k - m) (pos r))"
begin

text \<open>
  A run of the queue: \<open>puts\<close> is what was put so far, \<open>got r\<close> what reader \<open>r\<close> got so far.
\<close>

inductive log_run :: "'s \<Rightarrow> (nat \<Rightarrow> nat option) \<Rightarrow> 's \<Rightarrow> 'p list \<Rightarrow> (nat \<Rightarrow> 'p list) \<Rightarrow> bool"
  for s0 pos0 where
  log_start: "log_run s0 pos0 s0 [] (\<lambda>_. [])"
| log_do_put: "\<lbrakk>log_run s0 pos0 s puts got; log_room s p; log_put s p = Inr s'\<rbrakk>
    \<Longrightarrow> log_run s0 pos0 s' (puts @ [p]) got"
| log_do_get: "\<lbrakk>log_run s0 pos0 s puts got; pos0 r \<noteq> None; log_get s r = Inr (Some p, s')\<rbrakk>
    \<Longrightarrow> log_run s0 pos0 s' puts (got(r := got r @ [p]))"
| log_do_collect: "\<lbrakk>log_run s0 pos0 s puts got; log_collect s = Inr s'\<rbrakk>
    \<Longrightarrow> log_run s0 pos0 s' puts got"

definition log_track ::
  "'p list \<Rightarrow> (nat \<Rightarrow> nat option) \<Rightarrow> 'p list \<Rightarrow> (nat \<Rightarrow> 'p list) \<Rightarrow> 'p list \<Rightarrow> (nat \<Rightarrow> nat option) \<Rightarrow> bool" where
  "log_track q0 pos0 puts got q pos \<longleftrightarrow> (\<forall>r k0. pos0 r = Some k0 \<longrightarrow>
     (\<exists>k. pos r = Some k \<and> got r @ drop k q = drop k0 q0 @ puts))"

lemma log_trackE:
  assumes "log_track q0 pos0 puts got q pos" "pos0 r = Some k0"
  obtains k where "pos r = Some k" "got r @ drop k q = drop k0 q0 @ puts"
  using assms unfolding log_track_def by blast

lemma log_trackI:
  assumes "\<And>r k0. pos0 r = Some k0 \<Longrightarrow> \<exists>k. pos r = Some k \<and> got r @ drop k q = drop k0 q0 @ puts"
  shows "log_track q0 pos0 puts got q pos"
  using assms unfolding log_track_def by blast

lemma log_run_track:
  assumes "log_run s0 pos0 s puts got" "log_rep s0 q0 pos0"
  shows "\<exists>q pos. log_rep s q pos \<and> log_track q0 pos0 puts got q pos"
  using assms
proof (induction rule: log_run.induct)
  case log_start
  then show ?case by (auto simp: log_track_def)
next
  case (log_do_put s puts got p s')
  then obtain q pos where q: "log_rep s q pos" "log_track q0 pos0 puts got q pos" by blast
  from put_law [OF q(1) log_do_put.hyps(2)] log_do_put.hyps(3) have r: "log_rep s' (q @ [p]) pos" by auto
  have "log_track q0 pos0 (puts @ [p]) got (q @ [p]) pos"
  proof (rule log_trackI)
    fix x k0 assume "pos0 x = Some k0"
    with q(2) obtain k where k: "pos x = Some k" "got x @ drop k q = drop k0 q0 @ puts" by (rule log_trackE)
    moreover have "drop k (q @ [p]) = drop k q @ [p]" using cursor_law [OF q(1) k(1)] by simp
    ultimately show "\<exists>k. pos x = Some k \<and> got x @ drop k (q @ [p]) = drop k0 q0 @ puts @ [p]"
      by (metis append_assoc)
  qed
  with r show ?case by blast
next
  case (log_do_get s puts got r p s')
  then obtain q pos where q: "log_rep s q pos" "log_track q0 pos0 puts got q pos" by blast
  obtain k where k: "pos r = Some k" using q(2) log_do_get.hyps(2) by (auto simp: log_track_def)
  have lt: "k < length q"
    using cursor_law [OF q(1) k] get_end [OF q(1), of r] k log_do_get.hyps(3) by (cases "k = length q") auto
  from get_law [OF q(1) k lt] log_do_get.hyps(3) have s': "log_rep s' q (pos(r \<mapsto> Suc k))" "p = q ! k" by auto
  have dk: "drop k q = p # drop (Suc k) q" using lt s'(2) by (simp add: Cons_nth_drop_Suc)
  have "log_track q0 pos0 puts (got(r := got r @ [p])) q (pos(r \<mapsto> Suc k))"
  proof (rule log_trackI)
    fix x k0 assume "pos0 x = Some k0"
    with q(2) obtain k' where "pos x = Some k'" "got x @ drop k' q = drop k0 q0 @ puts" by (rule log_trackE)
    with dk k show "\<exists>k'. (pos(r \<mapsto> Suc k)) x = Some k'
        \<and> (got(r := got r @ [p])) x @ drop k' q = drop k0 q0 @ puts"
      by (cases "x = r") auto
  qed
  with s' show ?case by blast
next
  case (log_do_collect s puts got s')
  then obtain q pos where q: "log_rep s q pos" "log_track q0 pos0 puts got q pos" by blast
  from collect_law [OF q(1)] log_do_collect.hyps(2) obtain m where
    m: "\<forall>r k. pos r = Some k \<longrightarrow> m \<le> k" "log_rep s' (drop m q) (\<lambda>r. map_option (\<lambda>k. k - m) (pos r))"
    by auto
  have "log_track q0 pos0 puts got (drop m q) (\<lambda>r. map_option (\<lambda>k. k - m) (pos r))"
  proof (rule log_trackI)
    fix x k0 assume "pos0 x = Some k0"
    with q(2) obtain k where k: "pos x = Some k" "got x @ drop k q = drop k0 q0 @ puts" by (rule log_trackE)
    moreover have "drop (k - m) (drop m q) = drop k q" using m(1) k(1) by simp
    ultimately show "\<exists>k. map_option (\<lambda>k. k - m) (pos x) = Some k
        \<and> got x @ drop k (drop m q) = drop k0 q0 @ puts" by simp
  qed
  with m(2) show ?case by blast
qed

lemma log_run_fifo:
  assumes "log_run s0 pos0 s puts got" "log_rep s0 q0 pos0" "pos0 r = Some k0"
  shows "\<exists>rest. got r @ rest = drop k0 q0 @ puts \<and> (rest = [] \<longleftrightarrow> log_get s r = Inr (None, s))"
proof -
  from log_run_track [OF assms(1,2)] obtain q pos where
    q: "log_rep s q pos" "log_track q0 pos0 puts got q pos" by blast
  from q(2) assms(3) obtain k where k: "pos r = Some k" "got r @ drop k q = drop k0 q0 @ puts"
    by (rule log_trackE)
  have "drop k q = [] \<longleftrightarrow> log_get s r = Inr (None, s)"
  proof (cases "k = length q")
    case True
    with k(1) get_end [OF q(1), of r] show ?thesis by simp
  next
    case False
    with cursor_law [OF q(1) k(1)] have lt: "k < length q" by simp
    with get_law [OF q(1) k(1) lt] show ?thesis by auto
  qed
  with k(2) show ?thesis by (intro exI [of _ "drop k q"] conjI)
qed

end

section \<open>The ring buffer is a broadcast log\<close>

text \<open>A WAL packet: the start and end LSN of a record and its bytes, and its payload.\<close>

type_synonym wal_packet = "XLogRecPtr \<times> XLogRecPtr \<times> byte list"

definition wal_payload :: "wal_packet \<Rightarrow> byte list" where
  "wal_payload = (\<lambda>(r, e, d). uint64_bytes e @ uint32_bytes (ucast (e - r)) @ d)"

definition wal_packet_ok :: "wal_packet \<Rightarrow> bool" where
  "wal_packet_ok = (\<lambda>(r, e, d). d \<noteq> [] \<and> length d + 12 < 2 ^ 32
     \<and> ucast (ucast (e - r) :: uint32) = e - r)"

definition slot_ref :: "nat \<Rightarrow> ringbuf_ref" where
  "slot_ref i = \<lparr>ref_rbuf = True, ref_num = 0, ref_slot = int i, ref_strong = True, ref_name = []\<rparr>"

definition queue_rep :: "ringbuf \<Rightarrow> wal_packet list \<Rightarrow> (nat \<Rightarrow> nat option) \<Rightarrow> bool" where
  "queue_rep rb q pos \<longleftrightarrow> list_all wal_packet_ok q \<and> dom pos = {i. bit (rb_occupied rb) i}
     \<and> ring_abs rb (map (\<lambda>x. meta (wal_payload x)) q) (\<lambda>i. the (pos i))"

definition queue_room :: "ringbuf \<Rightarrow> wal_packet \<Rightarrow> bool" where
  "queue_room rb x \<longleftrightarrow> wal_packet_ok x
     \<and> int (POLAR_RINGBUF_PKT_SIZE (length (wal_payload x))) \<le> polar_ringbuf_free_size rb
     \<and> unat (rb_min_visit rb) + rb_size rb < 2 ^ 64 - 2"

definition queue_put :: "ringbuf \<Rightarrow> wal_packet \<Rightarrow> ringbuf result" where
  "queue_put rb x = recv_push_packet rb (wal_payload x)"

text \<open>The catch-up branch of \<open>polar_xlog_queue_ref_pop\<close>: pop the next ready packet.\<close>

definition queue_get :: "ringbuf \<Rightarrow> nat \<Rightarrow> (wal_packet option \<times> ringbuf) result" where
  "queue_get rb i =
     rbind (ready_packet rb (slot_ref i)) (\<lambda>r.
     case r of None \<Rightarrow> Inr (None, rb)
     | Some (_, pktlen) \<Rightarrow> rbind (polar_xlog_queue_pop_record rb (slot_ref i) pktlen) (\<lambda>(x, rb).
         Inr (Some x, rb)))"

lemma wal_payload_ok:
  assumes "wal_packet_ok x"
  shows "payload_ok (wal_payload x)" "0 < length (wal_payload x)" "length (wal_payload x) < 2 ^ 32"
  using assms by (auto simp: wal_packet_ok_def wal_payload_def payload_ok_def split: prod.splits)

lemma items_le_content: "list_all item_ok its \<Longrightarrow> length its \<le> length (content its)"
proof (induction its)
  case (Cons x its)
  then have "5 \<le> length (encode x)" "length its \<le> length (content its)" by simp_all
  then show ?case by simp
qed simp

lemma queue_items_send: "list_all wal_packet_ok q \<Longrightarrow> list_all send_item (map (\<lambda>x. meta (wal_payload x)) q)"
  using wal_payload_ok by (simp add: list_all_iff send_item_def)

lemma queue_put_law:
  assumes rep: "queue_rep rb q pos" and room: "queue_room rb x"
  shows "\<exists>rb'. queue_put rb x = Inr rb' \<and> queue_rep rb' (q @ [x]) pos"
proof -
  let ?its = "map (\<lambda>x. meta (wal_payload x)) q"
  have abs: "ring_abs rb ?its (\<lambda>i. the (pos i))" and ok: "wal_packet_ok x"
    using rep room by (auto simp: queue_rep_def queue_room_def)
  have "length ?its \<le> used rb"
    using items_le_content [of ?its] content_length [OF ring_absD(2) [OF abs]] ring_absD(2) [OF abs]
    by (simp add: ring_content_def)
  with used_lt [OF ring_absD(1) [OF abs]] room
  have visits: "unat (rb_min_visit rb) + length ?its < 2 ^ 64 - 2"
    by (auto simp: queue_room_def)
  have space: "int (POLAR_RINGBUF_PKT_SIZE (length (wal_payload x))) \<le> polar_ringbuf_free_size rb"
    using room by (simp add: queue_room_def)
  from recv_push_packet_abs [OF abs wal_payload_ok(2,3) [OF ok] space visits] obtain rb' where
    "recv_push_packet rb (wal_payload x) = Inr rb'" "rb_occupied rb' = rb_occupied rb"
    "ring_abs rb' (?its @ [meta (wal_payload x)]) (\<lambda>i. the (pos i))" by blast
  with rep ok show ?thesis by (intro exI [of _ rb']) (simp add: queue_rep_def queue_put_def)
qed

lemma queue_reader:
  assumes "queue_rep rb q pos" "pos r = Some k"
  shows "reader rb (slot_ref r) r"
  using assms by (auto simp: queue_rep_def reader_def slot_ref_def dom_def)

lemma pop_record_abs:
  assumes "ring_abs rb its pos" "reader rb ref i" "pos i < length its"
    and it: "its ! pos i = meta (wal_payload x)" and ok: "wal_packet_ok x"
  shows "\<exists>rb'. polar_xlog_queue_pop_record rb ref (length (wal_payload x)) = Inr (x, rb')
    \<and> ring_abs rb' its (pos(i := Suc (pos i))) \<and> rb_occupied rb' = rb_occupied rb"
proof -
  obtain r e d where x: "x = (r, e, d)" by (cases x)
  let ?p = "wal_payload x" and ?xl = "ucast (e - r) :: uint32"
  have p: "?p = uint64_bytes e @ uint32_bytes ?xl @ d" by (simp add: wal_payload_def x)
  have d: "d \<noteq> []" "length d + 12 < 2 ^ 32" "ucast ?xl = e - r" using ok by (auto simp: wal_packet_ok_def x)
  note rn = read_next_abs [OF assms(1-3) it]
  have c1: "copy_queue_content rb ref 0 8 = Inr (uint64_bytes e)"
    using rn [of 0 8] by (simp add: copy_queue_content_def p)
  have c2: "copy_queue_content rb ref 8 4 = Inr (uint32_bytes ?xl)"
    using rn [of 8 4] d(1) by (simp add: copy_queue_content_def p)
  have "(of_nat (length ?p) - of_nat POLAR_XLOG_HEAD_SIZE :: uint32) = of_nat (length d)"
    by (simp add: p POLAR_XLOG_HEAD_SIZE_def)
  then have dl: "unat (of_nat (length ?p) - of_nat POLAR_XLOG_HEAD_SIZE :: uint32) = length d"
    using d(2) by (simp add: unat_of_nat)
  have c3: "copy_queue_content rb ref 12 (length d) = Inr d"
    using rn [of 12 "length d"] d(1) by (simp add: copy_queue_content_def p)
  from update_ref_abs [OF assms(1-3) it] obtain rb' where
    u: "polar_ringbuf_update_ref rb ref = Inr rb'" "ring_abs rb' its (pos(i := Suc (pos i)))"
      "rb_occupied rb' = rb_occupied rb" by blast
  have "polar_xlog_queue_pop_record rb ref (length ?p) = Inr (x, rb')"
    using c1 c2 c3 dl u(1) d(3) bytes_uint64_roundtrip [of e "[]"] bytes_uint32_roundtrip [of ?xl "[]"]
    by (simp add: polar_xlog_queue_pop_record_def x)
  with u show ?thesis by blast
qed

lemma queue_get_law:
  assumes rep: "queue_rep rb q pos" and k: "pos r = Some k" "k < length q"
  shows "\<exists>rb'. queue_get rb r = Inr (Some (q ! k), rb') \<and> queue_rep rb' q (pos(r \<mapsto> Suc k))"
proof -
  let ?its = "map (\<lambda>x. meta (wal_payload x)) q" and ?pos = "\<lambda>i. the (pos i)"
  have abs: "ring_abs rb ?its ?pos" and ok: "wal_packet_ok (q ! k)" and oks: "list_all wal_packet_ok q"
    using rep k by (auto simp: queue_rep_def list_all_length)
  note rd = queue_reader [OF rep k(1)]
  have dr: "drop (?pos r) ?its = meta (wal_payload (q ! k)) # drop (Suc k) ?its"
    using k by (simp add: Cons_nth_drop_Suc [symmetric] drop_map)
  have rp: "ready_packet rb (slot_ref r) = Inr (Some (POLAR_RINGBUF_PKT_WAL_META, length (wal_payload (q ! k))))"
    using ready_packet_abs [OF abs rd queue_items_send [OF oks]] dr by simp
  have "?pos r < length ?its" "?its ! ?pos r = meta (wal_payload (q ! k))" using k by simp_all
  from pop_record_abs [OF abs rd this ok] obtain rb' where
    p: "polar_xlog_queue_pop_record rb (slot_ref r) (length (wal_payload (q ! k))) = Inr (q ! k, rb')"
      "ring_abs rb' ?its (?pos(r := Suc (?pos r)))" "rb_occupied rb' = rb_occupied rb" by blast
  have "?pos(r := Suc (?pos r)) = (\<lambda>i. the ((pos(r \<mapsto> Suc k)) i))" using k(1) by auto
  moreover have "dom (pos(r \<mapsto> Suc k)) = dom pos" using k(1) by auto
  ultimately have "queue_rep rb' q (pos(r \<mapsto> Suc k))"
    using p(2,3) rep by (simp add: queue_rep_def)
  with rp p(1) show ?thesis by (simp add: queue_get_def)
qed

lemma queue_cursor_law:
  assumes "queue_rep rb q pos" "pos r = Some k"
  shows "k \<le> length q"
proof -
  have "ring_abs rb (map (\<lambda>x. meta (wal_payload x)) q) (\<lambda>i. the (pos i))"
    using assms(1) by (simp add: queue_rep_def)
  from reader_slot(4) [OF this queue_reader [OF assms]] assms(2) show ?thesis by simp
qed

lemma queue_get_end:
  assumes "queue_rep rb q pos" "pos r = Some (length q)"
  shows "queue_get rb r = Inr (None, rb)"
proof -
  let ?its = "map (\<lambda>x. meta (wal_payload x)) q"
  have "ring_abs rb ?its (\<lambda>i. the (pos i))" "list_all wal_packet_ok q"
    using assms(1) by (simp_all add: queue_rep_def)
  from ready_packet_abs [OF this(1) queue_reader [OF assms] queue_items_send [OF this(2)]] assms(2)
  show ?thesis by (simp add: queue_get_def)
qed

lemma queue_collect_law:
  assumes "queue_rep rb q pos"
  shows "\<exists>rb' m. polar_ringbuf_update_keep_data rb = Inr rb' \<and> (\<forall>r k. pos r = Some k \<longrightarrow> m \<le> k)
    \<and> queue_rep rb' (drop m q) (\<lambda>r. map_option (\<lambda>k. k - m) (pos r))"
proof -
  let ?its = "map (\<lambda>x. meta (wal_payload x)) q" and ?pos = "\<lambda>i. the (pos i)"
  have "ring_abs rb ?its ?pos" using assms by (simp add: queue_rep_def)
  from update_pread_keeps_abs [OF this] obtain b rb' m where
    u: "polar_ringbuf_update_pread rb = Inr (b, rb')" "\<forall>i. bit (rb_occupied rb) i \<longrightarrow> m \<le> ?pos i"
      "ring_abs rb' (drop m ?its) (\<lambda>i. ?pos i - m)" "rb_occupied rb' = rb_occupied rb" by blast
  have d: "dom pos = {i. bit (rb_occupied rb) i}" using assms by (simp add: queue_rep_def)
  have "ring_abs rb' (drop m ?its) (\<lambda>i. the (map_option (\<lambda>k. k - m) (pos i)))"
  proof (rule ring_abs_cong [OF u(3)])
    fix i assume "bit (rb_occupied rb') i"
    then have "i \<in> dom pos" using u(4) d by simp
    then show "?pos i - m = the (map_option (\<lambda>k. k - m) (pos i))" by auto
  qed
  moreover have "\<forall>r k. pos r = Some k \<longrightarrow> m \<le> k" using u(2) d by fastforce
  moreover have "list_all wal_packet_ok (drop m q)"
    using assms by (auto simp: queue_rep_def list_all_iff dest: in_set_dropD)
  ultimately show ?thesis using u(1,4) d
    by (intro exI [of _ rb'] exI [of _ m])
      (auto simp: queue_rep_def polar_ringbuf_update_keep_data_def drop_map dom_def)
qed

interpretation wal_queue: broadcast_log queue_rep queue_room queue_put queue_get
  polar_ringbuf_update_keep_data
proof (unfold_locales, goal_cases)
  case (1 s q pos p)
  then show ?case by (rule queue_put_law)
next
  case (2 s q pos r k)
  then show ?case by (rule queue_get_law)
next
  case (3 s q pos r)
  then show ?case by (rule queue_get_end)
next
  case (4 s q pos r k)
  then show ?case by (rule queue_cursor_law)
next
  case (5 s q pos)
  then show ?case by (rule queue_collect_law)
qed

text \<open>
  C7. Along every interleaving of pushes, pops by the readers and collections of read packets,
  what a reader has popped is a prefix of the packets it had pending followed by the packets
  pushed, in that order; when the queue reports nothing to pop, it is all of them.
\<close>

theorem wal_queue_delivers_in_order:
  assumes "queue_rep rb0 q0 pos0" "wal_queue.log_run rb0 pos0 rb puts got" "pos0 r = Some k0"
  shows "\<exists>rest. got r @ rest = drop k0 q0 @ puts \<and> (rest = [] \<longleftrightarrow> queue_get rb r = Inr (None, rb))"
  by (rule wal_queue.log_run_fifo [OF assms(2,1,3)])

theorem wal_queue_delivers_in_order_witness:
  "\<exists>rb0 rb1 rb2 r. wal_queue.log_run rb0 [r \<mapsto> 0] rb2 [(1, 5, [7])] ((\<lambda>_. [])(r := [(1, 5, [7])]))
    \<and> queue_get rb2 r = Inr (None, rb2) \<and> queue_put rb0 (1, 5, [7]) = Inr rb1"
proof -
  let ?x = "(1, 5, [7]) :: wal_packet"
  let ?r = "polar_ringbuf_init 0 0 (replicate 64 0)"
  from demo_queue [of 64] obtain ref rb0 i where
    n: "polar_ringbuf_new_ref ?r True None = Inr (Some ref, rb0)"
    and q: "reader rb0 ref i" "ring_abs rb0 [] (\<lambda>_. 0)" "rb_size rb0 = 64" "rb_min_visit rb0 = 0" by auto
  have occ: "{k. bit (rb_occupied rb0) k} = {i}"
  proof -
    obtain j where "rb_occupied rb0 = POLAR_BIT_OCCUPY 0 j"
      using n by (auto simp: polar_ringbuf_new_ref_def polar_ringbuf_init_def slot_set_def
          Let_def split: if_splits)
    then show ?thesis using q(1) by (auto simp: reader_def)
  qed
  have rep: "queue_rep rb0 [] [i \<mapsto> 0]"
    using q(2) occ by (auto simp: queue_rep_def ring_abs_def ring_readers_def)
  have fs: "polar_ringbuf_free_size rb0 = 63" using free_size_content [OF q(2)] q(3) by simp
  have room: "queue_room rb0 ?x"
    by (simp add: queue_room_def wal_packet_ok_def wal_payload_def fs q(3,4)
        POLAR_RINGBUF_PKT_SIZE_def POLAR_RINGBUF_PKTHDRSIZE_def)
  from queue_put_law [OF rep room] obtain rb1 where
    put: "queue_put rb0 ?x = Inr rb1" "queue_rep rb1 [?x] [i \<mapsto> 0]" by auto
  from queue_get_law [OF put(2), of i 0] obtain rb2 where
    get: "queue_get rb1 i = Inr (Some ?x, rb2)" by auto
  have "wal_queue.log_run rb0 [i \<mapsto> 0] rb1 ([] @ [?x]) (\<lambda>_. [])"
    by (rule wal_queue.log_run.log_do_put [OF wal_queue.log_run.log_start room put(1)])
  from wal_queue.log_run.log_do_get [OF this _ get]
  have run: "wal_queue.log_run rb0 [i \<mapsto> 0] rb2 [?x] ((\<lambda>_. [])(i := [?x]))" by simp
  from wal_queue_delivers_in_order [OF rep run, of i 0] have "queue_get rb2 i = Inr (None, rb2)" by auto
  with run put(1) show ?thesis by blast
qed

end
