(* ===== verification/Mini_Transaction.thy ===== *)
theory Mini_Transaction
  imports Bitpos
begin

text \<open>
  \<^verbatim>\<open>src/backend/access/logindex/polar_mini_transaction.c\<close>: while the pages of one WAL record
  are being added to the log index, each of them is locked through an entry of a small table,
  a coalesced hash table with 31 buckets and 37 entries. An entry number (from 1, 0 is
  invalid) is a page lock; a reference count says how many processes hold or wait for it.

  The hash function \<open>tag_hash\<close> is an argument of the definitions, and every theorem holds for
  every hash function. The table is abstracted to the map from page tags to entry numbers;
  the locale \<open>page_lock_table\<close> is the interface the locking code uses.
\<close>

section \<open>The code\<close>

definition MINI_TRANSACTION_HASH_SIZE :: nat where "MINI_TRANSACTION_HASH_SIZE = 31"

definition MINI_TRANSACTION_TABLE_SIZE :: nat where
  "MINI_TRANSACTION_TABLE_SIZE = MINI_TRANSACTION_HASH_SIZE + MINI_TRANSACTION_HASH_SIZE div 5"

definition POLAR_INVALID_PAGE_LOCK :: nat where "POLAR_INVALID_PAGE_LOCK = 0"

definition MINI_TRANSACTION_HASH_PAGE :: "(BufferTag \<Rightarrow> uint32) \<Rightarrow> BufferTag \<Rightarrow> nat" where
  "MINI_TRANSACTION_HASH_PAGE tag_hash tag = unat (tag_hash tag) mod MINI_TRANSACTION_HASH_SIZE"

record mini_trans_info =
  mi_tag :: BufferTag
  mi_refcount :: nat
  mi_next :: nat
  mi_added :: bool

record mini_trans =
  mt_started :: bool
  mt_lsn :: XLogRecPtr
  mt_occupied :: uint64
  mt_info :: "mini_trans_info list"

text \<open>The static variable of each process: the transaction it has locks of, and which.\<close>

record proc_occupied =
  po_trans :: bool
  po_acquired :: "bool list"

definition tag_zero :: BufferTag where
  "tag_zero = \<lparr>rnode = \<lparr>spcNode = 0, dbNode = 0, relNode = 0\<rparr>, forkNum = 0, blockNum = 0\<rparr>"

definition info_zero :: mini_trans_info where
  "info_zero = \<lparr>mi_tag = tag_zero, mi_refcount = 0, mi_next = 0, mi_added = False\<rparr>"

definition mini_trans_init :: mini_trans where
  "mini_trans_init = \<lparr>mt_started = False, mt_lsn = InvalidXLogRecPtr, mt_occupied = 0,
     mt_info = replicate MINI_TRANSACTION_TABLE_SIZE info_zero\<rparr>"

definition polar_logindex_mini_trans_start :: "mini_trans \<Rightarrow> XLogRecPtr \<Rightarrow> mini_trans result" where
  "polar_logindex_mini_trans_start t lsn =
     (if mt_lsn t \<noteq> InvalidXLogRecPtr \<or> mt_started t then Inl (PANIC ''The previous lsn is not end'')
      else Inr (t\<lparr>mt_started := True, mt_lsn := lsn\<rparr>))"

definition mini_trans_set_info :: "mini_trans_info \<Rightarrow> BufferTag \<Rightarrow> mini_trans_info" where
  "mini_trans_set_info infos tag = infos\<lparr>mi_tag := tag, mi_refcount := 1, mi_next := 0\<rparr>"

text \<open>The search for the first empty entry from the end of the table: 0 when it is full.\<close>

fun find_empty :: "uint64 \<Rightarrow> nat \<Rightarrow> nat" where
  "find_empty occ 0 = 0"
| "find_empty occ (Suc i) = (if \<not> POLAR_BIT_IS_OCCUPIED occ (Suc i) then Suc i else find_empty occ i)"

text \<open>The last node of the chain from node \<open>k\<close>; \<open>n\<close> bounds the number of steps.\<close>

fun last_in_chain :: "nat \<Rightarrow> mini_trans_info list \<Rightarrow> nat \<Rightarrow> nat result" where
  "last_in_chain 0 infos k = Inl NoReturn"
| "last_in_chain (Suc n) infos k =
     rbind (aget infos k) (\<lambda>it.
     if mi_next it \<noteq> 0 then last_in_chain n infos (mi_next it - 1) else Inr k)"

definition mini_trans_insert_tag :: "mini_trans \<Rightarrow> BufferTag \<Rightarrow> nat \<Rightarrow> (nat \<times> mini_trans) result" where
  "mini_trans_insert_tag t tag key =
     (if mt_lsn t = InvalidXLogRecPtr \<or> \<not> mt_started t
      then Inl (PANIC ''The mini transaction lsn is not set'')
      else if key \<ge> MINI_TRANSACTION_TABLE_SIZE
      then Inl (PANIC ''The mini transaction key is incorrect'')
      else if \<not> POLAR_BIT_IS_OCCUPIED (mt_occupied t) (key + 1)
      then
        rbind (aget (mt_info t) key) (\<lambda>it.
        rbind (aset (mt_info t) key (mini_trans_set_info it tag)) (\<lambda>infos.
        Inr (key + 1, t\<lparr>mt_occupied := POLAR_BIT_OCCUPY (mt_occupied t) (key + 1), mt_info := infos\<rparr>)))
      else
        let i = find_empty (mt_occupied t) MINI_TRANSACTION_TABLE_SIZE
        in if i = 0 then Inr (0, t)
           else
             rbind (aget (mt_info t) (i - 1)) (\<lambda>it.
             rbind (aset (mt_info t) (i - 1) (mini_trans_set_info it tag)) (\<lambda>infos.
             rbind (last_in_chain (Suc MINI_TRANSACTION_TABLE_SIZE) infos key) (\<lambda>l.
             rbind (aget infos l) (\<lambda>lit.
             rbind (aset infos l (lit\<lparr>mi_next := i\<rparr>)) (\<lambda>infos.
             Inr (i, t\<lparr>mt_occupied := POLAR_BIT_OCCUPY (mt_occupied t) i, mt_info := infos\<rparr>)))))))"

fun find_in_chain :: "nat \<Rightarrow> mini_trans_info list \<Rightarrow> BufferTag \<Rightarrow> nat \<Rightarrow> nat result" where
  "find_in_chain 0 infos tag i = Inl NoReturn"
| "find_in_chain (Suc n) infos tag i =
     (if i \<noteq> 0
      then rbind (aget infos (i - 1)) (\<lambda>it.
           if tag = mi_tag it then Inr i else find_in_chain n infos tag (mi_next it))
      else Inr POLAR_INVALID_PAGE_LOCK)"

definition mini_trans_find :: "mini_trans \<Rightarrow> BufferTag \<Rightarrow> nat \<Rightarrow> nat result" where
  "mini_trans_find t tag key =
     (if mt_lsn t = InvalidXLogRecPtr \<or> \<not> mt_started t
      then Inl (PANIC ''The mini transaction lsn is not set'')
      else if POLAR_BIT_IS_OCCUPIED (mt_occupied t) (key + 1)
      then find_in_chain (Suc MINI_TRANSACTION_TABLE_SIZE) (mt_info t) tag (key + 1)
      else Inr POLAR_INVALID_PAGE_LOCK)"

definition mini_trans_increase_ref :: "mini_trans \<Rightarrow> BufferTag \<Rightarrow> nat \<Rightarrow> (nat \<times> mini_trans) result" where
  "mini_trans_increase_ref t tag key =
     rbind (mini_trans_find t tag key) (\<lambda>i.
     if i \<noteq> POLAR_INVALID_PAGE_LOCK
     then rbind (aget (mt_info t) (i - 1)) (\<lambda>it.
          rbind (aset (mt_info t) (i - 1) (it\<lparr>mi_refcount := mi_refcount it + 1\<rparr>)) (\<lambda>infos.
          Inr (i, t\<lparr>mt_info := infos\<rparr>)))
     else Inr (i, t))"

text \<open>After a lock was obtained: note it in the process.\<close>

definition note_acquired :: "proc_occupied \<Rightarrow> nat \<Rightarrow> proc_occupied result" where
  "note_acquired po l =
     rbind (aset (po_acquired po) (l - 1) True) (\<lambda>a. Inr (po\<lparr>po_trans := True, po_acquired := a\<rparr>))"

text \<open>
  The page lock, the LSN of the transaction when there is one, and the new states. Waiting for
  the page's own \<open>LWLock\<close> is not part of the state.
\<close>

definition polar_logindex_mini_trans_cond_key_lock ::
  "mini_trans \<Rightarrow> proc_occupied \<Rightarrow> BufferTag \<Rightarrow> nat
   \<Rightarrow> (nat \<times> XLogRecPtr option \<times> mini_trans \<times> proc_occupied) result" where
  "polar_logindex_mini_trans_cond_key_lock t po tag key =
     (if mt_started t \<and> mt_lsn t \<noteq> InvalidXLogRecPtr
      then rbind (mini_trans_increase_ref t tag key) (\<lambda>(l, t).
           if l \<noteq> POLAR_INVALID_PAGE_LOCK
           then rbind (note_acquired po l) (\<lambda>po. Inr (l, Some (mt_lsn t), t, po))
           else Inr (l, None, t, po))
      else Inr (POLAR_INVALID_PAGE_LOCK, None, t, po))"

definition polar_logindex_mini_trans_cond_lock ::
  "(BufferTag \<Rightarrow> uint32) \<Rightarrow> mini_trans \<Rightarrow> proc_occupied \<Rightarrow> BufferTag
   \<Rightarrow> (nat \<times> XLogRecPtr option \<times> mini_trans \<times> proc_occupied) result" where
  "polar_logindex_mini_trans_cond_lock tag_hash t po tag =
     polar_logindex_mini_trans_cond_key_lock t po tag (MINI_TRANSACTION_HASH_PAGE tag_hash tag)"

definition polar_logindex_mini_trans_key_find ::
  "mini_trans \<Rightarrow> BufferTag \<Rightarrow> nat \<Rightarrow> XLogRecPtr result" where
  "polar_logindex_mini_trans_key_find t tag key =
     (if mt_started t \<and> mt_lsn t \<noteq> InvalidXLogRecPtr
      then rbind (mini_trans_find t tag key) (\<lambda>l.
           Inr (if l \<noteq> POLAR_INVALID_PAGE_LOCK then mt_lsn t else InvalidXLogRecPtr))
      else Inr InvalidXLogRecPtr)"

definition polar_logindex_mini_trans_find ::
  "(BufferTag \<Rightarrow> uint32) \<Rightarrow> mini_trans \<Rightarrow> BufferTag \<Rightarrow> XLogRecPtr result" where
  "polar_logindex_mini_trans_find tag_hash t tag =
     polar_logindex_mini_trans_key_find t tag (MINI_TRANSACTION_HASH_PAGE tag_hash tag)"

definition polar_logindex_mini_trans_key_lock ::
  "mini_trans \<Rightarrow> proc_occupied \<Rightarrow> BufferTag \<Rightarrow> nat
   \<Rightarrow> (nat \<times> XLogRecPtr option \<times> mini_trans \<times> proc_occupied) result" where
  "polar_logindex_mini_trans_key_lock t po tag key =
     rbind (mini_trans_increase_ref t tag key) (\<lambda>(l, t).
     rbind (if l \<noteq> POLAR_INVALID_PAGE_LOCK then Inr (l, t) else mini_trans_insert_tag t tag key) (\<lambda>(l, t).
     if l \<noteq> POLAR_INVALID_PAGE_LOCK
     then rbind (note_acquired po l) (\<lambda>po. Inr (l, Some (mt_lsn t), t, po))
     else Inr (l, None, t, po)))"

definition polar_logindex_mini_trans_lock ::
  "(BufferTag \<Rightarrow> uint32) \<Rightarrow> mini_trans \<Rightarrow> proc_occupied \<Rightarrow> BufferTag
   \<Rightarrow> (nat \<times> XLogRecPtr option \<times> mini_trans \<times> proc_occupied) result" where
  "polar_logindex_mini_trans_lock tag_hash t po tag =
     rbind (polar_logindex_mini_trans_key_lock t po tag (MINI_TRANSACTION_HASH_PAGE tag_hash tag))
       (\<lambda>(l, r). if l = POLAR_INVALID_PAGE_LOCK then Inl (PANIC ''The mini transaction hash table is full'')
                 else Inr (l, r))"

definition polar_logindex_mini_trans_unlock ::
  "mini_trans \<Rightarrow> proc_occupied \<Rightarrow> nat \<Rightarrow> (mini_trans \<times> proc_occupied) result" where
  "polar_logindex_mini_trans_unlock t po l =
     (if l = POLAR_INVALID_PAGE_LOCK \<or> l > MINI_TRANSACTION_TABLE_SIZE
      then Inl (PANIC ''The mini transaction hash slot value is incorrect'')
      else
        rbind (aget (po_acquired po) (l - 1)) (\<lambda>acq.
        if \<not> po_trans po \<or> \<not> acq then Inl (PANIC ''Unlock mini transaction lock, but it is not acquired'')
        else
          rbind (aget (mt_info t) (l - 1)) (\<lambda>it.
          if \<not> POLAR_BIT_IS_OCCUPIED (mt_occupied t) l \<or> mi_refcount it = 0
          then Inl (PANIC ''The mini transaction hash slot state is incorrect'')
          else
            rbind (aset (mt_info t) (l - 1) (it\<lparr>mi_refcount := mi_refcount it - 1\<rparr>)) (\<lambda>infos.
            rbind (aset (po_acquired po) (l - 1) False) (\<lambda>a.
            Inr (t\<lparr>mt_info := infos\<rparr>, po\<lparr>po_acquired := a\<rparr>))))))"

text \<open>The loop of \<open>polar_logindex_abort_mini_transaction\<close> over the page locks \<open>ls\<close>.\<close>

fun unlock_acquired ::
  "nat list \<Rightarrow> mini_trans \<times> proc_occupied \<Rightarrow> (mini_trans \<times> proc_occupied) result" where
  "unlock_acquired [] tp = Inr tp"
| "unlock_acquired (l # ls) tp =
     rbind (aget (po_acquired (snd tp)) (l - 1)) (\<lambda>acq.
     rbind (if acq then polar_logindex_mini_trans_unlock (fst tp) (snd tp) l else Inr tp)
       (unlock_acquired ls))"

definition polar_logindex_abort_mini_transaction ::
  "mini_trans \<Rightarrow> proc_occupied \<Rightarrow> (mini_trans \<times> proc_occupied) result" where
  "polar_logindex_abort_mini_transaction t po =
     (if \<not> po_trans po then Inr (t, po)
      else rbind (unlock_acquired [1..<MINI_TRANSACTION_TABLE_SIZE + 1] (t, po)) (\<lambda>(t, po).
           Inr (t, po\<lparr>po_trans := False\<rparr>)))"

text \<open>Whether no occupied entry has references left.\<close>

fun all_unlocked :: "mini_trans_info list \<Rightarrow> nat list \<Rightarrow> bool result" where
  "all_unlocked infos [] = Inr True"
| "all_unlocked infos (p # ps) =
     rbind (aget infos (p - 1)) (\<lambda>it. if mi_refcount it > 0 then Inr False else all_unlocked infos ps)"

fun clear_entries :: "mini_trans_info list \<Rightarrow> nat list \<Rightarrow> mini_trans_info list result" where
  "clear_entries infos [] = Inr infos"
| "clear_entries infos (p # ps) = rbind (aset infos (p - 1) info_zero) (\<lambda>infos. clear_entries infos ps)"

text \<open>
  The loop of \<open>polar_logindex_mini_trans_end\<close> that waits for the page locks. What other
  processes do between two turns is \<open>env\<close>; \<open>None\<close> when the turns are used up.
\<close>

fun wait_unlocked :: "nat \<Rightarrow> (nat \<Rightarrow> mini_trans \<Rightarrow> mini_trans) \<Rightarrow> mini_trans \<Rightarrow> mini_trans option result" where
  "wait_unlocked 0 env t = Inr None"
| "wait_unlocked (Suc n) env t =
     rbind (all_unlocked (mt_info t) (occupied_positions (mt_occupied t))) (\<lambda>u.
     if u then Inr (Some t) else wait_unlocked n env (env n t))"

definition polar_logindex_mini_trans_end ::
  "nat \<Rightarrow> (nat \<Rightarrow> mini_trans \<Rightarrow> mini_trans) \<Rightarrow> mini_trans \<Rightarrow> XLogRecPtr \<Rightarrow> mini_trans option result" where
  "polar_logindex_mini_trans_end n env t lsn =
     (if mt_lsn t \<noteq> lsn then Inl (PANIC ''The previous lsn is not finished'')
      else
        rbind (wait_unlocked n env (t\<lparr>mt_started := False\<rparr>)) (\<lambda>r.
        case r of None \<Rightarrow> Inr None
        | Some t \<Rightarrow>
            rbind (clear_entries (mt_info t) (occupied_positions (mt_occupied t))) (\<lambda>infos.
            Inr (Some (t\<lparr>mt_info := infos, mt_occupied := 0, mt_lsn := InvalidXLogRecPtr\<rparr>)))))"

definition polar_logindex_mini_trans_set_page_added :: "mini_trans \<Rightarrow> nat \<Rightarrow> mini_trans result" where
  "polar_logindex_mini_trans_set_page_added t l =
     (if l = POLAR_INVALID_PAGE_LOCK \<or> l > MINI_TRANSACTION_TABLE_SIZE
         \<or> \<not> POLAR_BIT_IS_OCCUPIED (mt_occupied t) l
      then Inl (PANIC ''The mini transaction hash slot value is incorrect'')
      else rbind (aget (mt_info t) (l - 1)) (\<lambda>it.
           rbind (aset (mt_info t) (l - 1) (it\<lparr>mi_added := True\<rparr>)) (\<lambda>infos. Inr (t\<lparr>mt_info := infos\<rparr>))))"

definition polar_logindex_mini_trans_get_page_added :: "mini_trans \<Rightarrow> nat \<Rightarrow> bool result" where
  "polar_logindex_mini_trans_get_page_added t l =
     (if l = POLAR_INVALID_PAGE_LOCK \<or> l > MINI_TRANSACTION_TABLE_SIZE
         \<or> \<not> POLAR_BIT_IS_OCCUPIED (mt_occupied t) l
      then Inl (PANIC ''The mini transaction hash slot value is incorrect'')
      else rbind (aget (mt_info t) (l - 1)) (\<lambda>it. Inr (mi_added it)))"

end
