(* ===== verification/Mini_Transaction_Table.thy ===== *)
theory Mini_Transaction_Table
  imports Mini_Transaction
begin

text \<open>
  The coalesced hash table of \<open>Mini_Transaction\<close> implements a finite map from page tags to
  entry numbers: the chains are finite, every stored tag is on the chain of its hash bucket,
  and searching and inserting are lookup and update of the map.
\<close>

section \<open>Chains\<close>

text \<open>Entry number \<open>i\<close>, from 1, of the table.\<close>

definition node :: "mini_trans_info list \<Rightarrow> nat \<Rightarrow> mini_trans_info" where
  "node infos i = infos ! (i - 1)"

definition node_set :: "mini_trans_info list \<Rightarrow> nat \<Rightarrow> mini_trans_info \<Rightarrow> mini_trans_info list" where
  "node_set infos i v = infos[i - 1 := v]"

lemma length_node_set [simp]: "length (node_set infos i v) = length infos"
  by (simp add: node_set_def)

lemma node_node_set:
  assumes "0 < i" "0 < j" "j \<le> length infos"
  shows "node (node_set infos j v) i = (if i = j then v else node infos i)"
proof (cases "i = j")
  case False
  with assms have "j - 1 \<noteq> i - 1" by linarith
  with False show ?thesis by (simp add: node_def node_set_def)
qed (use assms in \<open>simp add: node_def node_set_def\<close>)

lemma node_access:
  assumes "0 < i" "i \<le> length infos"
  shows "aget infos (i - 1) = Inr (node infos i)" "aset infos (i - 1) v = Inr (node_set infos i v)"
  using assms by (simp_all add: node_def node_set_def)

lemma node_access_Suc:
  assumes "k < length infos"
  shows "aget infos k = Inr (node infos (Suc k))" "aset infos k v = Inr (node_set infos (Suc k) v)"
  using assms by (simp_all add: node_def node_set_def)

text \<open>The chain that starts at entry \<open>i\<close> (0 is the end) is the list \<open>xs\<close>.\<close>

fun path :: "mini_trans_info list \<Rightarrow> nat \<Rightarrow> nat list \<Rightarrow> bool" where
  "path infos i [] \<longleftrightarrow> i = 0"
| "path infos i (x # xs) \<longleftrightarrow> i = x \<and> 0 < x \<and> x \<le> length infos \<and> path infos (mi_next (node infos x)) xs"

lemma path_unique: "path infos i xs \<Longrightarrow> path infos i ys \<Longrightarrow> xs = ys"
proof (induction xs arbitrary: i ys)
  case Nil
  then show ?case by (cases ys) auto
next
  case (Cons x xs)
  then obtain zs where "ys = x # zs" by (cases ys) auto
  with Cons show ?case by auto
qed

lemma path_suffix: "path infos i (xs @ x # ys) \<Longrightarrow> path infos x (x # ys)"
  by (induction xs arbitrary: i) auto

lemma path_distinct: "path infos i xs \<Longrightarrow> distinct xs"
proof (induction xs arbitrary: i)
  case (Cons x xs)
  have "x \<notin> set xs"
  proof
    assume "x \<in> set xs"
    then obtain as bs where xs: "xs = as @ x # bs" by (auto simp: in_set_conv_decomp)
    have "path infos x (x # bs)" using Cons.prems path_suffix [of infos i "x # as" x bs] xs by simp
    moreover have "path infos x (x # xs)" using Cons.prems by simp
    ultimately have "x # bs = x # xs" by (rule path_unique)
    then have "length bs = length (as @ x # bs)" using xs by simp
    then show False by simp
  qed
  with Cons show ?case by auto
qed simp

lemma path_nodes: "path infos i xs \<Longrightarrow> set xs \<subseteq> {1..length infos}"
  by (induction xs arbitrary: i) auto

lemma path_length: "path infos i xs \<Longrightarrow> length xs \<le> length infos"
proof -
  assume p: "path infos i xs"
  have "card (set xs) \<le> card {1..length infos}" using path_nodes [OF p] by (intro card_mono) auto
  then show ?thesis using path_distinct [OF p] by (simp add: distinct_card)
qed

text \<open>A chain depends on the links of its own entries only.\<close>

lemma path_cong:
  assumes "length infos' = length infos" "\<And>x. x \<in> set xs \<Longrightarrow> mi_next (node infos' x) = mi_next (node infos x)"
  shows "path infos' i xs \<longleftrightarrow> path infos i xs"
  using assms by (induction xs arbitrary: i) auto

lemma path_update_out:
  assumes "0 < x" "x \<le> length infos" "x \<notin> set xs"
  shows "path infos i xs \<Longrightarrow> path (node_set infos x v) i xs"
proof -
  assume p: "path infos i xs"
  have "mi_next (node (node_set infos x v) y) = mi_next (node infos y)" if "y \<in> set xs" for y
  proof -
    have "0 < y" "y \<noteq> x" using path_nodes [OF p] that assms(3) by auto
    then show ?thesis using assms by (simp add: node_node_set)
  qed
  with p show ?thesis using path_cong [of "node_set infos x v" infos xs i] by simp
qed

text \<open>Linking a new last entry \<open>n\<close> behind the last entry \<open>l\<close> of a chain.\<close>

lemma path_link:
  assumes l: "0 < l" "l \<le> length infos" "mi_next (node infos l) = 0"
    and n: "0 < n" "n \<le> length infos" "mi_next (node infos n) = 0" "n \<noteq> l"
  shows "path infos i xs \<Longrightarrow> n \<notin> set xs \<Longrightarrow>
    path (node_set infos l ((node infos l)\<lparr>mi_next := n\<rparr>)) i (if l \<in> set xs then xs @ [n] else xs)"
proof (induction xs arbitrary: i)
  case (Cons x xs)
  let ?infos = "node_set infos l ((node infos l)\<lparr>mi_next := n\<rparr>)"
  have x: "0 < x" "x \<le> length infos" "path infos (mi_next (node infos x)) xs" "i = x"
    using Cons.prems(1) by simp_all
  show ?case
  proof (cases "x = l")
    case True
    then have "xs = []" using x(3) l(3) by (cases xs) auto
    with True x l n show ?thesis by (simp add: node_node_set)
  next
    case False
    with Cons.IH [OF x(3)] Cons.prems(2) x l(1,2) show ?thesis by (auto simp: node_node_set)
  qed
qed simp

lemma find_in_chain_path:
  assumes "path infos i xs" "length xs < n"
  shows "find_in_chain n infos tag i =
    Inr (case find (\<lambda>x. mi_tag (node infos x) = tag) xs of None \<Rightarrow> 0 | Some x \<Rightarrow> x)"
  using assms
proof (induction xs arbitrary: i n)
  case Nil
  then show ?case by (cases n) (auto simp: POLAR_INVALID_PAGE_LOCK_def)
next
  case (Cons x xs)
  then obtain m where m: "n = Suc m" "length xs < m" by (cases n) auto
  have i: "i = x" "0 < i" "i \<le> length infos" "path infos (mi_next (node infos i)) xs" using Cons.prems by auto
  show ?case using Cons.IH [OF i(4) m(2)] i m(1) node_access(1) [OF i(2,3)] by simp
qed

lemma last_in_chain_path:
  assumes "path infos (Suc k) xs" "length xs < n"
  shows "\<exists>l. last_in_chain n infos k = Inr (l - 1) \<and> l \<in> set xs \<and> mi_next (node infos l) = 0"
  using assms
proof (induction xs arbitrary: k n)
  case (Cons x xs)
  then obtain m where m: "n = Suc m" "length xs < m" by (cases n) auto
  have k: "x = Suc k" "k < length infos" "path infos (mi_next (node infos (Suc k))) xs" using Cons.prems by auto
  note get = node_access_Suc(1) [OF k(2)]
  show ?case
  proof (cases "mi_next (node infos (Suc k))")
    case 0
    then show ?thesis using get m k(1) by (intro exI [of _ "Suc k"]) simp
  next
    case (Suc j)
    with Cons.IH [of j m] k(3) m(2) obtain l where
      "last_in_chain m infos j = Inr (l - 1)" "l \<in> set xs" "mi_next (node infos l) = 0" by auto
    with Suc get m(1) show ?thesis by (intro exI [of _ l]) simp
  qed
qed simp

section \<open>The table\<close>

definition entries :: "mini_trans \<Rightarrow> nat set" where
  "entries t = {i. 0 < i \<and> bit (mt_occupied t) (i - 1)}"

abbreviation entry :: "mini_trans \<Rightarrow> nat \<Rightarrow> mini_trans_info" where
  "entry t i \<equiv> node (mt_info t) i"

definition table_lookup :: "mini_trans \<Rightarrow> BufferTag \<Rightarrow> nat option" where
  "table_lookup t tag =
     find (\<lambda>i. bit (mt_occupied t) (i - 1) \<and> mi_tag (entry t i) = tag) [1..<MINI_TRANSACTION_TABLE_SIZE + 1]"

definition table_ok :: "(BufferTag \<Rightarrow> nat) \<Rightarrow> mini_trans \<Rightarrow> bool" where
  "table_ok h t \<longleftrightarrow> length (mt_info t) = MINI_TRANSACTION_TABLE_SIZE
     \<and> entries t \<subseteq> {1..MINI_TRANSACTION_TABLE_SIZE}
     \<and> (\<forall>i \<in> entries t. \<exists>xs. path (mt_info t) i xs \<and> set xs \<subseteq> entries t)
     \<and> (\<forall>i \<in> entries t. Suc (h (mi_tag (entry t i))) \<in> entries t
          \<and> (\<exists>xs. path (mt_info t) (Suc (h (mi_tag (entry t i)))) xs \<and> i \<in> set xs))
     \<and> (\<forall>i \<in> entries t. \<forall>j \<in> entries t. mi_tag (entry t i) = mi_tag (entry t j) \<longrightarrow> i = j)
     \<and> (\<forall>i \<in> {1..MINI_TRANSACTION_TABLE_SIZE} - entries t. entry t i = info_zero)"

definition started :: "mini_trans \<Rightarrow> bool" where
  "started t \<longleftrightarrow> mt_started t \<and> mt_lsn t \<noteq> InvalidXLogRecPtr"

lemma table_size: "MINI_TRANSACTION_TABLE_SIZE = 37" "MINI_TRANSACTION_TABLE_SIZE < 64"
  by (simp_all add: MINI_TRANSACTION_TABLE_SIZE_def MINI_TRANSACTION_HASH_SIZE_def)

lemma occupied_entries: "0 < i \<Longrightarrow> POLAR_BIT_IS_OCCUPIED (mt_occupied t) i \<longleftrightarrow> i \<in> entries t"
  by (simp add: is_occupied_iff entries_def)

lemma entries_occupy:
  "\<lbrakk>0 < i; i \<le> MINI_TRANSACTION_TABLE_SIZE\<rbrakk>
   \<Longrightarrow> entries (t\<lparr>mt_occupied := POLAR_BIT_OCCUPY (mt_occupied t) i, mt_info := x\<rparr>) = insert i (entries t)"
  using table_size by (auto simp: entries_def)

lemma table_okD:
  assumes "table_ok h t"
  shows "length (mt_info t) = MINI_TRANSACTION_TABLE_SIZE"
    "i \<in> entries t \<Longrightarrow> 0 < i \<and> i \<le> MINI_TRANSACTION_TABLE_SIZE"
    "i \<in> entries t \<Longrightarrow> \<exists>xs. path (mt_info t) i xs \<and> set xs \<subseteq> entries t"
    "i \<in> entries t \<Longrightarrow> Suc (h (mi_tag (entry t i))) \<in> entries t"
    "i \<in> entries t \<Longrightarrow> \<exists>xs. path (mt_info t) (Suc (h (mi_tag (entry t i)))) xs \<and> i \<in> set xs"
    "i \<in> entries t \<Longrightarrow> j \<in> entries t \<Longrightarrow> mi_tag (entry t i) = mi_tag (entry t j) \<Longrightarrow> i = j"
    "i \<notin> entries t \<Longrightarrow> 0 < i \<Longrightarrow> i \<le> MINI_TRANSACTION_TABLE_SIZE \<Longrightarrow> entry t i = info_zero"
  using assms unfolding table_ok_def by (auto simp: Suc_le_eq)

lemma table_lookup_Some:
  assumes "table_ok h t"
  shows "table_lookup t tag = Some i \<longleftrightarrow> i \<in> entries t \<and> mi_tag (entry t i) = tag"
proof -
  let ?P = "\<lambda>i. bit (mt_occupied t) (i - 1) \<and> mi_tag (entry t i) = tag"
  let ?l = "[1..<MINI_TRANSACTION_TABLE_SIZE + 1]"
  have in_l: "x \<in> set ?l \<and> ?P x \<longleftrightarrow> x \<in> entries t \<and> mi_tag (entry t x) = tag" for x
    using table_okD(2) [OF assms, of x] by (auto simp: entries_def)
  show ?thesis
  proof
    assume "table_lookup t tag = Some i"
    then have "i \<in> set ?l \<and> ?P i" unfolding table_lookup_def by (rule find_SomeD)
    with in_l show "i \<in> entries t \<and> mi_tag (entry t i) = tag" by blast
  next
    assume i: "i \<in> entries t \<and> mi_tag (entry t i) = tag"
    then have "table_lookup t tag \<noteq> None" using in_l unfolding table_lookup_def find_None_iff by blast
    then obtain j where j: "table_lookup t tag = Some j" by blast
    then have "j \<in> set ?l \<and> ?P j" unfolding table_lookup_def by (rule find_SomeD)
    with in_l have "j \<in> entries t \<and> mi_tag (entry t j) = tag" by blast
    with i table_okD(6) [OF assms] j show "table_lookup t tag = Some i" by metis
  qed
qed

lemma table_lookup_None:
  assumes "table_ok h t"
  shows "table_lookup t tag = None \<longleftrightarrow> (\<forall>i \<in> entries t. mi_tag (entry t i) \<noteq> tag)"
  using table_lookup_Some [OF assms, of tag] by (metis not_None_eq)

text \<open>Searching is looking up.\<close>

lemma find_is_lookup:
  assumes ok: "table_ok h t" and "started t"
  shows "mini_trans_find t tag (h tag) = Inr (case table_lookup t tag of None \<Rightarrow> 0 | Some i \<Rightarrow> i)"
proof (cases "Suc (h tag) \<in> entries t")
  case True
  then obtain xs where xs: "path (mt_info t) (Suc (h tag)) xs" "set xs \<subseteq> entries t"
    using table_okD(3) [OF ok] by blast
  have "length xs < Suc MINI_TRANSACTION_TABLE_SIZE"
    using path_length [OF xs(1)] table_okD(1) [OF ok] by simp
  note f = find_in_chain_path [OF xs(1) this, of tag]
  have "find (\<lambda>x. mi_tag (entry t x) = tag) xs = table_lookup t tag"
  proof (cases "table_lookup t tag")
    case None
    then have "\<forall>x \<in> set xs. mi_tag (entry t x) \<noteq> tag" using table_lookup_None [OF ok] xs(2) by blast
    with None show ?thesis by (simp add: find_None_iff)
  next
    case (Some i)
    then have i: "i \<in> entries t" "mi_tag (entry t i) = tag" using table_lookup_Some [OF ok] by auto
    then have "i \<in> set xs" using table_okD(5) [OF ok i(1)] path_unique xs(1) by (metis i(2))
    then have "find (\<lambda>x. mi_tag (entry t x) = tag) xs \<noteq> None" using i(2) by (auto simp: find_None_iff)
    then obtain x where x: "find (\<lambda>x. mi_tag (entry t x) = tag) xs = Some x" by blast
    from find_SomeD [OF this] have "x \<in> set xs" "mi_tag (entry t x) = tag" by auto
    with xs(2) i table_okD(6) [OF ok] have "x = i" by blast
    with x Some show ?thesis by simp
  qed
  with f True assms(2) show ?thesis
    by (simp add: mini_trans_find_def started_def occupied_entries)
next
  case False
  then have "table_lookup t tag = None"
    using table_okD(4) [OF ok] table_lookup_None [OF ok] by blast
  with False assms(2) show ?thesis
    by (simp add: mini_trans_find_def started_def occupied_entries POLAR_INVALID_PAGE_LOCK_def)
qed

section \<open>Insertion\<close>

lemma find_empty_spec:
  "find_empty occ n = i \<Longrightarrow> i \<le> n \<and> (i = 0 \<longrightarrow> (\<forall>k < n. bit occ k)) \<and> (0 < i \<longrightarrow> \<not> bit occ (i - 1))"
  by (induction n) (auto simp: is_occupied_iff less_Suc_eq split: if_splits)

text \<open>What the new array of entries must satisfy for a new entry \<open>n\<close> to be a proper one.\<close>

lemma table_ok_insert:
  assumes ok: "table_ok h t" and n: "n \<notin> entries t" "0 < n" "n \<le> MINI_TRANSACTION_TABLE_SIZE"
    and len: "length infos = MINI_TRANSACTION_TABLE_SIZE"
    and tags: "\<And>i. i \<in> entries t \<Longrightarrow> mi_tag (node infos i) = mi_tag (entry t i)"
    and tag: "mi_tag (node infos n) = tag" "\<And>i. i \<in> entries t \<Longrightarrow> mi_tag (entry t i) \<noteq> tag"
    and paths: "\<And>i xs. path (mt_info t) i xs \<Longrightarrow> set xs \<subseteq> entries t
      \<Longrightarrow> \<exists>ys. path infos i (xs @ ys) \<and> set ys \<subseteq> {n}"
    and new: "path infos n [n]" "Suc (h tag) \<in> insert n (entries t)"
      "\<exists>xs. path infos (Suc (h tag)) xs \<and> n \<in> set xs"
    and rest: "\<And>i. i \<notin> insert n (entries t) \<Longrightarrow> 0 < i \<Longrightarrow> i \<le> MINI_TRANSACTION_TABLE_SIZE
      \<Longrightarrow> node infos i = info_zero"
  shows "table_ok h (t\<lparr>mt_occupied := POLAR_BIT_OCCUPY (mt_occupied t) n, mt_info := infos\<rparr>)"
    (is "table_ok h ?t")
proof -
  have e: "entries ?t = insert n (entries t)" using n by (intro entries_occupy)
  have p: "\<exists>xs. path infos i xs \<and> set xs \<subseteq> insert n (entries t)" if i: "i \<in> insert n (entries t)" for i
  proof (cases "i = n")
    case False
    with i table_okD(3) [OF ok] obtain xs where xs: "path (mt_info t) i xs" "set xs \<subseteq> entries t" by blast
    with paths [OF xs] show ?thesis by fastforce
  next
    case True
    with new(1) show ?thesis by (intro exI [of _ "[n]"]) simp
  qed
  have q: "Suc (h (mi_tag (node infos i))) \<in> insert n (entries t)
      \<and> (\<exists>xs. path infos (Suc (h (mi_tag (node infos i)))) xs \<and> i \<in> set xs)"
    if i: "i \<in> insert n (entries t)" for i
  proof (cases "i = n")
    case False
    with i have ie: "i \<in> entries t" by simp
    let ?k = "Suc (h (mi_tag (entry t i)))"
    from table_okD(3,4) [OF ok] ie obtain xs where
      xs: "path (mt_info t) ?k xs" "set xs \<subseteq> entries t" by blast
    have "i \<in> set xs" using table_okD(5) [OF ok ie] path_unique [OF xs(1)] by blast
    with paths [OF xs] show ?thesis unfolding tags [OF ie] using table_okD(4) [OF ok ie] by auto
  qed (use new(2,3) tag(1) in auto)
  have u: "i = j" if "i \<in> insert n (entries t)" "j \<in> insert n (entries t)"
    "mi_tag (node infos i) = mi_tag (node infos j)" for i j
  proof (cases "i = n \<or> j = n")
    case True
    then show ?thesis
    proof
      assume "i = n"
      then have "mi_tag (node infos j) = tag" using that(3) tag(1) by simp
      with tags tag(2) that(2) \<open>i = n\<close> show ?thesis by (cases "j = n") auto
    next
      assume "j = n"
      then have "mi_tag (node infos i) = tag" using that(3) tag(1) by simp
      with tags tag(2) that(1) \<open>j = n\<close> show ?thesis by (cases "i = n") auto
    qed
  next
    case False
    then have "i \<in> entries t" "j \<in> entries t" using that by auto
    then show ?thesis using that(3) tags table_okD(6) [OF ok] by metis
  qed
  have b: "insert n (entries t) \<subseteq> {1..MINI_TRANSACTION_TABLE_SIZE}"
    using table_okD(2) [OF ok] n by (auto simp: Suc_le_eq)
  have i: "mt_info ?t = infos" by simp
  have r: "\<forall>i \<in> {1..MINI_TRANSACTION_TABLE_SIZE} - insert n (entries t). node infos i = info_zero"
  proof
    fix i assume i: "i \<in> {1..MINI_TRANSACTION_TABLE_SIZE} - insert n (entries t)"
    then have "0 < i" "i \<le> MINI_TRANSACTION_TABLE_SIZE" by auto
    with i show "node infos i = info_zero" by (intro rest) blast+
  qed
  show ?thesis unfolding table_ok_def e i using len p q u b r by blast
qed

text \<open>What a search or an insertion leaves as it is.\<close>

definition same_locks :: "mini_trans \<Rightarrow> mini_trans \<Rightarrow> nat \<Rightarrow> bool" where
  "same_locks t t' n \<longleftrightarrow> mt_started t' = mt_started t \<and> mt_lsn t' = mt_lsn t
     \<and> (\<forall>i \<in> entries t - {n}. mi_refcount (entry t' i) = mi_refcount (entry t i)
          \<and> mi_added (entry t' i) = mi_added (entry t i))"

lemma lookup_insert:
  assumes "table_ok h t" "table_ok h t'" "entries t' = insert n (entries t)" "n \<notin> entries t"
    and "\<And>i. i \<in> entries t \<Longrightarrow> mi_tag (entry t' i) = mi_tag (entry t i)" "mi_tag (entry t' n) = tag"
  shows "table_lookup t' = (table_lookup t)(tag \<mapsto> n)"
proof
  fix x
  show "table_lookup t' x = ((table_lookup t)(tag \<mapsto> n)) x"
  proof (cases "x = tag")
    case True
    then show ?thesis using table_lookup_Some [OF assms(2), of tag n] assms(3,6) by simp
  next
    case False
    have "table_lookup t' x = Some i \<longleftrightarrow> table_lookup t x = Some i" for i
      unfolding table_lookup_Some [OF assms(1)] table_lookup_Some [OF assms(2)] assms(3)
      using assms(4-6) False by auto
    then have "table_lookup t' x = table_lookup t x" by (metis not_None_eq)
    with False show ?thesis by simp
  qed
qed

text \<open>
  Inserting a tag that is not in the table: the table is full, or the tag gets a new entry with
  one reference and the map is updated.
\<close>

definition inserted :: "(BufferTag \<Rightarrow> nat) \<Rightarrow> mini_trans \<Rightarrow> BufferTag \<Rightarrow> nat \<Rightarrow> mini_trans \<Rightarrow> bool" where
  "inserted h t tag n t' \<longleftrightarrow> 0 < n \<and> n \<le> MINI_TRANSACTION_TABLE_SIZE \<and> n \<notin> entries t
     \<and> table_ok h t' \<and> entries t' = insert n (entries t) \<and> table_lookup t' = (table_lookup t)(tag \<mapsto> n)
     \<and> same_locks t t' n \<and> mi_refcount (entry t' n) = 1 \<and> \<not> mi_added (entry t' n)"

lemma new_entry:
  "node infos n = info_zero \<Longrightarrow> mini_trans_set_info (node infos n) tag
     = \<lparr>mi_tag = tag, mi_refcount = 1, mi_next = 0, mi_added = False\<rparr>"
  by (simp add: mini_trans_set_info_def info_zero_def)

lemma insert_home:
  assumes ok: "table_ok h t" and st: "started t" and none: "table_lookup t tag = None"
    and k: "h tag < MINI_TRANSACTION_TABLE_SIZE" "Suc (h tag) \<notin> entries t"
  shows "\<exists>t'. mini_trans_insert_tag t tag (h tag) = Inr (Suc (h tag), t') \<and> inserted h t tag (Suc (h tag)) t'"
proof -
  define n where "n = Suc (h tag)"
  let ?v = "\<lparr>mi_tag = tag, mi_refcount = 1, mi_next = 0, mi_added = False\<rparr>"
  define infos where "infos = node_set (mt_info t) n ?v"
  let ?t = "t\<lparr>mt_occupied := POLAR_BIT_OCCUPY (mt_occupied t) n, mt_info := infos\<rparr>"
  have len: "length (mt_info t) = MINI_TRANSACTION_TABLE_SIZE" by (rule table_okD(1) [OF ok])
  have n: "0 < n" "n \<le> MINI_TRANSACTION_TABLE_SIZE" "n \<notin> entries t" using k by (auto simp: n_def)
  have at: "node infos i = (if i = n then ?v else entry t i)" if "0 < i" for i
    using that n len by (simp add: infos_def node_node_set)
  have same: "node infos i = entry t i" if "i \<in> entries t" for i
    using at [of i] that n(3) table_okD(2) [OF ok that] by auto
  have len': "length infos = MINI_TRANSACTION_TABLE_SIZE" by (simp add: infos_def len)
  have new: "path infos n [n]" using at [OF n(1)] n len' by simp
  have "mini_trans_set_info (entry t n) tag = ?v" using new_entry table_okD(7) [OF ok n(3,1,2)] by simp
  then have eq: "mini_trans_insert_tag t tag (h tag) = Inr (n, ?t)"
    using st k len occupied_entries [of n t] node_access_Suc [of "h tag" "mt_info t"]
    by (simp add: mini_trans_insert_tag_def started_def infos_def n_def)
  have notag: "\<And>i. i \<in> entries t \<Longrightarrow> mi_tag (entry t i) \<noteq> tag" using none table_lookup_None [OF ok] by blast
  have ok': "table_ok h ?t"
  proof (rule table_ok_insert [OF ok n(3,1,2) len', where tag = tag])
    show "\<exists>ys. path infos i (xs @ ys) \<and> set ys \<subseteq> {n}"
      if "path (mt_info t) i xs" "set xs \<subseteq> entries t" for i xs
      using path_update_out [OF n(1) _ _ that(1), of ?v] that(2) n len
      by (intro exI [of _ "[]"]) (auto simp: infos_def)
    show "\<exists>xs. path infos (Suc (h tag)) xs \<and> n \<in> set xs"
      using new by (intro exI [of _ "[n]"]) (simp add: n_def)
    show "node infos i = info_zero" if "i \<notin> insert n (entries t)" "0 < i" "i \<le> MINI_TRANSACTION_TABLE_SIZE" for i
      using at [OF that(2)] table_okD(7) [OF ok _ that(2,3)] that(1) by simp
  qed (use same notag new at [OF n(1)] in \<open>auto simp: n_def\<close>)
  have e: "entries ?t = insert n (entries t)" using n by (intro entries_occupy)
  have "table_lookup ?t = (table_lookup t)(tag \<mapsto> n)"
    by (rule lookup_insert [OF ok ok' e n(3)]) (use same at [OF n(1)] in auto)
  moreover have "same_locks t ?t n" using same by (auto simp: same_locks_def)
  ultimately have "inserted h t tag n ?t" using ok' e n at [OF n(1)] by (simp add: inserted_def)
  with eq show ?thesis unfolding n_def by blast
qed

lemma insert_overflow:
  assumes ok: "table_ok h t" and st: "started t" and none: "table_lookup t tag = None"
    and k: "h tag < MINI_TRANSACTION_TABLE_SIZE" "Suc (h tag) \<in> entries t"
    and n: "find_empty (mt_occupied t) MINI_TRANSACTION_TABLE_SIZE = n" "0 < n"
  shows "\<exists>t'. mini_trans_insert_tag t tag (h tag) = Inr (n, t') \<and> inserted h t tag n t'"
proof -
  let ?v = "\<lparr>mi_tag = tag, mi_refcount = 1, mi_next = 0, mi_added = False\<rparr>"
  define infos1 where "infos1 = node_set (mt_info t) n ?v"
  have len: "length (mt_info t) = MINI_TRANSACTION_TABLE_SIZE" "length infos1 = MINI_TRANSACTION_TABLE_SIZE"
    using table_okD(1) [OF ok] by (simp_all add: infos1_def)
  have nb: "n \<le> MINI_TRANSACTION_TABLE_SIZE" "n \<notin> entries t"
    using find_empty_spec [OF n(1)] n(2) by (auto simp: entries_def)
  have at1: "node infos1 i = (if i = n then ?v else entry t i)" if "0 < i" for i
    using that n(2) nb(1) len by (simp add: infos1_def node_node_set)
  obtain xs where xs: "path (mt_info t) (Suc (h tag)) xs" "set xs \<subseteq> entries t"
    using table_okD(3) [OF ok k(2)] by blast
  have keep: "path infos1 i ys" if "path (mt_info t) i ys" "set ys \<subseteq> entries t" for i ys
    using path_update_out [OF n(2) _ _ that(1), of ?v] that(2) nb len by (auto simp: infos1_def)
  have "length xs < Suc MINI_TRANSACTION_TABLE_SIZE" using path_length [OF xs(1)] len by simp
  from last_in_chain_path [OF keep [OF xs] this] obtain l where
    l: "last_in_chain (Suc MINI_TRANSACTION_TABLE_SIZE) infos1 (h tag) = Inr (l - 1)" "l \<in> set xs"
      "mi_next (node infos1 l) = 0" by blast
  have le: "l \<in> entries t" using l(2) xs(2) by blast
  have lb: "0 < l" "l \<le> length infos1" using table_okD(2) [OF ok le] len by auto
  have nl: "n \<noteq> l" using nb(2) le by blast
  define infos where "infos = node_set infos1 l ((node infos1 l)\<lparr>mi_next := n\<rparr>)"
  let ?t = "t\<lparr>mt_occupied := POLAR_BIT_OCCUPY (mt_occupied t) n, mt_info := infos\<rparr>"
  have len': "length infos = MINI_TRANSACTION_TABLE_SIZE" by (simp add: infos_def len)
  have at: "node infos i = (if i = n then ?v else if i = l then (entry t l)\<lparr>mi_next := n\<rparr> else entry t i)"
    if "0 < i" for i
    using that lb nl at1 [OF that] at1 [OF lb(1)] at1 [OF n(2)] by (simp add: infos_def node_node_set)
  have same: "mi_tag (node infos i) = mi_tag (entry t i) \<and> mi_refcount (node infos i) = mi_refcount (entry t i)
      \<and> mi_added (node infos i) = mi_added (entry t i)" if "i \<in> entries t" for i
    using at [of i] that nb(2) table_okD(2) [OF ok that] by auto
  have occ: "POLAR_BIT_IS_OCCUPIED (mt_occupied t) (h tag + 1)"
    using occupied_entries [of "Suc (h tag)" t] k(2) by simp
  have acc: "aget (mt_info t) (n - 1) = Inr (entry t n)" "aset (mt_info t) (n - 1) ?v = Inr infos1"
    "aget infos1 (l - 1) = Inr (node infos1 l)"
    "aset infos1 (l - 1) ((node infos1 l)\<lparr>mi_next := n\<rparr>) = Inr infos"
    using node_access [OF n(2), of "mt_info t"] node_access [OF lb] nb(1) len(1)
    by (simp_all only: infos1_def infos_def)
  have "mini_trans_set_info (entry t n) tag = ?v"
    using new_entry table_okD(7) [OF ok nb(2) n(2) nb(1)] by blast
  then have eq: "mini_trans_insert_tag t tag (h tag) = Inr (n, ?t)"
    using st k(1) n l(1) occ acc
    by (simp add: mini_trans_insert_tag_def started_def Let_def
        del: last_in_chain.simps aget_in aset_in One_nat_def)
  have link: "path infos i (if l \<in> set ys then ys @ [n] else ys)"
    if "path (mt_info t) i ys" "set ys \<subseteq> entries t" for i ys
    unfolding infos_def
    by (rule path_link [OF lb l(3) n(2) _ _ nl keep [OF that]]) (use at1 [OF n(2)] len nb that(2) in auto)
  have notag: "\<And>i. i \<in> entries t \<Longrightarrow> mi_tag (entry t i) \<noteq> tag" using none table_lookup_None [OF ok] by blast
  have ok': "table_ok h ?t"
  proof (rule table_ok_insert [OF ok nb(2) n(2) nb(1) len', where tag = tag])
    show "\<exists>zs. path infos i (ys @ zs) \<and> set zs \<subseteq> {n}"
      if "path (mt_info t) i ys" "set ys \<subseteq> entries t" for i ys
    proof (cases "l \<in> set ys")
      case True
      with link [OF that] show ?thesis by (intro exI [of _ "[n]"]) simp
    next
      case False
      with link [OF that] show ?thesis by (intro exI [of _ "[]"]) simp
    qed
    show "\<exists>ys. path infos (Suc (h tag)) ys \<and> n \<in> set ys"
      using link [OF xs] l(2) by (intro exI [of _ "xs @ [n]"]) simp
    show "node infos i = info_zero" if "i \<notin> insert n (entries t)" "0 < i" "i \<le> MINI_TRANSACTION_TABLE_SIZE" for i
      using at [OF that(2)] table_okD(7) [OF ok _ that(2,3)] that(1) le by auto
    show "path infos n [n]" using at [OF n(2)] n(2) nb(1) len' by simp
  qed (use k same notag at [OF n(2)] in auto)
  have e: "entries ?t = insert n (entries t)" using n(2) nb(1) by (intro entries_occupy)
  have "table_lookup ?t = (table_lookup t)(tag \<mapsto> n)"
    by (rule lookup_insert [OF ok ok' e nb(2)]) (use same at [OF n(2)] in auto)
  moreover have "same_locks t ?t n" using same by (auto simp: same_locks_def)
  ultimately have "inserted h t tag n ?t" using ok' e n(2) nb at [OF n(2)] by (simp add: inserted_def)
  with eq show ?thesis by blast
qed

lemma insert_tag_spec:
  assumes ok: "table_ok h t" and st: "started t" and none: "table_lookup t tag = None"
    and k: "h tag < MINI_TRANSACTION_TABLE_SIZE"
  shows "if entries t = {1..MINI_TRANSACTION_TABLE_SIZE} then mini_trans_insert_tag t tag (h tag) = Inr (0, t)
    else \<exists>n t'. mini_trans_insert_tag t tag (h tag) = Inr (n, t') \<and> inserted h t tag n t'"
proof -
  let ?n = "find_empty (mt_occupied t) MINI_TRANSACTION_TABLE_SIZE"
  have full: "entries t = {1..MINI_TRANSACTION_TABLE_SIZE}" if "?n = 0"
  proof -
    have "\<forall>k < MINI_TRANSACTION_TABLE_SIZE. bit (mt_occupied t) k" using find_empty_spec [of "mt_occupied t"] that by blast
    then have "i \<in> entries t" if "i \<in> {1..MINI_TRANSACTION_TABLE_SIZE}" for i
      using that by (auto simp: entries_def)
    moreover have "entries t \<subseteq> {1..MINI_TRANSACTION_TABLE_SIZE}" using ok by (simp add: table_ok_def)
    ultimately show ?thesis by blast
  qed
  consider "Suc (h tag) \<notin> entries t" | "Suc (h tag) \<in> entries t" "?n = 0" | "Suc (h tag) \<in> entries t" "0 < ?n"
    by blast
  then show ?thesis
  proof cases
    case 1
    then have "entries t \<noteq> {1..MINI_TRANSACTION_TABLE_SIZE}" using k by auto
    with insert_home [OF ok st none k 1] show ?thesis by auto
  next
    case 2
    then show ?thesis using full st k occupied_entries [of "Suc (h tag)" t]
      by (simp add: mini_trans_insert_tag_def started_def)
  next
    case 3
    from insert_overflow [OF ok st none k 3(1) _ 3(2)] obtain t' where
      t': "mini_trans_insert_tag t tag (h tag) = Inr (?n, t')" "inserted h t tag ?n t'" by blast
    then have "entries t \<noteq> {1..MINI_TRANSACTION_TABLE_SIZE}" by (auto simp: inserted_def)
    with t' show ?thesis by auto
  qed
qed

end
