(* ===== verification/Mini_Transaction_Locks.thy ===== *)
theory Mini_Transaction_Locks
  imports Mini_Transaction_Table
begin

text \<open>
  The page locks of a mini transaction, on top of the table: what locking and unlocking a page
  do to the map and to the reference counts, that a lock identifies a page, and that the
  transaction ends only when no process holds a page lock.
\<close>

section \<open>The functional behaviour of the operations\<close>

lemma update_entry:
  assumes ok: "table_ok h t" and i: "i \<in> entries t" and v: "mi_tag v = mi_tag (entry t i)" "mi_next v = mi_next (entry t i)"
  defines "t' \<equiv> t\<lparr>mt_info := node_set (mt_info t) i v\<rparr>"
  shows "table_ok h t'" "entries t' = entries t" "table_lookup t' = table_lookup t"
    "j \<in> entries t \<Longrightarrow> entry t' j = (if j = i then v else entry t j)"
proof -
  have ib: "0 < i" "i \<le> length (mt_info t)" using table_okD(1,2) [OF ok] i by auto
  have at: "node (mt_info t') j = (if j = i then v else entry t j)" if "0 < j" for j
    unfolding t'_def using node_node_set [OF that ib] by simp
  then have at': "mi_tag (node (mt_info t') j) = mi_tag (entry t j)" "mi_next (node (mt_info t') j) = mi_next (entry t j)"
    if "0 < j" for j using that v by auto
  show e: "entries t' = entries t" by (simp add: entries_def t'_def)
  have pos: "0 < j" if "j \<in> entries t" for j using that by (simp add: entries_def)
  show "entry t' j = (if j = i then v else entry t j)" if "j \<in> entries t" using at [OF pos [OF that]] .
  have path: "path (mt_info t') j xs \<longleftrightarrow> path (mt_info t) j xs" for j xs
  proof (cases "\<forall>x \<in> set xs. 0 < x")
    case True
    then show ?thesis using at'(2) by (intro path_cong) (auto simp: t'_def)
  next
    case False
    then have "\<not> path (mt_info t') j xs" "\<not> path (mt_info t) j xs" using path_nodes by fastforce+
    then show ?thesis by blast
  qed
  have tag: "mi_tag (entry t' j) = mi_tag (entry t j)" if "j \<in> entries t" for j using at'(1) [OF pos [OF that]] .
  have rest: "entry t' j = info_zero" if "j \<in> {1..MINI_TRANSACTION_TABLE_SIZE} - entries t" for j
    using at [of j] that i table_okD(7) [OF ok, of j] by auto
  show "table_ok h t'"
    using ok tag rest unfolding table_ok_def e path by (simp add: t'_def) 
  then have some: "table_lookup t' x = Some k \<longleftrightarrow> table_lookup t x = Some k" for x k
    using ok tag e table_lookup_Some by auto
  show "table_lookup t' = table_lookup t"
  proof
    fix x
    show "table_lookup t' x = table_lookup t x" using some [of x] by (metis not_None_eq)
  qed
qed

text \<open>A process notes a lock it has taken, or forgets one.\<close>

definition take_lock :: "proc_occupied \<Rightarrow> nat \<Rightarrow> proc_occupied" where
  "take_lock po i = po\<lparr>po_trans := True, po_acquired := (po_acquired po)[i - 1 := True]\<rparr>"

definition drop_lock :: "proc_occupied \<Rightarrow> nat \<Rightarrow> proc_occupied" where
  "drop_lock po i = po\<lparr>po_acquired := (po_acquired po)[i - 1 := False]\<rparr>"

definition holds :: "proc_occupied \<Rightarrow> nat \<Rightarrow> bool" where
  "holds po i = po_acquired po ! (i - 1)"

lemma holds_take_drop:
  assumes "0 < i" "0 < j" "i \<le> length (po_acquired po)"
  shows "holds (take_lock po i) j \<longleftrightarrow> j = i \<or> holds po j" "holds (drop_lock po i) j \<longleftrightarrow> j \<noteq> i \<and> holds po j"
proof -
  have "i - 1 < length (po_acquired po)" "j = i \<or> i - 1 \<noteq> j - 1" using assms by linarith+
  then show "holds (take_lock po i) j \<longleftrightarrow> j = i \<or> holds po j" "holds (drop_lock po i) j \<longleftrightarrow> j \<noteq> i \<and> holds po j"
    by (auto simp: holds_def take_lock_def drop_lock_def simp del: One_nat_def)
qed

lemma length_take_drop [simp]:
  "length (po_acquired (take_lock po i)) = length (po_acquired po)"
  "length (po_acquired (drop_lock po i)) = length (po_acquired po)"
  by (simp_all add: take_lock_def drop_lock_def)

lemma note_acquired_take:
  "\<lbrakk>0 < i; i \<le> length (po_acquired po)\<rbrakk> \<Longrightarrow> note_acquired po i = Inr (take_lock po i)"
  by (simp add: note_acquired_def take_lock_def aset_def)

text \<open>Entry \<open>i\<close> is given to \<open>tag\<close> once more: it was the entry of \<open>tag\<close>, or a free one.\<close>

definition locked :: "(BufferTag \<Rightarrow> nat) \<Rightarrow> mini_trans \<Rightarrow> BufferTag \<Rightarrow> nat \<Rightarrow> mini_trans \<Rightarrow> bool" where
  "locked h t tag i t' \<longleftrightarrow> 0 < i \<and> i \<le> MINI_TRANSACTION_TABLE_SIZE \<and> table_ok h t' \<and> same_locks t t' i
     \<and> entries t' = insert i (entries t) \<and> table_lookup t' = (table_lookup t)(tag \<mapsto> i)
     \<and> (if i \<in> entries t then table_lookup t tag = Some i \<and> mi_refcount (entry t' i) = mi_refcount (entry t i) + 1
        else table_lookup t tag = None \<and> mi_refcount (entry t' i) = 1)"

lemma increase_ref_spec:
  assumes ok: "table_ok h t" and st: "started t"
  shows "case table_lookup t tag of
      None \<Rightarrow> mini_trans_increase_ref t tag (h tag) = Inr (0, t)
    | Some i \<Rightarrow> \<exists>t'. mini_trans_increase_ref t tag (h tag) = Inr (i, t') \<and> locked h t tag i t'"
proof (cases "table_lookup t tag")
  case None
  then show ?thesis
    using find_is_lookup [OF ok st, of tag] by (simp add: mini_trans_increase_ref_def POLAR_INVALID_PAGE_LOCK_def)
next
  case (Some i)
  then have i: "i \<in> entries t" "mi_tag (entry t i) = tag" using table_lookup_Some [OF ok] by auto
  then have ib: "0 < i" "i \<le> MINI_TRANSACTION_TABLE_SIZE" using table_okD(2) [OF ok] by blast+
  define t' where "t' = t\<lparr>mt_info := node_set (mt_info t) i ((entry t i)\<lparr>mi_refcount := mi_refcount (entry t i) + 1\<rparr>)\<rparr>"
  note up = update_entry [OF ok i(1), where v = "(entry t i)\<lparr>mi_refcount := mi_refcount (entry t i) + 1\<rparr>", folded t'_def]
  have "locked h t tag i t'"
    unfolding locked_def same_locks_def using up ib i Some by (auto simp: t'_def)
  moreover have "mini_trans_increase_ref t tag (h tag) = Inr (i, t')"
    using find_is_lookup [OF ok st, of tag] Some ib node_access [of i "mt_info t"] table_okD(1) [OF ok]
    by (simp add: mini_trans_increase_ref_def POLAR_INVALID_PAGE_LOCK_def t'_def del: One_nat_def)
  ultimately show ?thesis using Some by auto
qed

lemma inserted_locked: "\<lbrakk>inserted h t tag n t'; table_lookup t tag = None\<rbrakk> \<Longrightarrow> locked h t tag n t'"
  by (simp add: inserted_def locked_def)

text \<open>Locking a page fails only when the page is new and the table is full.\<close>

lemma key_lock_spec:
  assumes ok: "table_ok h t" and st: "started t" and k: "h tag < MINI_TRANSACTION_TABLE_SIZE"
    and po: "length (po_acquired po) = MINI_TRANSACTION_TABLE_SIZE"
  shows "if table_lookup t tag = None \<and> entries t = {1..MINI_TRANSACTION_TABLE_SIZE}
    then polar_logindex_mini_trans_key_lock t po tag (h tag) = Inr (0, None, t, po)
    else \<exists>i t'. polar_logindex_mini_trans_key_lock t po tag (h tag) = Inr (i, Some (mt_lsn t), t', take_lock po i)
      \<and> locked h t tag i t'"
proof (cases "table_lookup t tag")
  case None
  then have inc: "mini_trans_increase_ref t tag (h tag) = Inr (0, t)" using increase_ref_spec [OF ok st, of tag] by simp
  show ?thesis
  proof (cases "entries t = {1..MINI_TRANSACTION_TABLE_SIZE}")
    case True
    then show ?thesis using inc None insert_tag_spec [OF ok st None k]
      by (simp add: polar_logindex_mini_trans_key_lock_def POLAR_INVALID_PAGE_LOCK_def)
  next
    case False
    then obtain n t' where n: "mini_trans_insert_tag t tag (h tag) = Inr (n, t')" "inserted h t tag n t'"
      using insert_tag_spec [OF ok st None k] by auto
    note l = inserted_locked [OF n(2) None]
    then have "note_acquired po n = Inr (take_lock po n)" "n \<noteq> 0" "mt_lsn t' = mt_lsn t"
      using note_acquired_take [of n po] po by (auto simp: locked_def same_locks_def)
    then show ?thesis using inc n(1) l False
      by (auto simp: polar_logindex_mini_trans_key_lock_def POLAR_INVALID_PAGE_LOCK_def)
  qed
next
  case (Some i)
  then obtain t' where t': "mini_trans_increase_ref t tag (h tag) = Inr (i, t')" "locked h t tag i t'"
    using increase_ref_spec [OF ok st, of tag] by auto
  then have "note_acquired po i = Inr (take_lock po i)" "i \<noteq> 0" "mt_lsn t' = mt_lsn t"
    using note_acquired_take [of i po] po by (auto simp: locked_def same_locks_def)
  then show ?thesis using Some t'
    by (auto simp: polar_logindex_mini_trans_key_lock_def POLAR_INVALID_PAGE_LOCK_def)
qed

abbreviation "hash_page \<equiv> MINI_TRANSACTION_HASH_PAGE"

lemma hash_page_less: "hash_page tag_hash tag < MINI_TRANSACTION_TABLE_SIZE"
  by (simp add: MINI_TRANSACTION_HASH_PAGE_def MINI_TRANSACTION_TABLE_SIZE_def MINI_TRANSACTION_HASH_SIZE_def
      order_less_le_trans [OF mod_less_divisor])

lemma not_started_find: "\<not> started t \<Longrightarrow> mini_trans_find t tag key = Inl (PANIC ''The mini transaction lsn is not set'')"
  by (auto simp: mini_trans_find_def started_def)

lemma lock_spec:
  assumes ok: "table_ok (hash_page tag_hash) t" and st: "started t"
    and po: "length (po_acquired po) = MINI_TRANSACTION_TABLE_SIZE"
  shows "if table_lookup t tag = None \<and> entries t = {1..MINI_TRANSACTION_TABLE_SIZE}
    then polar_logindex_mini_trans_lock tag_hash t po tag = Inl (PANIC ''The mini transaction hash table is full'')
    else \<exists>i t'. polar_logindex_mini_trans_lock tag_hash t po tag = Inr (i, Some (mt_lsn t), t', take_lock po i)
      \<and> locked (hash_page tag_hash) t tag i t'"
proof (cases "table_lookup t tag = None \<and> entries t = {1..MINI_TRANSACTION_TABLE_SIZE}")
  case True
  then show ?thesis using key_lock_spec [OF ok st hash_page_less po, of tag]
    by (simp add: polar_logindex_mini_trans_lock_def POLAR_INVALID_PAGE_LOCK_def)
next
  case False
  then obtain i t' where i: "polar_logindex_mini_trans_key_lock t po tag (hash_page tag_hash tag)
      = Inr (i, Some (mt_lsn t), t', take_lock po i)" "locked (hash_page tag_hash) t tag i t'"
    using key_lock_spec [OF ok st hash_page_less po, of tag] unfolding if_not_P [OF False] by blast
  then have "i \<noteq> 0" by (simp add: locked_def)
  then have "polar_logindex_mini_trans_lock tag_hash t po tag = Inr (i, Some (mt_lsn t), t', take_lock po i)"
    using i(1) by (simp add: polar_logindex_mini_trans_lock_def POLAR_INVALID_PAGE_LOCK_def)
  with i(2) show ?thesis unfolding if_not_P [OF False] by blast
qed

lemma lock_not_started:
  "\<not> started t \<Longrightarrow> polar_logindex_mini_trans_lock tag_hash t po tag = Inl (PANIC ''The mini transaction lsn is not set'')"
  by (simp add: polar_logindex_mini_trans_lock_def polar_logindex_mini_trans_key_lock_def
      mini_trans_increase_ref_def not_started_find)

lemma cond_lock_spec:
  assumes ok: "table_ok (hash_page tag_hash) t" and po: "length (po_acquired po) = MINI_TRANSACTION_TABLE_SIZE"
  shows "case (if started t then table_lookup t tag else None) of
      None \<Rightarrow> polar_logindex_mini_trans_cond_lock tag_hash t po tag = Inr (0, None, t, po)
    | Some i \<Rightarrow> \<exists>t'. polar_logindex_mini_trans_cond_lock tag_hash t po tag = Inr (i, Some (mt_lsn t), t', take_lock po i)
        \<and> locked (hash_page tag_hash) t tag i t'"
proof (cases "started t \<and> table_lookup t tag \<noteq> None")
  case True
  then obtain i where i: "table_lookup t tag = Some i" and st: "started t" by auto
  then obtain t' where t': "mini_trans_increase_ref t tag (hash_page tag_hash tag) = Inr (i, t')"
      "locked (hash_page tag_hash) t tag i t'"
    using increase_ref_spec [OF ok, of tag] by auto
  then have "note_acquired po i = Inr (take_lock po i)" "i \<noteq> 0" "mt_lsn t' = mt_lsn t"
    using note_acquired_take [of i po] po by (auto simp: locked_def same_locks_def)
  then show ?thesis using i t' st
    by (auto simp: polar_logindex_mini_trans_cond_lock_def polar_logindex_mini_trans_cond_key_lock_def
        started_def POLAR_INVALID_PAGE_LOCK_def)
next
  case False
  then show ?thesis using increase_ref_spec [OF ok, of tag]
    by (auto simp: polar_logindex_mini_trans_cond_lock_def polar_logindex_mini_trans_cond_key_lock_def
        started_def POLAR_INVALID_PAGE_LOCK_def)
qed

text \<open>Giving a lock back.\<close>

definition unlocked :: "(BufferTag \<Rightarrow> nat) \<Rightarrow> mini_trans \<Rightarrow> nat \<Rightarrow> mini_trans \<Rightarrow> bool" where
  "unlocked h t i t' \<longleftrightarrow> table_ok h t' \<and> same_locks t t' i \<and> entries t' = entries t
     \<and> table_lookup t' = table_lookup t \<and> mi_refcount (entry t' i) + 1 = mi_refcount (entry t i)
     \<and> mi_added (entry t' i) = mi_added (entry t i)"

lemma unlock_spec:
  assumes ok: "table_ok h t" and i: "i \<in> entries t" "mi_refcount (entry t i) > 0"
    and po: "length (po_acquired po) = MINI_TRANSACTION_TABLE_SIZE" "po_trans po" "holds po i"
  shows "\<exists>t'. polar_logindex_mini_trans_unlock t po i = Inr (t', drop_lock po i) \<and> unlocked h t i t'"
proof -
  have ib: "0 < i" "i \<le> MINI_TRANSACTION_TABLE_SIZE" using table_okD(2) [OF ok] i by blast+
  define t' where "t' = t\<lparr>mt_info := node_set (mt_info t) i ((entry t i)\<lparr>mi_refcount := mi_refcount (entry t i) - 1\<rparr>)\<rparr>"
  note up = update_entry [OF ok i(1), where v = "(entry t i)\<lparr>mi_refcount := mi_refcount (entry t i) - 1\<rparr>", folded t'_def]
  have "unlocked h t i t'"
    unfolding unlocked_def same_locks_def using up ib i by (auto simp: t'_def)
  moreover have "aget (po_acquired po) (i - 1) = Inr True"
      "aset (po_acquired po) (i - 1) False = Inr ((po_acquired po)[i - 1 := False])"
    using po ib by (auto simp: aget_def aset_def holds_def)
  then have "polar_logindex_mini_trans_unlock t po i = Inr (t', drop_lock po i)"
    using ib i po(2) node_access [of i "mt_info t"] table_okD(1) [OF ok] occupied_entries [OF ib(1), of t]
    by (simp add: polar_logindex_mini_trans_unlock_def POLAR_INVALID_PAGE_LOCK_def t'_def drop_lock_def
        del: One_nat_def)
  ultimately show ?thesis by blast
qed

lemma unlock_Inr_holds:
  "polar_logindex_mini_trans_unlock t po i = Inr x \<Longrightarrow> 0 < i \<and> i \<le> MINI_TRANSACTION_TABLE_SIZE \<and> po_trans po \<and> holds po i"
  by (auto simp: polar_logindex_mini_trans_unlock_def POLAR_INVALID_PAGE_LOCK_def holds_def aget_def
      rbind_def split: if_splits sum.splits)

text \<open>Waiting for the locks, and clearing the table.\<close>

lemma positions_entries: "set (occupied_positions (mt_occupied t)) = entries t"
proof -
  have "i \<in> {Suc n |n. bit (mt_occupied t) n} \<longleftrightarrow> i \<in> entries t" for i
    by (cases i) (auto simp: entries_def)
  then show ?thesis unfolding set_occupied_positions by blast
qed

lemma all_unlocked_iff:
  "set ps \<subseteq> {1..length infos} \<Longrightarrow> all_unlocked infos ps = Inr (\<forall>p \<in> set ps. mi_refcount (node infos p) = 0)"
  using node_access(1) by (induction ps) (auto simp del: One_nat_def)

lemma clear_entries_node:
  "set ps \<subseteq> {1..length infos} \<Longrightarrow> \<exists>infos'. clear_entries infos ps = Inr infos' \<and> length infos' = length infos
     \<and> (\<forall>i. 0 < i \<longrightarrow> node infos' i = (if i \<in> set ps then info_zero else node infos i))"
proof (induction ps arbitrary: infos)
  case (Cons p ps)
  then have p: "0 < p" "p \<le> length infos" by auto
  obtain infos' where "clear_entries (node_set infos p info_zero) ps = Inr infos'" "length infos' = length infos"
      "\<And>i. 0 < i \<Longrightarrow> node infos' i = (if i \<in> set ps then info_zero else node (node_set infos p info_zero) i)"
    using Cons.IH [of "node_set infos p info_zero"] Cons.prems by auto
  then show ?case using node_access(2) [OF p] node_node_set [OF _ p] by (auto simp del: One_nat_def)
qed simp

lemma clear_entries_all:
  assumes ok: "table_ok h t"
  shows "clear_entries (mt_info t) (occupied_positions (mt_occupied t)) = Inr (mt_info mini_trans_init)"
proof -
  have sub: "entries t \<subseteq> {1..length (mt_info t)}" using table_okD(1,2) [OF ok] by fastforce
  then obtain infos' where c: "clear_entries (mt_info t) (occupied_positions (mt_occupied t)) = Inr infos'"
      "length infos' = length (mt_info t)" "\<And>i. 0 < i \<Longrightarrow> node infos' i = (if i \<in> entries t then info_zero else entry t i)"
    using clear_entries_node [of "occupied_positions (mt_occupied t)" "mt_info t"] positions_entries [of t] by auto
  have "infos' ! k = info_zero" if "k < MINI_TRANSACTION_TABLE_SIZE" for k
    using c(3) [of "Suc k"] table_okD(7) [OF ok, of "Suc k"] that by (auto simp: node_def split: if_splits)
  then have "infos' = replicate MINI_TRANSACTION_TABLE_SIZE info_zero"
    using c(2) table_okD(1) [OF ok] by (intro nth_equalityI) auto
  then show ?thesis using c(1) by (simp add: mini_trans_init_def)
qed

lemma table_ok_cong:
  "mt_occupied t' = mt_occupied t \<Longrightarrow> mt_info t' = mt_info t \<Longrightarrow> table_ok h t' = table_ok h t"
  by (simp add: table_ok_def entries_def)

text \<open>One turn of the end of a transaction: it succeeds if and only if no lock is referenced.\<close>

lemma end_turn:
  assumes ok: "table_ok h t"
  shows "polar_logindex_mini_trans_end 1 env t (mt_lsn t)
    = Inr (if \<forall>i \<in> entries t. mi_refcount (entry t i) = 0 then Some mini_trans_init else None)"
proof -
  have sub: "set (occupied_positions (mt_occupied t)) \<subseteq> {1..length (mt_info t)}"
    using table_okD(1,2) [OF ok] positions_entries [of t] by fastforce
  show ?thesis
    using all_unlocked_iff [OF sub] clear_entries_all [OF ok] positions_entries [of t]
    by (simp add: polar_logindex_mini_trans_end_def) (simp add: mini_trans_init_def)
qed

section \<open>A lock identifies a page\<close>

text \<open>
  What the code that locks pages relies on: a known page gets the lock it has, a new one gets a
  lock no other page has, as long as there are fewer pages than locks.
\<close>

locale page_lock_table =
  fixes lock_inv :: "'s \<Rightarrow> bool"
    and lock_of :: "'s \<Rightarrow> 'k \<Rightarrow> nat option"
    and acquire :: "'s \<Rightarrow> 'k \<Rightarrow> (nat \<times> 's) result"
    and capacity :: nat
  assumes finite_pages: "lock_inv s \<Longrightarrow> finite (dom (lock_of s))"
    and lock_inj: "lock_inv s \<Longrightarrow> inj_on (lock_of s) (dom (lock_of s))"
    and acquire_step: "\<lbrakk>lock_inv s; k \<in> dom (lock_of s) \<or> card (dom (lock_of s)) < capacity\<rbrakk>
      \<Longrightarrow> \<exists>l s'. acquire s k = Inr (l, s') \<and> lock_inv s' \<and> lock_of s' = (lock_of s)(k \<mapsto> l)
          \<and> (k \<in> dom (lock_of s) \<longrightarrow> lock_of s k = Some l)"
begin

fun acquire_all :: "'s \<Rightarrow> 'k list \<Rightarrow> (nat list \<times> 's) result" where
  "acquire_all s [] = Inr ([], s)"
| "acquire_all s (k # ks) =
     rbind (acquire s k) (\<lambda>(l, s). rbind (acquire_all s ks) (\<lambda>(ls, s). Inr (l # ls, s)))"

lemma acquire_all_ok:
  assumes "lock_inv s" "card (dom (lock_of s) \<union> set ks) \<le> capacity"
  shows "\<exists>ls s'. acquire_all s ks = Inr (ls, s') \<and> lock_inv s' \<and> map Some ls = map (lock_of s') ks
    \<and> lock_of s \<subseteq>\<^sub>m lock_of s' \<and> dom (lock_of s') = dom (lock_of s) \<union> set ks"
  using assms
proof (induction ks arbitrary: s)
  case (Cons k ks)
  have "card (insert k (dom (lock_of s))) \<le> capacity"
    using Cons.prems(2) by (rule order_trans [rotated]) (use finite_pages [OF Cons.prems(1)] in \<open>auto intro!: card_mono\<close>)
  then have "k \<in> dom (lock_of s) \<or> card (dom (lock_of s)) < capacity"
    using finite_pages [OF Cons.prems(1)] by (cases "k \<in> dom (lock_of s)") auto
  then obtain l s1 where s1: "acquire s k = Inr (l, s1)" "lock_inv s1" "lock_of s1 = (lock_of s)(k \<mapsto> l)"
      "k \<in> dom (lock_of s) \<longrightarrow> lock_of s k = Some l"
    using acquire_step [OF Cons.prems(1)] by blast
  have d: "dom (lock_of s1) \<union> set ks = dom (lock_of s) \<union> set (k # ks)" using s1(3) by auto
  then obtain ls s' where ls: "acquire_all s1 ks = Inr (ls, s')" "lock_inv s'" "map Some ls = map (lock_of s') ks"
      "lock_of s1 \<subseteq>\<^sub>m lock_of s'" "dom (lock_of s') = dom (lock_of s1) \<union> set ks"
    using Cons.IH [OF s1(2)] Cons.prems(2) by auto
  have "lock_of s1 k = Some l" "lock_of s \<subseteq>\<^sub>m lock_of s1" using s1(3,4) by (auto simp: map_le_def)
  then have "lock_of s' k = Some l" "lock_of s \<subseteq>\<^sub>m lock_of s'"
    using ls(4) map_le_trans [of "lock_of s" "lock_of s1" "lock_of s'"] by (auto simp: map_le_def dest: bspec [OF _ domI])
  then show ?case using s1(1) ls d by auto
qed (simp add: map_le_def)

lemma acquire_all_locks:
  assumes "lock_inv s" "card (dom (lock_of s) \<union> set ks) \<le> capacity"
  shows "\<exists>ls s'. acquire_all s ks = Inr (ls, s') \<and> lock_inv s' \<and> length ls = length ks
    \<and> (\<forall>i < length ks. \<forall>j < length ks. ls ! i = ls ! j \<longleftrightarrow> ks ! i = ks ! j)"
proof -
  obtain ls s' where ls: "acquire_all s ks = Inr (ls, s')" "lock_inv s'" "map Some ls = map (lock_of s') ks"
      "dom (lock_of s') = dom (lock_of s) \<union> set ks"
    using acquire_all_ok [OF assms] by blast
  have len: "length ls = length ks" using arg_cong [OF ls(3), of length] by simp
  have l: "lock_of s' (ks ! i) = Some (ls ! i)" if "i < length ks" for i
    using arg_cong [OF ls(3), of "\<lambda>xs. xs ! i"] that len by simp
  have "ls ! i = ls ! j \<longleftrightarrow> ks ! i = ks ! j" if "i < length ks" "j < length ks" for i j
    using l [OF that(1)] l [OF that(2)] inj_onD [OF lock_inj [OF ls(2)], of "ks ! i" "ks ! j"] by auto
  with ls(1,2) len show ?thesis by blast
qed

end

text \<open>The instance: a started transaction and the process that locks the pages.\<close>

definition locks_inv :: "(BufferTag \<Rightarrow> uint32) \<Rightarrow> mini_trans \<times> proc_occupied \<Rightarrow> bool" where
  "locks_inv tag_hash s \<longleftrightarrow> table_ok (hash_page tag_hash) (fst s) \<and> started (fst s)
     \<and> length (po_acquired (snd s)) = MINI_TRANSACTION_TABLE_SIZE"

definition lock_page :: "(BufferTag \<Rightarrow> uint32) \<Rightarrow> mini_trans \<times> proc_occupied \<Rightarrow> BufferTag
  \<Rightarrow> (nat \<times> mini_trans \<times> proc_occupied) result" where
  "lock_page tag_hash s tag =
     rbind (polar_logindex_mini_trans_lock tag_hash (fst s) (snd s) tag) (\<lambda>(l, lsn, t, po). Inr (l, t, po))"

lemma dom_lookup:
  assumes ok: "table_ok h t"
  shows "dom (table_lookup t) = (\<lambda>i. mi_tag (entry t i)) ` entries t"
    and "finite (dom (table_lookup t))" and "card (dom (table_lookup t)) = card (entries t)"
    and "inj_on (table_lookup t) (dom (table_lookup t))"
proof -
  show d: "dom (table_lookup t) = (\<lambda>i. mi_tag (entry t i)) ` entries t"
    using table_lookup_Some [OF ok] by (auto simp: dom_def image_iff)
  have fin: "finite (entries t)" using ok finite_subset by (auto simp: table_ok_def)
  then show "finite (dom (table_lookup t))" by (simp add: d)
  show "card (dom (table_lookup t)) = card (entries t)"
    unfolding d using table_okD(6) [OF ok] by (intro card_image inj_onI) blast
  show "inj_on (table_lookup t) (dom (table_lookup t))"
    using table_lookup_Some [OF ok] by (intro inj_onI) (metis domD)
qed

interpretation mini_locks: page_lock_table "locks_inv tag_hash" "\<lambda>s. table_lookup (fst s)"
  "lock_page tag_hash" MINI_TRANSACTION_TABLE_SIZE
proof
  fix s :: "mini_trans \<times> proc_occupied" and k
  assume inv: "locks_inv tag_hash s"
  then have ok: "table_ok (hash_page tag_hash) (fst s)" "started (fst s)"
      "length (po_acquired (snd s)) = MINI_TRANSACTION_TABLE_SIZE" by (auto simp: locks_inv_def)
  show "finite (dom (table_lookup (fst s)))" "inj_on (table_lookup (fst s)) (dom (table_lookup (fst s)))"
    using dom_lookup [OF ok(1)] by auto
  assume k: "k \<in> dom (table_lookup (fst s)) \<or> card (dom (table_lookup (fst s))) < MINI_TRANSACTION_TABLE_SIZE"
  then have room: "\<not> (table_lookup (fst s) k = None \<and> entries (fst s) = {1..MINI_TRANSACTION_TABLE_SIZE})"
    using dom_lookup(3) [OF ok(1)] by (auto simp: domIff)
  obtain i t' where l: "polar_logindex_mini_trans_lock tag_hash (fst s) (snd s) k
      = Inr (i, Some (mt_lsn (fst s)), t', take_lock (snd s) i)" "locked (hash_page tag_hash) (fst s) k i t'"
    using lock_spec [OF ok, of k] unfolding if_not_P [OF room] by blast
  then have "locks_inv tag_hash (t', take_lock (snd s) i)"
    using ok by (simp add: locks_inv_def locked_def same_locks_def started_def)
  then show "\<exists>l s'. lock_page tag_hash s k = Inr (l, s') \<and> locks_inv tag_hash s'
      \<and> table_lookup (fst s') = (table_lookup (fst s))(k \<mapsto> l)
      \<and> (k \<in> dom (table_lookup (fst s)) \<longrightarrow> table_lookup (fst s) k = Some l)"
    using l by (intro exI [of _ i] exI [of _ "(t', take_lock (snd s) i)"])
      (auto simp: lock_page_def locked_def split: if_splits)
qed

text \<open>Locking the pages of a record one after the other.\<close>

fun lock_pages :: "(BufferTag \<Rightarrow> uint32) \<Rightarrow> mini_trans \<Rightarrow> proc_occupied \<Rightarrow> BufferTag list
  \<Rightarrow> (nat list \<times> mini_trans \<times> proc_occupied) result" where
  "lock_pages tag_hash t po [] = Inr ([], t, po)"
| "lock_pages tag_hash t po (tag # tags) =
     rbind (polar_logindex_mini_trans_lock tag_hash t po tag) (\<lambda>(l, lsn, t, po).
     rbind (lock_pages tag_hash t po tags) (\<lambda>(ls, t, po). Inr (l # ls, t, po)))"

lemma lock_pages_acquire_all: "lock_pages tag_hash t po tags = mini_locks.acquire_all tag_hash (t, po) tags"
proof (induction tags arbitrary: t po)
  case (Cons tag tags)
  show ?case
  proof (cases "polar_logindex_mini_trans_lock tag_hash t po tag")
    case (Inl e)
    then have "lock_page tag_hash (t, po) tag = Inl e" by (simp add: lock_page_def)
    then show ?thesis using Inl by simp
  next
    case (Inr r)
    then have "lock_page tag_hash (t, po) tag = Inr (fst r, snd (snd r))" by (simp add: lock_page_def split_def)
    then show ?thesis using Inr Cons.IH by (simp add: split_def)
  qed
qed simp

section \<open>The processes of a transaction\<close>

text \<open>
  The transaction and the processes that use it. A process never takes a lock it has: it would
  wait for itself. Ending the transaction is two steps, as its two critical sections are: closing
  it, after which no page can be locked, and the turn of its loop that finds all locks free.
\<close>

type_synonym mini_system = "mini_trans \<times> proc_occupied list"

inductive mini_step :: "(BufferTag \<Rightarrow> uint32) \<Rightarrow> mini_system \<Rightarrow> mini_system \<Rightarrow> bool" for tag_hash where
  start: "\<lbrakk>polar_logindex_mini_trans_start t lsn = Inr t'\<rbrakk> \<Longrightarrow> mini_step tag_hash (t, ps) (t', ps)"
| lock: "\<lbrakk>p < length ps; polar_logindex_mini_trans_lock tag_hash t (ps ! p) tag = Inr (l, x, t', po);
    \<not> holds (ps ! p) l\<rbrakk> \<Longrightarrow> mini_step tag_hash (t, ps) (t', ps[p := po])"
| cond_lock: "\<lbrakk>p < length ps; polar_logindex_mini_trans_cond_lock tag_hash t (ps ! p) tag = Inr (l, x, t', po);
    l \<noteq> POLAR_INVALID_PAGE_LOCK \<longrightarrow> \<not> holds (ps ! p) l\<rbrakk> \<Longrightarrow> mini_step tag_hash (t, ps) (t', ps[p := po])"
| unlock: "\<lbrakk>p < length ps; polar_logindex_mini_trans_unlock t (ps ! p) l = Inr (t', po)\<rbrakk>
    \<Longrightarrow> mini_step tag_hash (t, ps) (t', ps[p := po])"
| abort: "\<lbrakk>p < length ps; polar_logindex_abort_mini_transaction t (ps ! p) = Inr (t', po)\<rbrakk>
    \<Longrightarrow> mini_step tag_hash (t, ps) (t', ps[p := po])"
| added: "\<lbrakk>polar_logindex_mini_trans_set_page_added t l = Inr t'\<rbrakk> \<Longrightarrow> mini_step tag_hash (t, ps) (t', ps)"
| close: "mini_step tag_hash (t, ps) (t\<lparr>mt_started := False\<rparr>, ps)"
| finish: "\<lbrakk>polar_logindex_mini_trans_end 1 env t (mt_lsn t) = Inr (Some t')\<rbrakk> \<Longrightarrow> mini_step tag_hash (t, ps) (t', ps)"

definition proc_init :: proc_occupied where
  "proc_init = \<lparr>po_trans = False, po_acquired = replicate MINI_TRANSACTION_TABLE_SIZE False\<rparr>"

abbreviation mini_reachable :: "(BufferTag \<Rightarrow> uint32) \<Rightarrow> nat \<Rightarrow> mini_system \<Rightarrow> bool" where
  "mini_reachable tag_hash n s \<equiv> (mini_step tag_hash)\<^sup>*\<^sup>* (mini_trans_init, replicate n proc_init) s"

text \<open>The invariant: the reference count of an entry is the number of processes that hold it.\<close>

definition holders :: "proc_occupied list \<Rightarrow> nat \<Rightarrow> nat" where
  "holders ps i = length (filter (\<lambda>po. holds po i) ps)"

definition proc_ok :: "mini_trans \<Rightarrow> proc_occupied \<Rightarrow> bool" where
  "proc_ok t po \<longleftrightarrow> length (po_acquired po) = MINI_TRANSACTION_TABLE_SIZE
     \<and> (\<forall>i \<in> {1..MINI_TRANSACTION_TABLE_SIZE}. holds po i \<longrightarrow> i \<in> entries t \<and> po_trans po)"

definition system_ok :: "(BufferTag \<Rightarrow> uint32) \<Rightarrow> mini_system \<Rightarrow> bool" where
  "system_ok tag_hash s \<longleftrightarrow> table_ok (hash_page tag_hash) (fst s) \<and> (\<forall>po \<in> set (snd s). proc_ok (fst s) po)
     \<and> (\<forall>i \<in> entries (fst s). mi_refcount (entry (fst s) i) = holders (snd s) i)"

lemma system_okD:
  assumes "system_ok tag_hash (t, ps)"
  shows "table_ok (hash_page tag_hash) t" "p < length ps \<Longrightarrow> proc_ok t (ps ! p)"
    "i \<in> entries t \<Longrightarrow> mi_refcount (entry t i) = holders ps i"
  using assms by (auto simp: system_ok_def)

lemma holders_update:
  "p < length ps \<Longrightarrow> holders (ps[p := po]) i + (if holds (ps ! p) i then 1 else 0) = holders ps i + (if holds po i then 1 else 0)"
  unfolding holders_def by (rule length_filter_update)

lemma holders_zero: "holders ps i = 0 \<longleftrightarrow> (\<forall>po \<in> set ps. \<not> holds po i)"
  by (simp add: holders_def filter_empty_conv)

lemma system_ok_locked:
  assumes ok: "system_ok tag_hash (t, ps)" and p: "p < length ps" and l: "locked (hash_page tag_hash) t tag i t'"
    and free: "\<not> holds (ps ! p) i"
  shows "system_ok tag_hash (t', ps[p := take_lock (ps ! p) i])"
proof -
  note l' = l [unfolded locked_def]
  have len: "length (po_acquired po) = MINI_TRANSACTION_TABLE_SIZE" if "po \<in> set ps" for po
    using ok that by (auto simp: system_ok_def proc_ok_def)
  have hp: "holds (take_lock (ps ! p) i) j \<longleftrightarrow> j = i \<or> holds (ps ! p) j" if "0 < j" for j
    using holds_take_drop(1) [of i j "ps ! p"] len [OF nth_mem [OF p]] l' that by auto
  have cnt: "holders (ps[p := take_lock (ps ! p) i]) j = holders ps j + (if j = i then 1 else 0)" if "0 < j" for j
    using holders_update [OF p, of "take_lock (ps ! p) i" j] hp [OF that] free by (auto split: if_splits)
  have new: "holders ps i = 0" if "i \<notin> entries t"
    using ok that l' unfolding holders_zero by (auto simp: system_ok_def proc_ok_def)
  have "proc_ok t' (take_lock (ps ! p) i)"
    using system_okD(2) [OF ok p] hp l' by (auto simp: proc_ok_def take_lock_def)
  moreover have "proc_ok t' po" if "po \<in> set ps" for po
    using ok that l' by (auto simp: system_ok_def proc_ok_def)
  moreover have "mi_refcount (entry t' j) = holders (ps[p := take_lock (ps ! p) i]) j" if "j \<in> entries t'" for j
  proof -
    have j: "0 < j" using that by (simp add: entries_def)
    show ?thesis
    proof (cases "j = i")
      case True
      then show ?thesis using cnt [OF j] l' new system_okD(3) [OF ok, of i] by (auto split: if_splits)
    next
      case False
      then have "j \<in> entries t - {i}" using that l' by auto
      then show ?thesis using cnt [OF j] l' system_okD(3) [OF ok, of j] False by (auto simp: same_locks_def)
    qed
  qed
  ultimately show ?thesis
    using l' set_update_subset_insert [of ps p] by (auto simp: system_ok_def)
qed

lemma system_ok_unlocked:
  assumes ok: "system_ok tag_hash (t, ps)" and p: "p < length ps" and u: "unlocked (hash_page tag_hash) t i t'"
    and i: "i \<in> entries t" "holds (ps ! p) i"
  shows "system_ok tag_hash (t', ps[p := drop_lock (ps ! p) i])"
proof -
  note u' = u [unfolded unlocked_def]
  have ib: "0 < i" "i \<le> MINI_TRANSACTION_TABLE_SIZE" using table_okD(2) [OF system_okD(1) [OF ok] i(1)] by auto
  have len: "length (po_acquired (ps ! p)) = MINI_TRANSACTION_TABLE_SIZE"
    using system_okD(2) [OF ok p] by (simp add: proc_ok_def)
  have hp: "holds (drop_lock (ps ! p) i) j \<longleftrightarrow> j \<noteq> i \<and> holds (ps ! p) j" if "0 < j" for j
    using holds_take_drop(2) [OF ib(1) that, of "ps ! p"] len ib by auto
  have cnt: "holders (ps[p := drop_lock (ps ! p) i]) j + (if j = i then 1 else 0) = holders ps j" if "0 < j" for j
    using holders_update [OF p, of "drop_lock (ps ! p) i" j] hp [OF that] i by (auto split: if_splits)
  have "proc_ok t' (drop_lock (ps ! p) i)"
    using system_okD(2) [OF ok p] hp u' by (auto simp: proc_ok_def drop_lock_def)
  moreover have "proc_ok t' po" if "po \<in> set ps" for po
    using ok that u' by (auto simp: system_ok_def proc_ok_def)
  moreover have "mi_refcount (entry t' j) = holders (ps[p := drop_lock (ps ! p) i]) j" if "j \<in> entries t'" for j
  proof -
    have j: "0 < j" "j \<in> entries t" using that u' by (simp add: entries_def) (use that u' in blast)
    then show ?thesis
      using cnt [OF j(1)] u' system_okD(3) [OF ok j(2)] by (cases "j = i") (auto simp: same_locks_def)
  qed
  ultimately show ?thesis
    using u' set_update_subset_insert [of ps p] by (auto simp: system_ok_def)
qed

lemma unlock_system:
  assumes ok: "system_ok tag_hash (t, ps)" and p: "p < length ps" and l: "0 < l" "l \<le> MINI_TRANSACTION_TABLE_SIZE"
    and h: "holds (ps ! p) l"
  shows "\<exists>t'. polar_logindex_mini_trans_unlock t (ps ! p) l = Inr (t', drop_lock (ps ! p) l)
    \<and> system_ok tag_hash (t', ps[p := drop_lock (ps ! p) l])"
proof -
  have pk: "l \<in> entries t" "po_trans (ps ! p)" "length (po_acquired (ps ! p)) = MINI_TRANSACTION_TABLE_SIZE"
    using system_okD(2) [OF ok p] l h by (auto simp: proc_ok_def)
  have "holders ps l \<noteq> 0" using h p by (auto simp: holders_zero)
  then have "mi_refcount (entry t l) > 0" using system_okD(3) [OF ok pk(1)] by simp
  then obtain t' where "polar_logindex_mini_trans_unlock t (ps ! p) l = Inr (t', drop_lock (ps ! p) l)"
      "unlocked (hash_page tag_hash) t l t'"
    using unlock_spec [OF system_okD(1) [OF ok] pk(1) _ pk(3) pk(2) h] by blast
  then show ?thesis using system_ok_unlocked [OF ok p _ pk(1) h] by blast
qed

lemma unlock_acquired_system:
  assumes "system_ok tag_hash (t, ps)" "p < length ps" "set ls \<subseteq> {1..MINI_TRANSACTION_TABLE_SIZE}"
  shows "\<exists>t' po. unlock_acquired ls (t, ps ! p) = Inr (t', po) \<and> system_ok tag_hash (t', ps[p := po])
    \<and> (\<forall>i > 0. holds po i \<longleftrightarrow> i \<notin> set ls \<and> holds (ps ! p) i)"
  using assms
proof (induction ls arbitrary: t ps)
  case (Cons l ls)
  have len: "length (po_acquired (ps ! p)) = MINI_TRANSACTION_TABLE_SIZE"
    using system_okD(2) [OF Cons.prems(1,2)] by (simp add: proc_ok_def)
  have l: "0 < l" "l \<le> MINI_TRANSACTION_TABLE_SIZE" using Cons.prems(3) by auto
  then have get: "aget (po_acquired (ps ! p)) (l - 1) = Inr (holds (ps ! p) l)"
    using len by (auto simp: aget_def holds_def)
  show ?case
  proof (cases "holds (ps ! p) l")
    case True
    then obtain t1 where t1: "polar_logindex_mini_trans_unlock t (ps ! p) l = Inr (t1, drop_lock (ps ! p) l)"
        "system_ok tag_hash (t1, ps[p := drop_lock (ps ! p) l])"
      using unlock_system [OF Cons.prems(1,2) l] by blast
    then obtain t' po where "unlock_acquired ls (t1, drop_lock (ps ! p) l) = Inr (t', po)"
        "system_ok tag_hash (t', ps[p := po])"
        "\<forall>i > 0. holds po i \<longleftrightarrow> i \<notin> set ls \<and> holds (drop_lock (ps ! p) l) i"
      using Cons.IH [OF t1(2)] Cons.prems(2,3) by auto
    then show ?thesis using get True t1(1) holds_take_drop(2) [OF l(1), of _ "ps ! p"] l len
      by (auto simp del: One_nat_def)
  next
    case False
    then show ?thesis using get Cons.IH [OF Cons.prems(1,2)] Cons.prems(3) by (fastforce simp del: One_nat_def)
  qed
qed (auto simp: list_update_id)

lemma proc_ok_trans:
  "\<lbrakk>proc_ok t po; \<forall>i \<in> {1..MINI_TRANSACTION_TABLE_SIZE}. \<not> holds po i\<rbrakk> \<Longrightarrow> proc_ok t (po\<lparr>po_trans := False\<rparr>)"
  by (auto simp: proc_ok_def holds_def)

text \<open>An aborted process gives back every lock it has, and nothing else changes hands.\<close>

lemma abort_system:
  assumes ok: "system_ok tag_hash (t, ps)" and p: "p < length ps"
  shows "\<exists>t' po. polar_logindex_abort_mini_transaction t (ps ! p) = Inr (t', po) \<and> system_ok tag_hash (t', ps[p := po])
    \<and> (\<forall>i \<in> {1..MINI_TRANSACTION_TABLE_SIZE}. \<not> holds po i) \<and> \<not> po_trans po"
proof (cases "po_trans (ps ! p)")
  case False
  then show ?thesis using ok system_okD(2) [OF ok p]
    by (auto simp: polar_logindex_abort_mini_transaction_def proc_ok_def list_update_id)
next
  case True
  have sub: "set [1..<MINI_TRANSACTION_TABLE_SIZE + 1] \<subseteq> {1..MINI_TRANSACTION_TABLE_SIZE}" by auto
  obtain t' po where u: "unlock_acquired [1..<MINI_TRANSACTION_TABLE_SIZE + 1] (t, ps ! p) = Inr (t', po)"
      "system_ok tag_hash (t', ps[p := po])"
      "\<forall>i > 0. holds po i \<longleftrightarrow> i \<notin> set [1..<MINI_TRANSACTION_TABLE_SIZE + 1] \<and> holds (ps ! p) i"
    using unlock_acquired_system [OF ok p sub] by blast
  then have free: "\<forall>i \<in> {1..MINI_TRANSACTION_TABLE_SIZE}. \<not> holds po i" by auto
  have pk: "proc_ok t' po" using system_okD(2) [OF u(2), of p] p by simp
  have "holds (po\<lparr>po_trans := False\<rparr>) = holds po" by (rule ext) (simp add: holds_def)
  moreover have "holders (ps[p := po\<lparr>po_trans := False\<rparr>]) i = holders (ps[p := po]) i" for i
    using holders_update [OF p, of "po\<lparr>po_trans := False\<rparr>" i] holders_update [OF p, of po i]
    by (simp add: holds_def)
  moreover have "proc_ok t' q" if q: "q \<in> set (ps[p := po\<lparr>po_trans := False\<rparr>])" for q
  proof -
    obtain i where i: "i < length ps" "q = (ps[p := po\<lparr>po_trans := False\<rparr>]) ! i"
      using q by (auto simp: in_set_conv_nth)
    show ?thesis using i p system_okD(2) [OF u(2), of i] proc_ok_trans [OF pk free] by (cases "i = p") simp_all
  qed
  ultimately have "system_ok tag_hash (t', ps[p := po\<lparr>po_trans := False\<rparr>])"
    using u(2) by (simp add: system_ok_def)
  then show ?thesis using u(1) True free
    by (auto simp: polar_logindex_abort_mini_transaction_def holds_def)
qed

lemma system_ok_cong:
  "\<lbrakk>mt_occupied t' = mt_occupied t; mt_info t' = mt_info t\<rbrakk> \<Longrightarrow> system_ok tag_hash (t', ps) = system_ok tag_hash (t, ps)"
  by (simp add: system_ok_def table_ok_def proc_ok_def entries_def)

lemma system_ok_added:
  assumes ok: "system_ok tag_hash (t, ps)" and l: "polar_logindex_mini_trans_set_page_added t l = Inr t'"
  shows "system_ok tag_hash (t', ps)"
proof -
  have lb: "0 < l" "l \<in> entries t"
    using l occupied_entries [of l t] by (auto simp: polar_logindex_mini_trans_set_page_added_def
        POLAR_INVALID_PAGE_LOCK_def split: if_splits)
  then have t': "t' = t\<lparr>mt_info := node_set (mt_info t) l ((entry t l)\<lparr>mi_added := True\<rparr>)\<rparr>"
    using l node_access [of l "mt_info t"] table_okD(1,2) [OF system_okD(1) [OF ok]] 
    by (auto simp: polar_logindex_mini_trans_set_page_added_def split: if_splits simp del: One_nat_def)
  note up = update_entry [OF system_okD(1) [OF ok] lb(2), where v = "(entry t l)\<lparr>mi_added := True\<rparr>", folded t']
  then show ?thesis using ok up by (auto simp: system_ok_def proc_ok_def)
qed

lemma table_ok_init: "table_ok h mini_trans_init" "entries mini_trans_init = {}"
  by (auto simp: table_ok_def entries_def mini_trans_init_def node_def simp del: replicate.simps)

lemma lock_system:
  assumes ok: "system_ok tag_hash (t, ps)" and p: "p < length ps"
    and l: "polar_logindex_mini_trans_lock tag_hash t (ps ! p) tag = Inr (l, x, t', po)" "\<not> holds (ps ! p) l"
  shows "system_ok tag_hash (t', ps[p := po])"
proof -
  have st: "started t" using l(1) lock_not_started [of t tag_hash "ps ! p" tag] by (cases "started t") simp_all
  have len: "length (po_acquired (ps ! p)) = MINI_TRANSACTION_TABLE_SIZE"
    using system_okD(2) [OF ok p] by (simp add: proc_ok_def)
  have room: "\<not> (table_lookup t tag = None \<and> entries t = {1..MINI_TRANSACTION_TABLE_SIZE})"
    using lock_spec [OF system_okD(1) [OF ok] st len, of tag] l(1) by (metis sum.distinct(1))
  have "po = take_lock (ps ! p) l \<and> locked (hash_page tag_hash) t tag l t'"
    using lock_spec [OF system_okD(1) [OF ok] st len, of tag] l(1) unfolding if_not_P [OF room] by auto
  then show ?thesis using system_ok_locked [OF ok p _ l(2)] by blast
qed

lemma cond_lock_system:
  assumes ok: "system_ok tag_hash (t, ps)" and p: "p < length ps"
    and l: "polar_logindex_mini_trans_cond_lock tag_hash t (ps ! p) tag = Inr (l, x, t', po)"
      "l \<noteq> POLAR_INVALID_PAGE_LOCK \<longrightarrow> \<not> holds (ps ! p) l"
  shows "system_ok tag_hash (t', ps[p := po])"
proof -
  have len: "length (po_acquired (ps ! p)) = MINI_TRANSACTION_TABLE_SIZE"
    using system_okD(2) [OF ok p] by (simp add: proc_ok_def)
  note sp = cond_lock_spec [OF system_okD(1) [OF ok] len, of tag]
  show ?thesis
  proof (cases "if started t then table_lookup t tag else None")
    case None
    then show ?thesis using sp l(1) ok by (simp add: list_update_id)
  next
    case (Some i)
    then have "po = take_lock (ps ! p) l \<and> locked (hash_page tag_hash) t tag l t'" using sp l(1) by auto
    moreover from this have "l \<noteq> POLAR_INVALID_PAGE_LOCK" by (simp add: locked_def POLAR_INVALID_PAGE_LOCK_def)
    ultimately show ?thesis using system_ok_locked [OF ok p] l(2) by blast
  qed
qed

lemma end_turn_system:
  assumes ok: "system_ok tag_hash (t, ps)" and e: "polar_logindex_mini_trans_end 1 env t (mt_lsn t) = Inr (Some t')"
  shows "t' = mini_trans_init" "system_ok tag_hash (t', ps)"
    "\<forall>po \<in> set ps. \<forall>i \<in> {1..MINI_TRANSACTION_TABLE_SIZE}. \<not> holds po i"
proof -
  show t': "t' = mini_trans_init" using end_turn [OF system_okD(1) [OF ok], of env] e by (simp split: if_splits)
  have z: "\<forall>i \<in> entries t. mi_refcount (entry t i) = 0"
    using end_turn [OF system_okD(1) [OF ok], of env] e by (simp split: if_splits)
  then have "\<not> holds po i" if "po \<in> set ps" "i \<in> entries t" for po i
    using that system_okD(3) [OF ok that(2)] holders_zero [of ps i] by simp
  then show free: "\<forall>po \<in> set ps. \<forall>i \<in> {1..MINI_TRANSACTION_TABLE_SIZE}. \<not> holds po i"
    using ok by (auto simp: system_ok_def proc_ok_def)
  then show "system_ok tag_hash (t', ps)"
    using ok table_ok_init by (simp add: system_ok_def proc_ok_def t')
qed

lemma start_system:
  "\<lbrakk>system_ok tag_hash (t, ps); polar_logindex_mini_trans_start t lsn = Inr t'\<rbrakk> \<Longrightarrow> system_ok tag_hash (t', ps)"
  using system_ok_cong [of t' t] by (auto simp: polar_logindex_mini_trans_start_def split: if_splits)

lemma close_system: "system_ok tag_hash (t, ps) \<Longrightarrow> system_ok tag_hash (t\<lparr>mt_started := False\<rparr>, ps)"
  using system_ok_cong [of "t\<lparr>mt_started := False\<rparr>" t] by simp

lemma unlock_Inr_system:
  assumes ok: "system_ok tag_hash (t, ps)" "p < length ps" and u: "polar_logindex_mini_trans_unlock t (ps ! p) l = Inr (t', po)"
  shows "system_ok tag_hash (t', ps[p := po])"
  using unlock_system [OF ok, of l] unlock_Inr_holds [OF u] u by auto

lemma abort_Inr_system:
  assumes ok: "system_ok tag_hash (t, ps)" "p < length ps" and u: "polar_logindex_abort_mini_transaction t (ps ! p) = Inr (t', po)"
  shows "system_ok tag_hash (t', ps[p := po])"
  using abort_system [OF ok] u by auto

lemma system_ok_step: "mini_step tag_hash s s' \<Longrightarrow> system_ok tag_hash s \<Longrightarrow> system_ok tag_hash s'"
proof (induction rule: mini_step.induct)
  case (start t lsn t' ps)
  from start(2,1) show ?case by (rule start_system)
next
  case (lock p ps t tag l x t' po)
  from lock(4,1,2,3) show ?case by (rule lock_system)
next
  case (cond_lock p ps t tag l x t' po)
  from cond_lock(4,1,2,3) show ?case by (rule cond_lock_system)
next
  case (unlock p ps t l t' po)
  from unlock(3,1,2) show ?case by (rule unlock_Inr_system)
next
  case (abort p ps t t' po)
  from abort(3,1,2) show ?case by (rule abort_Inr_system)
next
  case (added t l t' ps)
  from added(2,1) show ?case by (rule system_ok_added)
next
  case (close t ps)
  then show ?case by (rule close_system)
next
  case (finish env t t' ps)
  from finish(2,1) show ?case by (rule end_turn_system(2))
qed

lemma system_ok_init: "system_ok tag_hash (mini_trans_init, replicate n proc_init)"
  by (auto simp: system_ok_def table_ok_init proc_ok_def holds_def proc_init_def)

lemma reachable_system_ok: "mini_reachable tag_hash n s \<Longrightarrow> system_ok tag_hash s"
proof (induction rule: rtranclp_induct)
  case (step s s')
  then show ?case using system_ok_step by blast
qed (rule system_ok_init)

section \<open>Correctness\<close>

lemma find_spec:
  assumes ok: "table_ok (hash_page tag_hash) t"
  shows "polar_logindex_mini_trans_find tag_hash t tag
    = Inr (if started t \<and> tag \<in> dom (table_lookup t) then mt_lsn t else InvalidXLogRecPtr)"
proof (cases "started t")
  case True
  then have "0 < i" if "table_lookup t tag = Some i" for i
    using table_lookup_Some [OF ok] table_okD(2) [OF ok] that by blast
  then show ?thesis using True find_is_lookup [OF ok True, of tag]
    by (auto simp: polar_logindex_mini_trans_find_def polar_logindex_mini_trans_key_find_def started_def
        POLAR_INVALID_PAGE_LOCK_def split: option.splits)
next
  case False
  then show ?thesis
    by (auto simp: polar_logindex_mini_trans_find_def polar_logindex_mini_trans_key_find_def started_def)
qed

lemma lookup_init: "table_lookup mini_trans_init = (\<lambda>_. None)"
  using table_lookup_None [OF table_ok_init(1)] table_ok_init(2) by auto

lemma started_fresh:
  assumes "polar_logindex_mini_trans_start mini_trans_init lsn = Inr t" "lsn \<noteq> InvalidXLogRecPtr"
  shows "locks_inv tag_hash (t, proc_init)" "table_lookup t = (\<lambda>_. None)" "mt_lsn t = lsn"
proof -
  have t: "t = mini_trans_init\<lparr>mt_started := True, mt_lsn := lsn\<rparr>"
    using assms by (simp add: polar_logindex_mini_trans_start_def split: if_splits)
  then show "table_lookup t = (\<lambda>_. None)" "mt_lsn t = lsn"
    using lookup_init by (simp_all add: table_lookup_def fun_eq_iff)
  show "locks_inv tag_hash (t, proc_init)"
    using table_ok_init(1) table_ok_cong [of t mini_trans_init] assms(2)
    by (simp add: locks_inv_def t started_def proc_init_def)
qed

lemma lock_pages_lsn:
  "\<lbrakk>locks_inv tag_hash (t, po); lock_pages tag_hash t po tags = Inr (ls, t', po')\<rbrakk> \<Longrightarrow> mt_lsn t' = mt_lsn t"
proof (induction tags arbitrary: t po ls)
  case (Cons tag tags)
  from Cons.prems(1) have inv: "table_ok (hash_page tag_hash) t" "started t" "length (po_acquired po) = MINI_TRANSACTION_TABLE_SIZE"
    by (simp_all add: locks_inv_def)
  obtain l x t1 po1 ls1 where l: "polar_logindex_mini_trans_lock tag_hash t po tag = Inr (l, x, t1, po1)"
      "lock_pages tag_hash t1 po1 tags = Inr (ls1, t', po')"
    using Cons.prems(2) by (auto simp: rbind_def split: sum.splits prod.splits)
  have room: "\<not> (table_lookup t tag = None \<and> entries t = {1..MINI_TRANSACTION_TABLE_SIZE})"
    using lock_spec [OF inv, of tag] l(1) by (metis sum.distinct(1))
  have lk: "locked (hash_page tag_hash) t tag l t1" "po1 = take_lock po l"
    using lock_spec [OF inv, of tag] l(1) unfolding if_not_P [OF room] by auto
  then have "locks_inv tag_hash (t1, po1)"
    using inv by (simp add: locks_inv_def locked_def same_locks_def started_def)
  then show ?case using Cons.IH [OF _ l(2)] lk(1) by (simp add: locked_def same_locks_def)
qed simp

text \<open>A reachable state in which a process holds a lock.\<close>

lemma reachable_locked:
  "\<exists>t po i. mini_reachable (\<lambda>_. 0) 1 (t, [po]) \<and> i \<in> {1..MINI_TRANSACTION_TABLE_SIZE} \<and> holds po i"
proof -
  define t where "t = mini_trans_init\<lparr>mt_started := True, mt_lsn := 7\<rparr>"
  have st: "polar_logindex_mini_trans_start mini_trans_init 7 = Inr t"
    by (simp add: polar_logindex_mini_trans_start_def t_def mini_trans_init_def)
  note f = started_fresh [OF st]
  have inv: "table_ok (hash_page (\<lambda>_. 0)) t" "started t" "length (po_acquired proc_init) = MINI_TRANSACTION_TABLE_SIZE"
    using f(1) [of "\<lambda>_. 0"] by (simp_all add: locks_inv_def)
  have "card (dom (table_lookup t)) = 0" using f(2) by simp
  then have "card (entries t) = 0" using dom_lookup(3) [OF inv(1)] by simp
  then have room: "\<not> (table_lookup t tag_zero = None \<and> entries t = {1..MINI_TRANSACTION_TABLE_SIZE})"
    using table_size(1) by auto
  obtain i t' where i: "polar_logindex_mini_trans_lock (\<lambda>_. 0) t proc_init tag_zero
      = Inr (i, Some (mt_lsn t), t', take_lock proc_init i)" "locked (hash_page (\<lambda>_. 0)) t tag_zero i t'"
    using lock_spec [OF inv, of tag_zero] unfolding if_not_P [OF room] by blast
  have ib: "0 < i" "i \<le> MINI_TRANSACTION_TABLE_SIZE" using i(2) by (simp_all add: locked_def)
  then have n: "\<not> holds proc_init i" by (simp add: holds_def proc_init_def)
  have "mini_step (\<lambda>_. 0) (t, [proc_init]) (t', [take_lock proc_init i])"
    using mini_step.lock [of 0 "[proc_init]" "\<lambda>_. 0" t tag_zero i] i(1) n by simp
  then have "mini_reachable (\<lambda>_. 0) 1 (t', [take_lock proc_init i])"
    using mini_step.start [OF st, of "\<lambda>_. 0" "[proc_init]"] by (simp add: rtranclp.rtrancl_into_rtrancl)
  moreover have "holds (take_lock proc_init i) i" using holds_take_drop(1) [of i i proc_init] ib inv(3) by simp
  moreover have "i \<in> {1..MINI_TRANSACTION_TABLE_SIZE}" using ib by simp
  ultimately show ?thesis by blast
qed

text \<open>
  C21. A transaction that was started on an LSN can lock up to 37 different pages, whatever their
  hash values: every lock succeeds, different pages get different locks, and afterwards exactly
  these pages are found, with that LSN.
\<close>

theorem mini_trans_lock_pages:
  assumes "polar_logindex_mini_trans_start mini_trans_init lsn = Inr t" "lsn \<noteq> InvalidXLogRecPtr"
    and "distinct tags" "length tags \<le> MINI_TRANSACTION_TABLE_SIZE"
  shows "\<exists>ls t' po. lock_pages tag_hash t proc_init tags = Inr (ls, t', po)
    \<and> length ls = length tags \<and> distinct ls \<and> set ls \<subseteq> {1..MINI_TRANSACTION_TABLE_SIZE}
    \<and> (\<forall>tag. polar_logindex_mini_trans_find tag_hash t' tag = Inr (if tag \<in> set tags then lsn else InvalidXLogRecPtr))"
proof -
  note f = started_fresh(1) [OF assms(1,2), of tag_hash] started_fresh(2,3) [OF assms(1,2)]
  have c: "card (dom (table_lookup (fst (t, proc_init))) \<union> set tags) \<le> MINI_TRANSACTION_TABLE_SIZE"
    using f(2) assms(3,4) by (simp add: distinct_card)
  obtain ls s' where ls: "lock_pages tag_hash t proc_init tags = Inr (ls, s')" "locks_inv tag_hash s'"
      "map Some ls = map (table_lookup (fst s')) tags" "dom (table_lookup (fst s')) = set tags"
    using mini_locks.acquire_all_ok [OF f(1) c] f(2) unfolding lock_pages_acquire_all by auto
  have ok: "table_ok (hash_page tag_hash) (fst s')" "started (fst s')" using ls(2) by (auto simp: locks_inv_def)
  have "length ls = length tags" using arg_cong [OF ls(3), of length] by simp
  moreover have "inj_on (table_lookup (fst s')) (set tags)" using dom_lookup(4) [OF ok(1)] ls(4) by simp
  then have "distinct (map Some ls)" unfolding ls(3) using assms(3) by (simp add: distinct_map)
  then have "distinct ls" by (simp add: distinct_map)
  moreover have "Some l \<in> table_lookup (fst s') ` set tags" if "l \<in> set ls" for l
    using arg_cong [OF ls(3), of set] that by auto
  then have "set ls \<subseteq> entries (fst s')" using table_lookup_Some [OF ok(1)] by (metis imageE subsetI)
  then have "set ls \<subseteq> {1..MINI_TRANSACTION_TABLE_SIZE}" using ok(1) by (auto simp: table_ok_def)
  moreover have "mt_lsn (fst s') = lsn"
    using lock_pages_lsn [OF f(1), where tags = tags and ls = ls and t' = "fst s'" and po' = "snd s'"] ls(1) f(3) by simp
  ultimately show ?thesis using ls(1,4) ok(2) find_spec [OF ok(1)] by (cases s') auto
qed

theorem mini_trans_lock_pages_witness:
  "\<exists>ls t' po. lock_pages (\<lambda>_. 0) (mini_trans_init\<lparr>mt_started := True, mt_lsn := 7\<rparr>) proc_init
       [tag_zero, tag_zero\<lparr>blockNum := 1\<rparr>, tag_zero\<lparr>blockNum := 2\<rparr>] = Inr (ls, t', po) \<and> length ls = 3 \<and> distinct ls
     \<and> polar_logindex_mini_trans_find (\<lambda>_. 0) t' (tag_zero\<lparr>blockNum := 2\<rparr>) = Inr 7
     \<and> polar_logindex_mini_trans_find (\<lambda>_. 0) t' (tag_zero\<lparr>blockNum := 3\<rparr>) = Inr 0"
proof -
  let ?tags = "[tag_zero, tag_zero\<lparr>blockNum := 1\<rparr>, tag_zero\<lparr>blockNum := 2\<rparr>]"
  have "polar_logindex_mini_trans_start mini_trans_init 7 = Inr (mini_trans_init\<lparr>mt_started := True, mt_lsn := 7\<rparr>)"
    by (simp add: polar_logindex_mini_trans_start_def mini_trans_init_def)
  moreover have "distinct ?tags" "tag_zero\<lparr>blockNum := 3\<rparr> \<notin> set ?tags" by (simp_all add: tag_zero_def)
  moreover have "length ?tags \<le> MINI_TRANSACTION_TABLE_SIZE" "(7 :: XLogRecPtr) \<noteq> InvalidXLogRecPtr" by (simp_all add: table_size(1))
  ultimately obtain ls t' po where
    "lock_pages (\<lambda>_. 0) (mini_trans_init\<lparr>mt_started := True, mt_lsn := 7\<rparr>) proc_init ?tags = Inr (ls, t', po)"
    "length ls = length ?tags" "distinct ls"
    "\<forall>tag. polar_logindex_mini_trans_find (\<lambda>_. 0) t' tag = Inr (if tag \<in> set ?tags then 7 else InvalidXLogRecPtr)"
    using mini_trans_lock_pages [of 7 _ ?tags "\<lambda>_. 0"] by blast
  then show ?thesis using \<open>tag_zero\<lparr>blockNum := 3\<rparr> \<notin> set ?tags\<close>
    by (intro exI [of _ ls] exI [of _ t'] exI [of _ po]) (simp del: lock_pages.simps)
qed

text \<open>
  C9. Whatever the processes of a transaction do, the entries stay a proper hash table, and the
  reference count of an entry is the number of processes that hold its lock.
\<close>

theorem mini_trans_invariant:
  "mini_reachable tag_hash n (t, ps) \<Longrightarrow> table_ok (hash_page tag_hash) t
     \<and> (\<forall>i \<in> entries t. mi_refcount (entry t i) = holders ps i)
     \<and> (\<forall>po \<in> set ps. \<forall>i \<in> {1..MINI_TRANSACTION_TABLE_SIZE}. holds po i \<longrightarrow> i \<in> entries t)"
  using reachable_system_ok [of tag_hash n "(t, ps)"] by (auto simp: system_ok_def proc_ok_def)

theorem mini_trans_invariant_witness:
  "\<exists>t po i. mini_reachable (\<lambda>_. 0) 1 (t, [po]) \<and> i \<in> entries t \<and> mi_refcount (entry t i) = 1"
proof -
  obtain t po i where r: "mini_reachable (\<lambda>_. 0) 1 (t, [po])" "i \<in> {1..MINI_TRANSACTION_TABLE_SIZE}" "holds po i"
    using reachable_locked by blast
  then have "i \<in> entries t" "mi_refcount (entry t i) = 1"
    using mini_trans_invariant [OF r(1)] by (auto simp: holders_def)
  with r(1) show ?thesis by blast
qed

text \<open>
  C10. A turn of the loop that ends a transaction never fails; it ends the transaction, leaving
  the state a new transaction starts from, exactly when no process holds a page lock.
\<close>

theorem mini_trans_end_waits:
  assumes "mini_reachable tag_hash n (t, ps)"
  shows "polar_logindex_mini_trans_end 1 env t (mt_lsn t)
    = Inr (if \<forall>po \<in> set ps. \<forall>i \<in> {1..MINI_TRANSACTION_TABLE_SIZE}. \<not> holds po i then Some mini_trans_init else None)"
proof -
  note ok = reachable_system_ok [OF assms]
  have "(\<forall>i \<in> entries t. mi_refcount (entry t i) = 0) \<longleftrightarrow> (\<forall>po \<in> set ps. \<forall>i \<in> entries t. \<not> holds po i)"
    using system_okD(3) [OF ok] holders_zero by auto
  also have "\<dots> \<longleftrightarrow> (\<forall>po \<in> set ps. \<forall>i \<in> {1..MINI_TRANSACTION_TABLE_SIZE}. \<not> holds po i)"
  proof -
    have "entries t \<subseteq> {1..MINI_TRANSACTION_TABLE_SIZE}" using system_okD(1) [OF ok] by (simp add: table_ok_def)
    moreover have "\<forall>po \<in> set ps. \<forall>i \<in> {1..MINI_TRANSACTION_TABLE_SIZE}. holds po i \<longrightarrow> i \<in> entries t"
      using ok by (simp add: system_ok_def proc_ok_def)
    ultimately show ?thesis by blast
  qed
  finally show ?thesis using end_turn [OF system_okD(1) [OF ok], of env] by simp
qed

theorem mini_trans_end_waits_witness:
  "\<exists>t po. mini_reachable (\<lambda>_. 0) 1 (t, [po]) \<and> polar_logindex_mini_trans_end 1 (\<lambda>_ t. t) t (mt_lsn t) = Inr None"
proof -
  obtain t po i where r: "mini_reachable (\<lambda>_. 0) 1 (t, [po])" "i \<in> {1..MINI_TRANSACTION_TABLE_SIZE}" "holds po i"
    using reachable_locked by blast
  then have "\<not> (\<forall>po \<in> set [po]. \<forall>i \<in> {1..MINI_TRANSACTION_TABLE_SIZE}. \<not> holds po i)" by force
  then have "polar_logindex_mini_trans_end 1 (\<lambda>_ t. t) t (mt_lsn t) = Inr None"
    using mini_trans_end_waits [OF r(1), of "\<lambda>_ t. t"] by (simp only: if_False)
  with r(1) show ?thesis by blast
qed

text \<open>
  C22. A process can unlock exactly the page locks it holds, any other unlock panics; and a
  process that aborts always gives back all its locks, with nothing lost: the invariant still
  holds.
\<close>

theorem mini_trans_unlock_abort:
  assumes "mini_reachable tag_hash n (t, ps)" "p < length ps"
  shows "((\<exists>r. polar_logindex_mini_trans_unlock t (ps ! p) l = Inr r)
      \<longleftrightarrow> l \<in> {1..MINI_TRANSACTION_TABLE_SIZE} \<and> holds (ps ! p) l)
    \<and> (\<exists>t' po. polar_logindex_abort_mini_transaction t (ps ! p) = Inr (t', po) \<and> system_ok tag_hash (t', ps[p := po])
      \<and> (\<forall>i \<in> {1..MINI_TRANSACTION_TABLE_SIZE}. \<not> holds po i))"
proof (rule conjI)
  note ok = reachable_system_ok [OF assms(1)]
  show "(\<exists>r. polar_logindex_mini_trans_unlock t (ps ! p) l = Inr r)
      \<longleftrightarrow> l \<in> {1..MINI_TRANSACTION_TABLE_SIZE} \<and> holds (ps ! p) l"
    using unlock_system [OF ok assms(2), of l] unlock_Inr_holds [of t "ps ! p" l] by auto
  show "\<exists>t' po. polar_logindex_abort_mini_transaction t (ps ! p) = Inr (t', po) \<and> system_ok tag_hash (t', ps[p := po])
      \<and> (\<forall>i \<in> {1..MINI_TRANSACTION_TABLE_SIZE}. \<not> holds po i)"
    using abort_system [OF ok assms(2)] by blast
qed

theorem mini_trans_unlock_abort_witness:
  "\<exists>t po i. mini_reachable (\<lambda>_. 0) 1 (t, [po]) \<and> holds po i
     \<and> (\<exists>r. polar_logindex_mini_trans_unlock t po i = Inr r) \<and> (\<exists>r. polar_logindex_abort_mini_transaction t po = Inr r)"
proof -
  obtain t po i where r: "mini_reachable (\<lambda>_. 0) 1 (t, [po])" "i \<in> {1..MINI_TRANSACTION_TABLE_SIZE}" "holds po i"
    using reachable_locked by blast
  have "0 < length [po]" by simp
  note u = mini_trans_unlock_abort [OF r(1) this, of i, simplified nth_Cons_0]
  have "\<exists>x. polar_logindex_mini_trans_unlock t po i = Inr x" using u r(2,3) by simp
  moreover have "\<exists>x. polar_logindex_abort_mini_transaction t po = Inr x" using u by blast
  ultimately show ?thesis using r(1,3) by blast
qed

end
