(* ===== verification/Rel_Size_Cache.thy ===== *)
theory Rel_Size_Cache
  imports Polar_Prelude
begin

text \<open>
  The relation size cache (\<open>access/logindex/polar_rel_size_cache.c\<close>): the truncations of
  relations and the states of databases, by the LSN of their WAL records. The entries are byte
  images in a page-sized table: relations from the front, databases from the back. The newest
  tables are in shared memory, a ring; a table that leaves the ring is written to a file.

  The file system is a map from table numbers to the tables in their files, and a flag whether
  a file can be written. A table that is read into private memory is a value, its \<open>pfree\<close> is not
  modelled. The number of a table is 64 bits wide in the table and 32 bits wide in the function
  that initialises it: the wrap-around is written out there.
\<close>

section \<open>The code\<close>

text \<open>\<open>BLCKSZ\<close> without the 32 bytes of the table's head.\<close>

definition REL_INFO_TOTAL_SIZE :: nat where "REL_INFO_TOTAL_SIZE = 8192 - 32"

type_synonym polar_db_state = uint32

abbreviation (input) POLAR_DB_NOTFOUND :: polar_db_state where "POLAR_DB_NOTFOUND \<equiv> 0"
abbreviation (input) POLAR_DB_NEW :: polar_db_state where "POLAR_DB_NEW \<equiv> 1"
abbreviation (input) POLAR_DB_BLOCK_TRUNCATED :: polar_db_state where "POLAR_DB_BLOCK_TRUNCATED \<equiv> 2"
abbreviation (input) POLAR_DB_DROPED :: polar_db_state where "POLAR_DB_DROPED \<equiv> 3"

record polar_database_state =
  ds_lsn :: XLogRecPtr
  ds_spc :: Oid
  ds_db :: Oid
  ds_state :: polar_db_state

record polar_relation_size =
  rs_lsn :: XLogRecPtr
  rs_node :: RelFileNode
  rs_fork :: uint32
  rs_rel_size :: BlockNumber

record polar_rel_size_table =
  rt_tid :: nat
  rt_rel_tail :: nat
  rt_db_tail :: nat
  rt_min_lsn :: XLogRecPtr
  rt_max_lsn :: XLogRecPtr
  rt_info :: "byte list"

record polar_rel_size_cache =
  rc_active_mid :: nat
  rc_min_tid :: nat
  rc_table_size :: nat
  rc_tables :: "polar_rel_size_table list"
  rc_files :: "nat \<Rightarrow> polar_rel_size_table option"
  rc_disk_ok :: bool

record polar_rel_search_result =
  sr_state :: polar_db_state
  sr_lsn :: XLogRecPtr
  sr_size :: BlockNumber
  sr_ignore_error :: bool

datatype search_state = NEXT | END

text \<open>
  The layout of the two structs in memory, little-endian and padded to a multiple of eight bytes: what
  \<open>memcpy\<close> puts into a table, and what a pointer into the table reads.
\<close>

definition sizeof_database_state :: nat where "sizeof_database_state = 24"

definition sizeof_relation_size :: nat where "sizeof_relation_size = 32"

definition database_state_bytes :: "polar_database_state \<Rightarrow> byte list" where
  "database_state_bytes d = uint64_bytes (ds_lsn d) @ uint32_bytes (ds_spc d) @ uint32_bytes (ds_db d)
     @ uint32_bytes (ds_state d) @ replicate 4 0"

definition bytes_database_state :: "byte list \<Rightarrow> polar_database_state" where
  "bytes_database_state bs = \<lparr>ds_lsn = bytes_uint64 bs, ds_spc = bytes_uint32 (drop 8 bs),
     ds_db = bytes_uint32 (drop 12 bs), ds_state = bytes_uint32 (drop 16 bs)\<rparr>"

definition relation_size_bytes :: "polar_relation_size \<Rightarrow> byte list" where
  "relation_size_bytes r = uint64_bytes (rs_lsn r) @ uint32_bytes (spcNode (rs_node r))
     @ uint32_bytes (dbNode (rs_node r)) @ uint32_bytes (relNode (rs_node r))
     @ uint32_bytes (rs_fork r) @ uint32_bytes (rs_rel_size r) @ replicate 4 0"

definition bytes_relation_size :: "byte list \<Rightarrow> polar_relation_size" where
  "bytes_relation_size bs = \<lparr>rs_lsn = bytes_uint64 bs,
     rs_node = \<lparr>spcNode = bytes_uint32 (drop 8 bs), dbNode = bytes_uint32 (drop 12 bs), relNode = bytes_uint32 (drop 16 bs)\<rparr>,
     rs_fork = bytes_uint32 (drop 20 bs), rs_rel_size = bytes_uint32 (drop 24 bs)\<rparr>"

text \<open>A table after \<open>MemSet\<close>, and a new table.\<close>

definition rel_size_table_zero :: polar_rel_size_table where
  "rel_size_table_zero = \<lparr>rt_tid = 0, rt_rel_tail = 0, rt_db_tail = 0, rt_min_lsn = 0, rt_max_lsn = 0,
     rt_info = replicate REL_INFO_TOTAL_SIZE 0\<rparr>"

definition polar_init_rel_size_table :: "nat \<Rightarrow> polar_rel_size_table" where
  "polar_init_rel_size_table tid =
     rel_size_table_zero\<lparr>rt_tid := tid mod 2 ^ 32, rt_rel_tail := 0, rt_db_tail := REL_INFO_TOTAL_SIZE,
       rt_max_lsn := InvalidXLogRecPtr, rt_min_lsn := InvalidXLogRecPtr\<rparr>"

definition polar_rel_size_shmem_init :: "int \<Rightarrow> bool \<Rightarrow> polar_rel_size_cache option" where
  "polar_rel_size_shmem_init blocks disk_ok =
     (if blocks \<le> 0 then None
      else Some \<lparr>rc_active_mid = 0, rc_min_tid = 1, rc_table_size = nat blocks,
             rc_tables = (replicate (nat blocks) rel_size_table_zero)[0 := polar_init_rel_size_table 1],
             rc_files = (\<lambda>_. None), rc_disk_ok = disk_ok\<rparr>)"

definition polar_save_rel_size_table :: "polar_rel_size_cache \<Rightarrow> polar_rel_size_table \<Rightarrow> polar_rel_size_cache result" where
  "polar_save_rel_size_table c table =
     (if \<not> rc_disk_ok c then Inl (FATAL ''Could not open file for write'')
      else Inr (c\<lparr>rc_files := (rc_files c)(rt_tid table \<mapsto> table)\<rparr>))"

definition polar_table_space_available :: "polar_rel_size_table \<Rightarrow> nat \<Rightarrow> bool" where
  "polar_table_space_available table sz \<longleftrightarrow> rt_rel_tail table + sz < rt_db_tail table"

text \<open>The table with room for \<open>sz\<close> bytes is the active table of the cache that is returned.\<close>

definition polar_allocate_table_space :: "polar_rel_size_cache \<Rightarrow> nat \<Rightarrow> polar_rel_size_cache result" where
  "polar_allocate_table_space c sz =
     rbind (aget (rc_tables c) (rc_active_mid c)) (\<lambda>active_table.
     let tid = rt_tid active_table
     in if \<not> polar_table_space_available active_table sz
        then
          let c = c\<lparr>rc_active_mid := LOOP_NEXT_VALUE (rc_active_mid c) (rc_table_size c)\<rparr>
          in rbind (aget (rc_tables c) (rc_active_mid c)) (\<lambda>active_table.
             rbind (if rt_tid active_table > 0 then polar_save_rel_size_table c active_table else Inr c) (\<lambda>c.
             rbind (aset (rc_tables c) (rc_active_mid c) (polar_init_rel_size_table (tid + 1))) (\<lambda>ts.
             Inr (c\<lparr>rc_tables := ts\<rparr>))))
        else Inr c)"

definition polar_update_lsn_range :: "polar_rel_size_table \<Rightarrow> XLogRecPtr \<Rightarrow> polar_rel_size_table" where
  "polar_update_lsn_range table lsn =
     (if rt_max_lsn table = InvalidXLogRecPtr then table\<lparr>rt_max_lsn := lsn, rt_min_lsn := lsn\<rparr>
      else table\<lparr>rt_max_lsn := lsn\<rparr>)"

definition polar_record_db_state ::
  "polar_rel_size_cache \<Rightarrow> XLogRecPtr \<Rightarrow> Oid \<Rightarrow> Oid \<Rightarrow> polar_db_state \<Rightarrow> polar_rel_size_cache result" where
  "polar_record_db_state c lsn spc db state =
     (let db_state = \<lparr>ds_lsn = lsn, ds_spc = spc, ds_db = db, ds_state = state\<rparr>
      in rbind (polar_allocate_table_space c sizeof_database_state) (\<lambda>c.
         rbind (aget (rc_tables c) (rc_active_mid c)) (\<lambda>t.
         if rt_db_tail t < sizeof_database_state then Inl OutOfBounds
         else
           let pos = rt_db_tail t - sizeof_database_state
           in rbind (memcpy_to (rt_info t) pos (database_state_bytes db_state)) (\<lambda>info.
              rbind (aset (rc_tables c) (rc_active_mid c)
                (polar_update_lsn_range (t\<lparr>rt_info := info, rt_db_tail := pos\<rparr>) lsn)) (\<lambda>ts.
              Inr (c\<lparr>rc_tables := ts\<rparr>))))))"

definition polar_record_rel_size ::
  "polar_rel_size_cache \<Rightarrow> XLogRecPtr \<Rightarrow> RelFileNode \<Rightarrow> uint32 \<Rightarrow> BlockNumber \<Rightarrow> polar_rel_size_cache result" where
  "polar_record_rel_size c lsn node fork rel_size =
     (let rel = \<lparr>rs_lsn = lsn, rs_node = node, rs_fork = fork, rs_rel_size = rel_size\<rparr>
      in rbind (polar_allocate_table_space c sizeof_relation_size) (\<lambda>c.
         rbind (aget (rc_tables c) (rc_active_mid c)) (\<lambda>t.
         let pos = rt_rel_tail t
         in rbind (memcpy_to (rt_info t) pos (relation_size_bytes rel)) (\<lambda>info.
            rbind (aset (rc_tables c) (rc_active_mid c)
              (polar_update_lsn_range (t\<lparr>rt_info := info, rt_rel_tail := pos + sizeof_relation_size\<rparr>) lsn)) (\<lambda>ts.
            Inr (c\<lparr>rc_tables := ts\<rparr>))))))"

text \<open>The loop over the database entries, from the newest one on.\<close>

function search_db_loop ::
  "polar_rel_size_table \<Rightarrow> nat \<Rightarrow> XLogRecPtr \<Rightarrow> Oid \<Rightarrow> Oid \<Rightarrow> polar_rel_search_result
   \<Rightarrow> polar_rel_search_result result" where
  "search_db_loop table pos lsn spc db res =
     (if pos < REL_INFO_TOTAL_SIZE
      then rbind (memcpy_from (rt_info table) pos sizeof_database_state) (\<lambda>bs.
           let db_state = bytes_database_state bs
           in if ds_lsn db_state \<le> lsn then Inr res
              else if ds_db db_state = db \<and> ds_spc db_state = spc
              then Inr (res\<lparr>sr_lsn := ds_lsn db_state, sr_state := ds_state db_state\<rparr>)
              else search_db_loop table (pos + sizeof_database_state) lsn spc db res)
      else Inr res)"
  by pat_completeness auto

termination search_db_loop
  by (relation "measure (\<lambda>(table, pos, _). REL_INFO_TOTAL_SIZE - pos)") (auto simp: sizeof_database_state_def)

declare search_db_loop.simps [simp del]

definition polar_search_db_state ::
  "polar_rel_size_table \<Rightarrow> XLogRecPtr \<Rightarrow> Oid \<Rightarrow> Oid \<Rightarrow> polar_rel_search_result \<Rightarrow> polar_rel_search_result result" where
  "polar_search_db_state table lsn spc db res =
     search_db_loop table (rt_db_tail table) lsn spc db (res\<lparr>sr_state := POLAR_DB_NOTFOUND\<rparr>)"

text \<open>The loop over the relation entries, from the newest one on.\<close>

function search_truncate_loop ::
  "polar_rel_size_cache \<Rightarrow> polar_rel_size_table \<Rightarrow> nat \<Rightarrow> XLogRecPtr \<Rightarrow> BufferTag \<Rightarrow> polar_rel_search_result
   \<Rightarrow> (search_state \<times> polar_rel_search_result) result" where
  "search_truncate_loop c table pos lsn tag res =
     (if pos > 0
      then
        if pos < sizeof_relation_size then Inl OutOfBounds
        else rbind (memcpy_from (rt_info table) (pos - sizeof_relation_size) sizeof_relation_size) (\<lambda>bs.
          let rel = bytes_relation_size bs
          in if rs_lsn rel \<le> lsn then Inr (END, res)
             else if rnode tag = rs_node rel \<and> forkNum tag = rs_fork rel \<and> blockNum tag \<ge> rs_rel_size rel
             then Inr (END, res\<lparr>sr_lsn := rs_lsn rel, sr_state := POLAR_DB_BLOCK_TRUNCATED, sr_size := rs_rel_size rel\<rparr>)
             else search_truncate_loop c table (pos - sizeof_relation_size) lsn tag res)
      else Inr (if rt_tid table > rc_min_tid c then NEXT else END, res))"
  by pat_completeness auto

termination search_truncate_loop
  by (relation "measure (\<lambda>(c, table, pos, _). pos)") (auto simp: sizeof_relation_size_def)

declare search_truncate_loop.simps [simp del]

definition polar_search_truncate_info ::
  "polar_rel_size_cache \<Rightarrow> polar_rel_size_table \<Rightarrow> XLogRecPtr \<Rightarrow> BufferTag \<Rightarrow> polar_rel_search_result
   \<Rightarrow> (search_state \<times> polar_rel_search_result) result" where
  "polar_search_truncate_info c table lsn tag res = search_truncate_loop c table (rt_rel_tail table) lsn tag res"

definition polar_check_table_rel_size ::
  "polar_rel_size_cache \<Rightarrow> polar_rel_size_table \<Rightarrow> XLogRecPtr \<Rightarrow> BufferTag \<Rightarrow> polar_rel_search_result
   \<Rightarrow> (search_state \<times> polar_rel_search_result) result" where
  "polar_check_table_rel_size c table lsn tag res =
     (if lsn > rt_max_lsn table then Inr (END, res)
      else
        rbind (if sr_state res = POLAR_DB_NOTFOUND
               then polar_search_db_state table lsn (spcNode (rnode tag)) (dbNode (rnode tag)) res
               else Inr res) (\<lambda>res.
        if sr_state res = POLAR_DB_NEW
        then if \<not> sr_ignore_error res \<and> lsn < sr_lsn res
             then Inl (PANIC ''Got unexpected value from relation size cache, created'')
             else polar_search_truncate_info c table lsn tag res
        else if sr_state res = POLAR_DB_NOTFOUND
        then polar_search_truncate_info c table lsn tag res
        else if sr_state res = POLAR_DB_DROPED
        then if \<not> sr_ignore_error res \<and> lsn \<ge> sr_lsn res
             then Inl (PANIC ''Got unexpected value from relation size cache, dropped'')
             else Inr (END, res)
        else Inr (END, res)))"

definition polar_get_rel_size_table :: "polar_rel_size_cache \<Rightarrow> nat \<Rightarrow> polar_rel_size_table result" where
  "polar_get_rel_size_table c tid =
     rbind (aget (rc_tables c) ((tid - 1) mod rc_table_size c)) (\<lambda>table.
     if rt_tid table = tid then Inr table
     else case rc_files c tid of None \<Rightarrow> Inl (FATAL ''Could not open file for read'')
          | Some table \<Rightarrow> Inr table)"

text \<open>The loop over the tables, from the active one back; \<open>n\<close> bounds the number of tables.\<close>

fun check_tables ::
  "nat \<Rightarrow> polar_rel_size_cache \<Rightarrow> polar_rel_size_table \<Rightarrow> XLogRecPtr \<Rightarrow> BufferTag \<Rightarrow> polar_rel_search_result
   \<Rightarrow> polar_rel_search_result result" where
  "check_tables 0 c table lsn tag res = Inl NoReturn"
| "check_tables (Suc n) c table lsn tag res =
     rbind (polar_check_table_rel_size c table lsn tag res) (\<lambda>(st, res).
     if st \<noteq> END \<and> rt_tid table > rc_min_tid c
     then rbind (polar_get_rel_size_table c (rt_tid table - 1)) (\<lambda>table. check_tables n c table lsn tag res)
     else Inr res)"

text \<open>
  \<open>lsn_changed\<close> is the pointer argument: whether it is \<open>NULL\<close>, and the value stored through it
  is the second component of the result.
\<close>

definition polar_check_rel_block_valid_internal ::
  "polar_rel_size_cache \<Rightarrow> XLogRecPtr \<Rightarrow> BufferTag \<Rightarrow> bool \<Rightarrow> (bool \<times> XLogRecPtr) result" where
  "polar_check_rel_block_valid_internal c lsn tag lsn_changed =
     (let res = \<lparr>sr_state = POLAR_DB_NOTFOUND, sr_lsn = InvalidXLogRecPtr, sr_size = 0, sr_ignore_error = lsn_changed\<rparr>
      in rbind (aget (rc_tables c) (rc_active_mid c)) (\<lambda>table.
         rbind (if rt_max_lsn table \<noteq> InvalidXLogRecPtr
                then check_tables (Suc (rt_tid table)) c table lsn tag res else Inr res) (\<lambda>res.
         if sr_state res = POLAR_DB_NOTFOUND then Inr (True, lsn)
         else if sr_state res = POLAR_DB_NEW then Inr (True, sr_lsn res)
         else if sr_state res = POLAR_DB_DROPED \<or> sr_state res = POLAR_DB_BLOCK_TRUNCATED then Inr (False, sr_lsn res)
         else Inl (PANIC ''Got unexpected state when check block valid''))))"

definition polar_check_rel_block_valid_only :: "polar_rel_size_cache \<Rightarrow> XLogRecPtr \<Rightarrow> BufferTag \<Rightarrow> bool result" where
  "polar_check_rel_block_valid_only c lsn tag =
     rbind (polar_check_rel_block_valid_internal c lsn tag False) (\<lambda>(valid, _). Inr valid)"

definition polar_check_rel_block_valid_and_lsn ::
  "polar_rel_size_cache \<Rightarrow> XLogRecPtr \<Rightarrow> BufferTag \<Rightarrow> (bool \<times> XLogRecPtr) result" where
  "polar_check_rel_block_valid_and_lsn c lsn tag = polar_check_rel_block_valid_internal c lsn tag True"

definition polar_unlink_rel_size_table :: "polar_rel_size_cache \<Rightarrow> nat \<Rightarrow> polar_rel_size_cache" where
  "polar_unlink_rel_size_table c tid = c\<lparr>rc_files := (rc_files c)(tid := None)\<rparr>"

fun truncate_tables :: "polar_rel_size_cache \<Rightarrow> XLogRecPtr \<Rightarrow> nat list \<Rightarrow> polar_rel_size_cache result" where
  "truncate_tables c lsn [] = Inr c"
| "truncate_tables c lsn (tid # tids) =
     rbind (polar_get_rel_size_table c tid) (\<lambda>table.
     let mid = (tid - 1) mod rc_table_size c
     in if lsn \<ge> rt_max_lsn table
        then
          let c = (if rt_tid (rc_tables c ! mid) = tid
                   then c\<lparr>rc_tables := (rc_tables c)[mid := rel_size_table_zero]\<rparr>
                   else polar_unlink_rel_size_table c tid)
          in truncate_tables (c\<lparr>rc_min_tid := (rc_min_tid c + 1) mod 2 ^ 32\<rparr>) lsn tids
        else truncate_tables c lsn tids)"

definition polar_truncate_rel_size_cache :: "polar_rel_size_cache \<Rightarrow> XLogRecPtr \<Rightarrow> polar_rel_size_cache result" where
  "polar_truncate_rel_size_cache c lsn =
     rbind (aget (rc_tables c) (rc_active_mid c)) (\<lambda>table.
     truncate_tables c lsn [rc_min_tid c..<rt_tid table])"

end
