(* ===== verification/Rel_Size_Log.thy ===== *)
theory Rel_Size_Log
  imports Rel_Size_Cache
begin

text \<open>
  The relation size cache is a log of truncations and database states: the bytes of a table
  hold two lists, the tables in memory and in files hold the log, and checking a block is
  a search of the log for an event after the given LSN that makes the block invalid.
\<close>

section \<open>The bytes of a table\<close>

lemma bytes_database_state_roundtrip: "bytes_database_state (database_state_bytes d) = d"
  by (simp add: bytes_database_state_def database_state_bytes_def)

lemma bytes_relation_size_roundtrip: "bytes_relation_size (relation_size_bytes r) = r"
  by (simp add: bytes_relation_size_def relation_size_bytes_def)

lemma length_database_state_bytes [simp]: "length (database_state_bytes d) = sizeof_database_state"
  by (simp add: database_state_bytes_def sizeof_database_state_def)

lemma length_relation_size_bytes [simp]: "length (relation_size_bytes r) = sizeof_relation_size"
  by (simp add: relation_size_bytes_def sizeof_relation_size_def)

text \<open>The relation entries, oldest first, and the database entries, newest first.\<close>

definition segment :: "'a list \<Rightarrow> nat \<Rightarrow> nat \<Rightarrow> 'a list" where
  "segment xs i n = take n (drop i xs)"

definition rels :: "polar_rel_size_table \<Rightarrow> polar_relation_size list" where
  "rels t = map (\<lambda>k. bytes_relation_size (segment (rt_info t) (sizeof_relation_size * k) sizeof_relation_size))
     [0..<rt_rel_tail t div sizeof_relation_size]"

definition dbs :: "polar_rel_size_table \<Rightarrow> polar_database_state list" where
  "dbs t = map (\<lambda>k. bytes_database_state (segment (rt_info t) (rt_db_tail t + sizeof_database_state * k) sizeof_database_state))
     [0..<(REL_INFO_TOTAL_SIZE - rt_db_tail t) div sizeof_database_state]"

definition table_wf :: "polar_rel_size_table \<Rightarrow> bool" where
  "table_wf t \<longleftrightarrow> length (rt_info t) = REL_INFO_TOTAL_SIZE \<and> sizeof_relation_size dvd rt_rel_tail t
     \<and> rt_rel_tail t \<le> rt_db_tail t \<and> rt_db_tail t \<le> REL_INFO_TOTAL_SIZE
     \<and> sizeof_database_state dvd (REL_INFO_TOTAL_SIZE - rt_db_tail t)"

lemma sizeof_pos [simp]: "0 < sizeof_relation_size" "0 < sizeof_database_state"
  by (simp_all add: sizeof_relation_size_def sizeof_database_state_def)

lemma table_wfD:
  assumes "table_wf t"
  shows "length (rt_info t) = REL_INFO_TOTAL_SIZE" "rt_rel_tail t = sizeof_relation_size * length (rels t)"
    "REL_INFO_TOTAL_SIZE = rt_db_tail t + sizeof_database_state * length (dbs t)" "rt_rel_tail t \<le> rt_db_tail t"
  using assms by (auto simp: table_wf_def rels_def dbs_def)

text \<open>A write leaves the slices outside it.\<close>

lemma segment_write_in: "i + length b \<le> length d \<Longrightarrow> segment (take i d @ b @ drop (i + length b) d) i (length b) = b"
  by (simp add: segment_def)

lemma segment_write_out:
  assumes "i + length b \<le> length d" "j + n \<le> length d" "j + n \<le> i \<or> i + length b \<le> j"
  shows "segment (take i d @ b @ drop (i + length b) d) j n = segment d j n"
proof (rule nth_equalityI)
  let ?d = "take i d @ b @ drop (i + length b) d"
  have "length ?d = length d" using assms(1) by simp
  then show len: "length (segment ?d j n) = length (segment d j n)" by (simp only: segment_def length_take length_drop)
  fix k assume "k < length (segment ?d j n)"
  then have k: "k < n" "j + k < length d" unfolding len using assms(2) by (auto simp: segment_def)
  then show "segment ?d j n ! k = segment d j n ! k"
    using assms nth_memcpy [OF assms(1) k(2)] by (auto simp: segment_def)
qed

lemma rels_nth: "k < length (rels t) \<Longrightarrow> rels t ! k
    = bytes_relation_size (segment (rt_info t) (sizeof_relation_size * k) sizeof_relation_size)"
  by (simp add: rels_def)

lemma dbs_nth: "k < length (dbs t) \<Longrightarrow> dbs t ! k
    = bytes_database_state (segment (rt_info t) (rt_db_tail t + sizeof_database_state * k) sizeof_database_state)"
  by (simp add: dbs_def)

lemma in_front: "k < n \<Longrightarrow> sizeof_relation_size * k + sizeof_relation_size \<le> sizeof_relation_size * n"
  by (metis Suc_leI mult_Suc_right add.commute mult_le_mono2)

lemma in_back: "k < n \<Longrightarrow> sizeof_database_state * k + sizeof_database_state \<le> sizeof_database_state * n"
  by (metis Suc_leI mult_Suc_right add.commute mult_le_mono2)

text \<open>Appending a relation entry.\<close>

definition add_rel :: "polar_rel_size_table \<Rightarrow> polar_relation_size \<Rightarrow> polar_rel_size_table" where
  "add_rel t r = t\<lparr>rt_info := take (rt_rel_tail t) (rt_info t) @ relation_size_bytes r
       @ drop (rt_rel_tail t + sizeof_relation_size) (rt_info t),
     rt_rel_tail := rt_rel_tail t + sizeof_relation_size\<rparr>"

lemma add_rel_spec:
  assumes wf: "table_wf t" and sp: "polar_table_space_available t sizeof_relation_size"
  shows "table_wf (add_rel t r)" "rels (add_rel t r) = rels t @ [r]" "dbs (add_rel t r) = dbs t"
proof -
  let ?i = "rt_rel_tail t" and ?b = "relation_size_bytes r" and ?t = "add_rel t r"
  note d = table_wfD [OF wf]
  have le: "?i + sizeof_relation_size \<le> rt_db_tail t" using sp by (simp add: polar_table_space_available_def)
  then have fit: "?i + length ?b \<le> length (rt_info t)" using d(1,3) by simp
  have info: "rt_info ?t = take ?i (rt_info t) @ ?b @ drop (?i + length ?b) (rt_info t)"
    by (simp add: add_rel_def)
  have tails: "rt_rel_tail ?t = ?i + sizeof_relation_size" "rt_db_tail ?t = rt_db_tail t" by (simp_all add: add_rel_def)
  have "length (rt_info ?t) = REL_INFO_TOTAL_SIZE" unfolding info using fit d(1) by simp
  then show "table_wf ?t" using wf le by (auto simp: table_wf_def tails intro: dvd_add)
  have len: "length (rels ?t) = Suc (length (rels t))"
    using d(2) by (simp add: rels_def tails div_add_self2)
  show "rels ?t = rels t @ [r]"
  proof (rule nth_equalityI)
    fix k assume k: "k < length (rels ?t)"
    show "rels ?t ! k = (rels t @ [r]) ! k"
    proof (cases "k < length (rels t)")
      case True
      then have "sizeof_relation_size * k + sizeof_relation_size \<le> ?i" using in_front d(2) by metis
      then have "segment (rt_info ?t) (sizeof_relation_size * k) sizeof_relation_size
          = segment (rt_info t) (sizeof_relation_size * k) sizeof_relation_size"
        unfolding info using fit by (intro segment_write_out) auto
      then show ?thesis using True k by (simp add: rels_nth nth_append)
    next
      case False
      then have k': "k = length (rels t)" using k len by simp
      then have "segment (rt_info ?t) (sizeof_relation_size * k) sizeof_relation_size = ?b"
        unfolding info using segment_write_in [OF fit] d(2) by simp
      then show ?thesis using k k' by (simp add: rels_nth bytes_relation_size_roundtrip)
    qed
  qed (simp add: len)
  have lend: "length (dbs ?t) = length (dbs t)" by (simp add: dbs_def tails)
  show "dbs ?t = dbs t"
  proof (rule nth_equalityI)
    fix k assume k: "k < length (dbs ?t)"
    then have "rt_db_tail t + (sizeof_database_state * k + sizeof_database_state) \<le> length (rt_info t)"
      using in_back [of k "length (dbs t)"] d(1,3) lend by simp
    then have "segment (rt_info ?t) (rt_db_tail t + sizeof_database_state * k) sizeof_database_state
        = segment (rt_info t) (rt_db_tail t + sizeof_database_state * k) sizeof_database_state"
      unfolding info using fit le by (intro segment_write_out) auto
    then show "dbs ?t ! k = dbs t ! k" using k lend by (simp add: dbs_nth tails)
  qed (rule lend)
qed

text \<open>Prepending a database entry.\<close>

definition add_db :: "polar_rel_size_table \<Rightarrow> polar_database_state \<Rightarrow> polar_rel_size_table" where
  "add_db t d = t\<lparr>rt_info := take (rt_db_tail t - sizeof_database_state) (rt_info t) @ database_state_bytes d
       @ drop (rt_db_tail t - sizeof_database_state + sizeof_database_state) (rt_info t),
     rt_db_tail := rt_db_tail t - sizeof_database_state\<rparr>"

lemma add_db_spec:
  assumes wf: "table_wf t" and sp: "polar_table_space_available t sizeof_database_state"
  shows "table_wf (add_db t x)" "rels (add_db t x) = rels t" "dbs (add_db t x) = x # dbs t"
proof -
  let ?i = "rt_db_tail t - sizeof_database_state" and ?b = "database_state_bytes x" and ?t = "add_db t x"
  note d = table_wfD [OF wf]
  have le: "rt_rel_tail t \<le> ?i" "?i + sizeof_database_state = rt_db_tail t"
    using sp by (simp_all add: polar_table_space_available_def)
  then have fit: "?i + length ?b \<le> length (rt_info t)" using d(1,3) by simp
  have info: "rt_info ?t = take ?i (rt_info t) @ ?b @ drop (?i + length ?b) (rt_info t)"
    by (simp add: add_db_def)
  have tails: "rt_rel_tail ?t = rt_rel_tail t" "rt_db_tail ?t = ?i" by (simp_all add: add_db_def)
  have "length (rt_info ?t) = REL_INFO_TOTAL_SIZE" unfolding info using fit d(1) by simp
  moreover have rem: "REL_INFO_TOTAL_SIZE - ?i = sizeof_database_state * Suc (length (dbs t))" using d(3) le(2) by simp
  ultimately show "table_wf ?t" using wf le d(3) unfolding table_wf_def tails rem by auto
  have lenr: "length (rels ?t) = length (rels t)" by (simp add: rels_def tails)
  show "rels ?t = rels t"
  proof (rule nth_equalityI)
    fix k assume k: "k < length (rels ?t)"
    then have "sizeof_relation_size * k + sizeof_relation_size \<le> ?i" using in_front [of k] d(2) lenr le(1) by (metis order_trans)
    then have "segment (rt_info ?t) (sizeof_relation_size * k) sizeof_relation_size
        = segment (rt_info t) (sizeof_relation_size * k) sizeof_relation_size"
      unfolding info using fit by (intro segment_write_out) auto
    then show "rels ?t ! k = rels t ! k" using k lenr by (simp add: rels_nth)
  qed (rule lenr)
  have len: "length (dbs ?t) = Suc (length (dbs t))" using rem by (simp add: dbs_def tails)
  show "dbs ?t = x # dbs t"
  proof (rule nth_equalityI)
    fix k assume k: "k < length (dbs ?t)"
    show "dbs ?t ! k = (x # dbs t) ! k"
    proof (cases k)
      case 0
      then show ?thesis using k segment_write_in [OF fit, folded info]
        by (simp add: dbs_nth tails bytes_database_state_roundtrip)
    next
      case (Suc j)
      then have j: "j < length (dbs t)" using k len by simp
      have "rt_db_tail t + (sizeof_database_state * j + sizeof_database_state) \<le> length (rt_info t)"
        using in_back [OF j] d(1,3) by simp
      then have "segment (rt_info ?t) (rt_db_tail t + sizeof_database_state * j) sizeof_database_state
          = segment (rt_info t) (rt_db_tail t + sizeof_database_state * j) sizeof_database_state"
        unfolding info using fit le(2) by (intro segment_write_out) auto
      moreover have "?i + sizeof_database_state * k = rt_db_tail t + sizeof_database_state * j" using le(2) Suc by simp
      ultimately show ?thesis using k j Suc by (simp add: dbs_nth tails)
    qed
  qed (simp add: len)
qed

section \<open>Searching a table\<close>

definition db_hit :: "XLogRecPtr \<Rightarrow> Oid \<Rightarrow> Oid \<Rightarrow> polar_database_state list \<Rightarrow> polar_database_state option" where
  "db_hit lsn spc db ds = find (\<lambda>d. ds_db d = db \<and> ds_spc d = spc) (takeWhile (\<lambda>d. lsn < ds_lsn d) ds)"

definition rel_matches :: "BufferTag \<Rightarrow> polar_relation_size \<Rightarrow> bool" where
  "rel_matches tag r \<longleftrightarrow> rnode tag = rs_node r \<and> forkNum tag = rs_fork r \<and> blockNum tag \<ge> rs_rel_size r"

lemma memcpy_db:
  assumes "table_wf t" "k < length (dbs t)"
  shows "\<exists>bs. memcpy_from (rt_info t) (rt_db_tail t + sizeof_database_state * k) sizeof_database_state = Inr bs
    \<and> bytes_database_state bs = dbs t ! k" "rt_db_tail t + sizeof_database_state * k < REL_INFO_TOTAL_SIZE"
proof -
  have "rt_db_tail t + (sizeof_database_state * k + sizeof_database_state) \<le> REL_INFO_TOTAL_SIZE"
    using in_back [OF assms(2)] table_wfD(3) [OF assms(1)] by simp
  then show "\<exists>bs. memcpy_from (rt_info t) (rt_db_tail t + sizeof_database_state * k) sizeof_database_state = Inr bs
    \<and> bytes_database_state bs = dbs t ! k" "rt_db_tail t + sizeof_database_state * k < REL_INFO_TOTAL_SIZE"
    using table_wfD(1) [OF assms(1)] dbs_nth [OF assms(2)] sizeof_pos(2) by (auto simp: segment_def simp del: sizeof_pos)
qed

lemma search_db_loop_hit:
  assumes wf: "table_wf t"
  shows "k \<le> length (dbs t) \<Longrightarrow> search_db_loop t (rt_db_tail t + sizeof_database_state * k) lsn spc db res
    = Inr (case db_hit lsn spc db (drop k (dbs t)) of None \<Rightarrow> res
           | Some d \<Rightarrow> res\<lparr>sr_lsn := ds_lsn d, sr_state := ds_state d\<rparr>)"
proof (induction "length (dbs t) - k" arbitrary: k)
  case 0
  then show ?case using table_wfD(3) [OF wf] by (simp add: search_db_loop.simps db_hit_def)
next
  case (Suc n)
  then have k: "k < length (dbs t)" by simp
  obtain bs where bs: "memcpy_from (rt_info t) (rt_db_tail t + sizeof_database_state * k) sizeof_database_state = Inr bs"
      "bytes_database_state bs = dbs t ! k" using memcpy_db(1) [OF wf k] by blast
  have "drop k (dbs t) = dbs t ! k # drop (Suc k) (dbs t)" using k by (simp add: Cons_nth_drop_Suc)
  moreover have "search_db_loop t (rt_db_tail t + sizeof_database_state * k + sizeof_database_state) lsn spc db res
      = search_db_loop t (rt_db_tail t + sizeof_database_state * Suc k) lsn spc db res"
    by (simp add: algebra_simps)
  ultimately show ?case using bs memcpy_db(2) [OF wf k] Suc(1) [of "Suc k"] Suc(2) k
    by (subst search_db_loop.simps) (auto simp: db_hit_def not_le Let_def)
qed

lemma search_db_state_hit:
  "table_wf t \<Longrightarrow> polar_search_db_state t lsn spc db res
    = Inr (case db_hit lsn spc db (dbs t) of None \<Rightarrow> res\<lparr>sr_state := POLAR_DB_NOTFOUND\<rparr>
           | Some d \<Rightarrow> res\<lparr>sr_lsn := ds_lsn d, sr_state := ds_state d\<rparr>)"
  using search_db_loop_hit [of t 0 lsn spc db] by (simp add: polar_search_db_state_def split: option.splits)

text \<open>
  The relation entries from the newest on: the search stops at the first entry that is not after
  \<open>lsn\<close> or that truncates the block.
\<close>

fun rel_search :: "search_state \<Rightarrow> XLogRecPtr \<Rightarrow> BufferTag \<Rightarrow> polar_relation_size list \<Rightarrow> polar_rel_search_result
  \<Rightarrow> search_state \<times> polar_rel_search_result" where
  "rel_search st lsn tag [] res = (st, res)"
| "rel_search st lsn tag (r # rs) res =
     (if rs_lsn r \<le> lsn then (END, res)
      else if rel_matches tag r
      then (END, res\<lparr>sr_lsn := rs_lsn r, sr_state := POLAR_DB_BLOCK_TRUNCATED, sr_size := rs_rel_size r\<rparr>)
      else rel_search st lsn tag rs res)"

lemma search_truncate_loop_search:
  assumes wf: "table_wf t"
  shows "k \<le> length (rels t) \<Longrightarrow> search_truncate_loop c t (sizeof_relation_size * k) lsn tag res
    = Inr (rel_search (if rt_tid t > rc_min_tid c then NEXT else END) lsn tag (rev (take k (rels t))) res)"
proof (induction k)
  case (Suc k)
  then have k: "k < length (rels t)" by simp
  have "sizeof_relation_size * k + sizeof_relation_size \<le> length (rt_info t)"
    using in_front [OF k] table_wfD [OF wf] by simp
  then have "memcpy_from (rt_info t) (sizeof_relation_size * k) sizeof_relation_size
      = Inr (segment (rt_info t) (sizeof_relation_size * k) sizeof_relation_size)" by (simp add: segment_def)
  moreover have "rev (take (Suc k) (rels t)) = rels t ! k # rev (take k (rels t))"
    using k by (simp add: take_Suc_conv_app_nth)
  moreover have "sizeof_relation_size * Suc k > 0" "\<not> sizeof_relation_size * Suc k < sizeof_relation_size"
      "sizeof_relation_size * Suc k - sizeof_relation_size = sizeof_relation_size * k" by simp_all
  ultimately show ?case using Suc.IH k rels_nth [OF k]
    by (subst search_truncate_loop.simps) (simp add: rel_matches_def Let_def)
qed (simp add: search_truncate_loop.simps)

lemma search_truncate_info_search:
  "table_wf t \<Longrightarrow> polar_search_truncate_info c t lsn tag res
    = Inr (rel_search (if rt_tid t > rc_min_tid c then NEXT else END) lsn tag (rev (rels t)) res)"
  using search_truncate_loop_search [of t "length (rels t)" c] table_wfD(2) [of t]
  by (simp add: polar_search_truncate_info_def)

section \<open>The tables of the cache\<close>

text \<open>The table with number \<open>tid\<close>, in memory or in its file.\<close>

definition slot :: "polar_rel_size_cache \<Rightarrow> nat \<Rightarrow> nat" where
  "slot c tid = (tid - 1) mod rc_table_size c"

definition stored :: "polar_rel_size_cache \<Rightarrow> nat \<Rightarrow> polar_rel_size_table option" where
  "stored c tid = (if rt_tid (rc_tables c ! slot c tid) = tid then Some (rc_tables c ! slot c tid) else rc_files c tid)"

text \<open>
  \<open>a\<close> is the number of the active table: the ring has tables among the last ones, each at its
  slot; the tables from \<open>rc_min_tid\<close> to \<open>a\<close> are stored.
\<close>

definition ring_ok :: "polar_rel_size_cache \<Rightarrow> nat \<Rightarrow> bool" where
  "ring_ok c a \<longleftrightarrow> 0 < rc_table_size c \<and> length (rc_tables c) = rc_table_size c
     \<and> 0 < rc_min_tid c \<and> rc_min_tid c \<le> a \<and> a < 2 ^ 32
     \<and> rc_active_mid c = slot c a \<and> rt_tid (rc_tables c ! rc_active_mid c) = a
     \<and> (\<forall>i < rc_table_size c. let t = rt_tid (rc_tables c ! i) in
          t = 0 \<or> t \<le> a \<and> a < t + rc_table_size c \<and> slot c t = i)
     \<and> (\<forall>t \<in> {rc_min_tid c..a}. \<exists>tb. stored c t = Some tb \<and> rt_tid tb = t \<and> table_wf tb)"

lemma ring_okD:
  assumes "ring_ok c a"
  shows "0 < rc_table_size c" "length (rc_tables c) = rc_table_size c" "0 < rc_min_tid c" "rc_min_tid c \<le> a" "a < 2 ^ 32"
    "rc_active_mid c = slot c a" "rt_tid (rc_tables c ! rc_active_mid c) = a" "rc_active_mid c < length (rc_tables c)"
    "\<lbrakk>i < rc_table_size c; rt_tid (rc_tables c ! i) = t; t \<noteq> 0\<rbrakk> \<Longrightarrow> t \<le> a \<and> a < t + rc_table_size c \<and> slot c t = i"
    "\<lbrakk>rc_min_tid c \<le> t; t \<le> a\<rbrakk> \<Longrightarrow> \<exists>tb. stored c t = Some tb \<and> rt_tid tb = t \<and> table_wf tb"
  using assms by (auto simp: ring_ok_def Let_def slot_def)

lemma slot_less: "ring_ok c a \<Longrightarrow> slot c t < rc_table_size c"
  using ring_okD(1) by (simp add: slot_def)

lemma active_stored: "ring_ok c a \<Longrightarrow> stored c a = Some (rc_tables c ! rc_active_mid c)"
  using ring_okD(6,7) [of c a] by (simp add: stored_def)

lemma get_table_stored:
  assumes "ring_ok c a" "stored c t = Some tb"
  shows "polar_get_rel_size_table c t = Inr tb"
proof -
  have "slot c t < length (rc_tables c)" using slot_less [OF assms(1)] ring_okD(2) [OF assms(1)] by simp
  then have "aget (rc_tables c) ((t - 1) mod rc_table_size c) = Inr (rc_tables c ! slot c t)" by (simp add: slot_def)
  then show ?thesis using assms(2) by (auto simp: polar_get_rel_size_table_def stored_def split: if_splits)
qed

text \<open>Changing the active table only.\<close>

lemma put_active:
  assumes ok: "ring_ok c a" and tb: "rt_tid tb = a" "table_wf tb"
  defines "c' \<equiv> c\<lparr>rc_tables := (rc_tables c)[rc_active_mid c := tb]\<rparr>"
  shows "ring_ok c' a" "stored c' t = (if t = a then Some tb else stored c t)"
proof -
  note d = ring_okD [OF ok]
  have sl: "slot c' = slot c" by (simp add: slot_def c'_def fun_eq_iff)
  have nth: "rc_tables c' ! i = (if i = rc_active_mid c then tb else rc_tables c ! i)" if "i < rc_table_size c" for i
    using that d(2) by (simp add: c'_def nth_list_update)
  have files: "rc_files c' = rc_files c" by (simp add: c'_def)
  show st: "stored c' t = (if t = a then Some tb else stored c t)" for t
  proof (cases "slot c t = rc_active_mid c")
    case True
    then show ?thesis using d(6,7) nth [OF slot_less [OF ok], of t] tb(1) sl files by (simp add: stored_def)
  next
    case False
    then have "t \<noteq> a" using d(6) by auto
    then show ?thesis using False nth [OF slot_less [OF ok], of t] sl files by (simp add: stored_def)
  qed
  have tid: "rt_tid (rc_tables c' ! i) = rt_tid (rc_tables c ! i)" if "i < rc_table_size c" for i
    using nth [OF that] d(7) tb(1) by simp
  have fields: "rc_table_size c' = rc_table_size c" "rc_min_tid c' = rc_min_tid c" "rc_active_mid c' = rc_active_mid c"
      "length (rc_tables c') = length (rc_tables c)" by (simp_all add: c'_def)
  show "ring_ok c' a"
    unfolding ring_ok_def fields sl Let_def
  proof (intro conjI)
    show "rt_tid (rc_tables c' ! rc_active_mid c) = a" using tid d(2,7,8) by simp
    show "\<forall>i < rc_table_size c. rt_tid (rc_tables c' ! i) = 0 \<or> rt_tid (rc_tables c' ! i) \<le> a
        \<and> a < rt_tid (rc_tables c' ! i) + rc_table_size c \<and> slot c (rt_tid (rc_tables c' ! i)) = i"
    proof (intro allI impI)
      fix i assume i: "i < rc_table_size c"
      show "rt_tid (rc_tables c' ! i) = 0 \<or> rt_tid (rc_tables c' ! i) \<le> a
        \<and> a < rt_tid (rc_tables c' ! i) + rc_table_size c \<and> slot c (rt_tid (rc_tables c' ! i)) = i"
        unfolding tid [OF i] using d(9) [OF i refl] by blast
    qed
    show "\<forall>t \<in> {rc_min_tid c..a}. \<exists>tb. stored c' t = Some tb \<and> rt_tid tb = t \<and> table_wf tb"
      using st d(10) tb by auto
  qed (use d(1-8) in simp_all)
qed

text \<open>Making room: the active table stays, or the next table becomes the active one.\<close>

lemma init_table:
  "t < 2 ^ 32 \<Longrightarrow> rt_tid (polar_init_rel_size_table t) = t" "table_wf (polar_init_rel_size_table t)"
  "rels (polar_init_rel_size_table t) = []" "dbs (polar_init_rel_size_table t) = []"
  "rt_max_lsn (polar_init_rel_size_table t) = 0"
  by (simp_all add: polar_init_rel_size_table_def rel_size_table_zero_def table_wf_def rels_def dbs_def)

lemma init_table_space:
  "sz \<le> 32 \<Longrightarrow> polar_table_space_available (polar_init_rel_size_table t) sz"
  by (simp add: polar_table_space_available_def polar_init_rel_size_table_def rel_size_table_zero_def REL_INFO_TOTAL_SIZE_def)

lemma slot_Suc: "0 < a \<Longrightarrow> 0 < rc_table_size c \<Longrightarrow> LOOP_NEXT_VALUE (slot c a) (rc_table_size c) = slot c (Suc a)"
  using mod_Suc [of "a - 1" "rc_table_size c"] by (auto simp: LOOP_NEXT_VALUE_def slot_def split: if_splits)

lemma slot_range_neq:
  assumes "0 < t" "t < u" "u < t + rc_table_size c" shows "slot c t \<noteq> slot c u"
  using ring_index_neq [of 0 "u - t" "rc_table_size c" "t - 1"] assms by (simp add: slot_def)

definition next_table :: "polar_rel_size_cache \<Rightarrow> nat \<Rightarrow> polar_rel_size_cache" where
  "next_table c a = (let old = rc_tables c ! slot c (Suc a) in
     c\<lparr>rc_active_mid := slot c (Suc a), rc_files := (if rt_tid old > 0 then (rc_files c)(rt_tid old \<mapsto> old) else rc_files c),
       rc_tables := (rc_tables c)[slot c (Suc a) := polar_init_rel_size_table (Suc a)]\<rparr>)"

lemma allocate_next:
  assumes ok: "ring_ok c a" and disk: "rc_disk_ok c"
    and full: "\<not> polar_table_space_available (rc_tables c ! rc_active_mid c) sz"
  shows "polar_allocate_table_space c sz = Inr (next_table c a)"
proof -
  note d = ring_okD [OF ok]
  have "LOOP_NEXT_VALUE (rc_active_mid c) (rc_table_size c) = slot c (Suc a)" using slot_Suc [of a c] d(1,3,4,6) by simp
  moreover have "slot c (Suc a) < length (rc_tables c)" using slot_less [OF ok] d(2) by simp
  ultimately show ?thesis using d(7,8) full disk
    by (simp add: polar_allocate_table_space_def next_table_def Let_def polar_save_rel_size_table_def)
qed

lemma next_table_ok:
  assumes ok: "ring_ok c a" and a: "Suc a < 2 ^ 32"
  shows "ring_ok (next_table c a) (Suc a)"
    "stored (next_table c a) (Suc a) = Some (polar_init_rel_size_table (Suc a))"
    "\<lbrakk>rc_min_tid c \<le> t; t \<le> a\<rbrakk> \<Longrightarrow> stored (next_table c a) t = stored c t"
proof -
  let ?c = "next_table c a" and ?s = "slot c (Suc a)"
  note d = ring_okD [OF ok]
  have sl: "slot ?c = slot c" by (simp add: slot_def next_table_def Let_def fun_eq_iff)
  have s: "?s < rc_table_size c" by (rule slot_less [OF ok])
  have nth: "rc_tables ?c ! i = (if i = ?s then polar_init_rel_size_table (Suc a) else rc_tables c ! i)"
    if "i < rc_table_size c" for i using that d(2) by (simp add: next_table_def Let_def nth_list_update)
  show new: "stored ?c (Suc a) = Some (polar_init_rel_size_table (Suc a))"
    using nth [OF s] init_table(1) [OF a] by (simp add: stored_def sl)
  show old: "stored ?c t = stored c t" if t: "rc_min_tid c \<le> t" "t \<le> a" for t
  proof (cases "rt_tid (rc_tables c ! slot c t) = t")
    case True
    show ?thesis
    proof (cases "slot c t = ?s")
      case True
      then show ?thesis
        using nth [OF s] init_table(1) [OF a] t \<open>rt_tid (rc_tables c ! slot c t) = t\<close> d(3)
        by (simp add: stored_def sl) (simp add: next_table_def Let_def)
    next
      case False
      then show ?thesis using nth [OF slot_less [OF ok], of t] True by (simp add: stored_def sl)
    qed
  next
    case False
    have "rt_tid (rc_tables ?c ! slot c t) \<noteq> t"
      using nth [OF slot_less [OF ok], of t] False init_table(1) [OF a] t by auto
    moreover have "rc_files ?c t = rc_files c t"
      using False d(9) [OF s refl] by (auto simp: next_table_def Let_def)
    ultimately show ?thesis using False by (simp add: stored_def sl)
  qed
  have fields: "rc_table_size ?c = rc_table_size c" "rc_min_tid ?c = rc_min_tid c" "rc_active_mid ?c = ?s"
      "length (rc_tables ?c) = length (rc_tables c)" by (simp_all add: next_table_def Let_def)
  have slots: "let t = rt_tid (rc_tables ?c ! i) in t = 0 \<or> t \<le> Suc a \<and> Suc a < t + rc_table_size c \<and> slot c t = i"
    if i: "i < rc_table_size c" for i
  proof (cases "i = ?s")
    case True
    then show ?thesis using nth [OF s] init_table(1) [OF a] d(1) by (simp add: Let_def)
  next
    case False
    define t where "t = rt_tid (rc_tables c ! i)"
    have "Suc a \<noteq> t + rc_table_size c" if "t \<noteq> 0"
    proof
      assume eq: "Suc a = t + rc_table_size c"
      then have "slot c (Suc a) = (t - 1 + rc_table_size c) mod rc_table_size c" using that by (simp add: slot_def)
      then have "slot c (Suc a) = slot c t" by (simp add: slot_def)
      then show False using d(9) [OF i t_def [symmetric] that] False by simp
    qed
    then show ?thesis using nth [OF i] False d(9) [OF i t_def [symmetric]] by (auto simp: Let_def t_def)
  qed
  show "ring_ok ?c (Suc a)"
    unfolding ring_ok_def fields sl
  proof (intro conjI)
    show "rt_tid (rc_tables ?c ! ?s) = Suc a" using nth [OF s] init_table(1) [OF a] by simp
    show "\<forall>t \<in> {rc_min_tid c..Suc a}. \<exists>tb. stored ?c t = Some tb \<and> rt_tid tb = t \<and> table_wf tb"
    proof
      fix t assume "t \<in> {rc_min_tid c..Suc a}"
      then consider "t = Suc a" | "rc_min_tid c \<le> t" "t \<le> a" by force
      then show "\<exists>tb. stored ?c t = Some tb \<and> rt_tid tb = t \<and> table_wf tb"
        by cases (use new init_table [of t] a old d(10) in auto)
    qed
  qed (use d(1-8) a slots in simp_all)
qed

section \<open>The log\<close>

datatype size_event = Trunc polar_relation_size | Db polar_database_state

primrec ev_lsn :: "size_event \<Rightarrow> XLogRecPtr" where
  "ev_lsn (Trunc r) = rs_lsn r"
| "ev_lsn (Db d) = ds_lsn d"

primrec affects :: "BufferTag \<Rightarrow> size_event \<Rightarrow> bool" where
  "affects tag (Trunc r) \<longleftrightarrow> rel_matches tag r"
| "affects tag (Db d) \<longleftrightarrow> ds_db d = dbNode (rnode tag) \<and> ds_spc d = spcNode (rnode tag)"

definition table_events :: "polar_rel_size_table \<Rightarrow> size_event set" where
  "table_events tb = Trunc ` set (rels tb) \<union> Db ` set (dbs tb)"

definition events :: "polar_rel_size_cache \<Rightarrow> nat \<Rightarrow> size_event set" where
  "events c t = table_events (the (stored c t))"

abbreviation all_events :: "polar_rel_size_cache \<Rightarrow> nat \<Rightarrow> size_event set" where
  "all_events c a \<equiv> \<Union>t \<in> {rc_min_tid c..a}. events c t"

text \<open>A table: its lists are in the order of the LSNs, the last of which is \<open>rt_max_lsn\<close>.\<close>

definition table_sorted :: "polar_rel_size_table \<Rightarrow> bool" where
  "table_sorted tb \<longleftrightarrow> sorted (map rs_lsn (rels tb)) \<and> sorted (rev (map ds_lsn (dbs tb)))
     \<and> (if table_events tb = {} then rt_max_lsn tb = 0
        else 0 < rt_max_lsn tb \<and> rt_max_lsn tb \<in> ev_lsn ` table_events tb
          \<and> (\<forall>e \<in> table_events tb. ev_lsn e \<le> rt_max_lsn tb))"

definition log_ok :: "polar_rel_size_cache \<Rightarrow> nat \<Rightarrow> bool" where
  "log_ok c a \<longleftrightarrow> (\<forall>t \<in> {rc_min_tid c..a}. table_sorted (the (stored c t)) \<and> (a = 1 \<or> events c t \<noteq> {}))
     \<and> (\<forall>t \<in> {rc_min_tid c..a}. \<forall>u \<in> {rc_min_tid c..a}. t < u \<longrightarrow>
          (\<forall>e \<in> events c t. \<forall>e' \<in> events c u. ev_lsn e \<le> ev_lsn e'))"

lemma log_okD:
  assumes "log_ok c a"
  shows "\<lbrakk>rc_min_tid c \<le> t; t \<le> a\<rbrakk> \<Longrightarrow> table_sorted (the (stored c t))"
    "\<lbrakk>rc_min_tid c \<le> t; t \<le> a; a \<noteq> 1\<rbrakk> \<Longrightarrow> events c t \<noteq> {}"
    "\<lbrakk>rc_min_tid c \<le> t; t < u; u \<le> a; e \<in> events c t; e' \<in> events c u\<rbrakk> \<Longrightarrow> ev_lsn e \<le> ev_lsn e'"
proof -
  show "\<lbrakk>rc_min_tid c \<le> t; t \<le> a\<rbrakk> \<Longrightarrow> table_sorted (the (stored c t))"
    "\<lbrakk>rc_min_tid c \<le> t; t \<le> a; a \<noteq> 1\<rbrakk> \<Longrightarrow> events c t \<noteq> {}"
    using assms by (simp_all add: log_ok_def)
  assume "rc_min_tid c \<le> t" "t < u" "u \<le> a" "e \<in> events c t" "e' \<in> events c u"
  moreover from this have "t \<in> {rc_min_tid c..a}" "u \<in> {rc_min_tid c..a}" by auto
  ultimately show "ev_lsn e \<le> ev_lsn e'" using assms unfolding log_ok_def by blast
qed

lemma max_lsn_events:
  assumes "log_ok c a" "rc_min_tid c \<le> t" "t \<le> a" "stored c t = Some tb" "e \<in> events c t"
  shows "ev_lsn e \<le> rt_max_lsn tb" "rt_max_lsn tb \<in> ev_lsn ` events c t" "0 < rt_max_lsn tb"
proof -
  have "table_sorted tb" using log_okD(1) [OF assms(1-3)] assms(4) by simp
  moreover have ev: "e \<in> table_events tb" "events c t = table_events tb" using assms(4,5) by (simp_all add: events_def)
  then have "table_events tb \<noteq> {}" by blast
  ultimately show "ev_lsn e \<le> rt_max_lsn tb" "rt_max_lsn tb \<in> ev_lsn ` events c t" "0 < rt_max_lsn tb"
    using ev by (simp_all add: table_sorted_def)
qed

text \<open>An LSN that is not before a table's last one is not before the events of the earlier tables.\<close>

lemma earlier_events:
  assumes ok: "ring_ok c a" "log_ok c a" and t: "rc_min_tid c \<le> t" "t \<le> a" "stored c t = Some tb"
    and u: "rc_min_tid c \<le> u" "u \<le> t" "e \<in> events c u"
  shows "ev_lsn e \<le> rt_max_lsn tb"
proof (cases "u = t")
  case True
  then show ?thesis using max_lsn_events(1) [OF ok(2) t] u by simp
next
  case False
  then have "a \<noteq> 1" using u t ring_okD(3) [OF ok(1)] by auto
  then obtain e' where e': "e' \<in> events c t" using log_okD(2) [OF ok(2) t(1,2)] by blast
  then have "ev_lsn e \<le> ev_lsn e'" using log_okD(3) [OF ok(2) u(1) _ t(2) u(3)] False u(2) by simp
  then show ?thesis using max_lsn_events(1) [OF ok(2) t e'] by simp
qed

section \<open>Recording an event\<close>

definition record_event :: "polar_rel_size_cache \<Rightarrow> size_event \<Rightarrow> polar_rel_size_cache result" where
  "record_event c e = (case e of
     Trunc r \<Rightarrow> polar_record_rel_size c (rs_lsn r) (rs_node r) (rs_fork r) (rs_rel_size r)
   | Db d \<Rightarrow> polar_record_db_state c (ds_lsn d) (ds_spc d) (ds_db d) (ds_state d))"

primrec ev_size :: "size_event \<Rightarrow> nat" where
  "ev_size (Trunc r) = sizeof_relation_size"
| "ev_size (Db d) = sizeof_database_state"

definition add_event :: "polar_rel_size_table \<Rightarrow> size_event \<Rightarrow> polar_rel_size_table" where
  "add_event tb e = polar_update_lsn_range (case e of Trunc r \<Rightarrow> add_rel tb r | Db d \<Rightarrow> add_db tb d) (ev_lsn e)"

lemma record_event_add:
  assumes al: "polar_allocate_table_space c (ev_size e) = Inr c1" and ok: "ring_ok c1 a"
    and tb: "rc_tables c1 ! rc_active_mid c1 = tb" "table_wf tb" "polar_table_space_available tb (ev_size e)"
  shows "record_event c e = Inr (c1\<lparr>rc_tables := (rc_tables c1)[rc_active_mid c1 := add_event tb e]\<rparr>)"
proof -
  note d = ring_okD(8) [OF ok]
  note w = table_wfD [OF tb(2)]
  show ?thesis
  proof (cases e)
    case (Trunc r)
    have "rt_rel_tail tb + length (relation_size_bytes r) \<le> length (rt_info tb)"
      using tb(3) w Trunc by (simp add: polar_table_space_available_def)
    then show ?thesis using al d tb(1) Trunc
      by (cases r) (simp add: record_event_def polar_record_rel_size_def Let_def add_event_def add_rel_def)
  next
    case (Db x)
    have "sizeof_database_state \<le> rt_db_tail tb" "rt_db_tail tb \<le> length (rt_info tb)"
      using tb(3) w Db by (simp_all add: polar_table_space_available_def)
    then show ?thesis using al d tb(1) Db
      by (cases x) (simp add: record_event_def polar_record_db_state_def Let_def add_event_def add_db_def)
  qed
qed

lemma update_lsn_range_lists [simp]:
  "rels (polar_update_lsn_range tb lsn) = rels tb" "dbs (polar_update_lsn_range tb lsn) = dbs tb"
  "rt_max_lsn (polar_update_lsn_range tb lsn) = lsn" "rt_tid (polar_update_lsn_range tb lsn) = rt_tid tb"
  "table_wf (polar_update_lsn_range tb lsn) = table_wf tb"
  by (simp_all add: polar_update_lsn_range_def rels_def dbs_def table_wf_def)

lemma add_event_spec:
  assumes wf: "table_wf tb" "table_sorted tb" and sp: "polar_table_space_available tb (ev_size e)"
    and e: "0 < ev_lsn e" "\<forall>x \<in> table_events tb. ev_lsn x \<le> ev_lsn e"
  shows "table_wf (add_event tb e)" "table_sorted (add_event tb e)" "rt_tid (add_event tb e) = rt_tid tb"
    "table_events (add_event tb e) = insert e (table_events tb)"
proof -
  have lists: "table_wf (add_event tb e)" "rels (add_event tb e) = rels tb @ (case e of Trunc r \<Rightarrow> [r] | Db d \<Rightarrow> [])"
      "dbs (add_event tb e) = (case e of Trunc r \<Rightarrow> [] | Db d \<Rightarrow> [d]) @ dbs tb"
      "rt_max_lsn (add_event tb e) = ev_lsn e" "rt_tid (add_event tb e) = rt_tid tb"
    using add_rel_spec [OF wf(1)] add_db_spec [OF wf(1)] sp
    by (cases e; simp add: add_event_def; simp add: add_rel_def add_db_def)+
  show "table_wf (add_event tb e)" "rt_tid (add_event tb e) = rt_tid tb" by (fact lists)+
  show ev: "table_events (add_event tb e) = insert e (table_events tb)"
    unfolding table_events_def lists by (cases e) auto
  have le: "r \<in> set (rels tb) \<Longrightarrow> rs_lsn r \<le> ev_lsn e" "d \<in> set (dbs tb) \<Longrightarrow> ds_lsn d \<le> ev_lsn e" for r d
    using e(2) by (force simp: table_events_def)+
  have so: "sorted (map rs_lsn (rels tb))" "sorted (rev (map ds_lsn (dbs tb)))" using wf(2) by (auto simp: table_sorted_def)
  have "sorted (map rs_lsn (rels (add_event tb e)))" "sorted (rev (map ds_lsn (dbs (add_event tb e))))"
    unfolding lists using so le by (cases e; auto simp: sorted_append)+
  then show "table_sorted (add_event tb e)" using e unfolding table_sorted_def ev lists by simp
qed

lemma full_nonempty:
  assumes "table_wf tb" "\<not> polar_table_space_available tb (ev_size e)"
  shows "table_events tb \<noteq> {}"
proof
  assume "table_events tb = {}"
  then have "rels tb = []" "dbs tb = []" by (auto simp: table_events_def)
  then have "rt_rel_tail tb = 0" "rt_db_tail tb = REL_INFO_TOTAL_SIZE" using table_wfD [OF assms(1)] by simp_all
  then show False using assms(2)
    by (cases e) (simp_all add: polar_table_space_available_def REL_INFO_TOTAL_SIZE_def sizeof_relation_size_def sizeof_database_state_def)
qed

text \<open>The log after an event was added to the active table, or to a new one.\<close>

lemma log_extend:
  assumes ok: "log_ok c a" and min: "rc_min_tid c' = rc_min_tid c" "rc_min_tid c \<le> a" "0 < rc_min_tid c"
    and a': "a' = a \<or> a' = Suc a \<and> events c a \<noteq> {}"
    and old: "\<And>t. rc_min_tid c \<le> t \<Longrightarrow> t < a' \<Longrightarrow> stored c' t = stored c t"
    and new: "table_sorted (the (stored c' a'))" "events c' a' = insert e (if a' = a then events c a else {})"
    and e: "\<forall>x \<in> all_events c a. ev_lsn x \<le> ev_lsn e"
  shows "log_ok c' a'" "all_events c' a' = insert e (all_events c a)"
proof -
  have ev: "events c' t = events c t" if "rc_min_tid c \<le> t" "t < a'" for t using old [OF that] by (simp add: events_def)
  have lt: "t \<le> a" if "t < a'" for t using that a' by auto
  have mem: "ev_lsn x \<le> ev_lsn e" if "x \<in> events c t" "rc_min_tid c \<le> t" "t \<le> a" for x t using e that by auto
  have "events c t \<noteq> {}" if "a' \<noteq> 1" "rc_min_tid c \<le> t" "t < a'" for t
  proof (cases "a = 1")
    case True
    then have "t = a" "a' = Suc a" using that a' min by auto
    then show ?thesis using a' by simp
  next
    case False
    then show ?thesis using log_okD(2) [OF ok that(2) lt [OF that(3)]] by simp
  qed
  then have "table_sorted (the (stored c' t)) \<and> (a' = 1 \<or> events c' t \<noteq> {})" if "rc_min_tid c \<le> t" "t \<le> a'" for t
    using that new log_okD(1) [OF ok] old ev lt by (cases "t = a'") auto
  moreover have "ev_lsn x \<le> ev_lsn y"
    if tu: "rc_min_tid c \<le> t" "t < u" "u \<le> a'" and xy: "x \<in> events c' t" "y \<in> events c' u" for t u x y
  proof (cases "u = a'")
    case False
    then show ?thesis using tu xy ev [of t] ev [of u] lt [of u] log_okD(3) [OF ok, of t u x y] by simp
  next
    case True
    have x: "x \<in> events c t" "t \<le> a" using tu xy ev [of t] lt [of t] by auto
    show ?thesis
    proof (cases "y = e")
      case False
      then have "y \<in> events c a" "a' = a" using xy(2) True new(2) by (auto split: if_splits)
      then show ?thesis using log_okD(3) [OF ok tu(1) _ _ x(1), of a] tu True by simp
    qed (use mem [OF x(1) tu(1) x(2)] in simp)
  qed
  ultimately show "log_ok c' a'" unfolding log_ok_def min(1) by (metis atLeastAtMost_iff)
  have "{rc_min_tid c..a'} = insert a' {t. rc_min_tid c \<le> t \<and> t < a'}" using min a' by auto
  moreover have "{rc_min_tid c..a} = {t. rc_min_tid c \<le> t \<and> t < a'} \<union> (if a' = a then {a} else {})" using min a' by auto
  ultimately show "all_events c' a' = insert e (all_events c a)"
    unfolding min(1) using ev new(2) by (auto split: if_splits)
qed

lemma record_active:
  assumes al: "polar_allocate_table_space c (ev_size e) = Inr c1" and ok1: "ring_ok c1 a'"
    and sp: "polar_table_space_available (rc_tables c1 ! rc_active_mid c1) (ev_size e)"
    and so: "table_sorted (rc_tables c1 ! rc_active_mid c1)"
    and ev: "table_events (rc_tables c1 ! rc_active_mid c1) = (if a' = a then events c a else {})"
    and ok: "log_ok c a" and min: "rc_min_tid c1 = rc_min_tid c" "rc_min_tid c \<le> a" "0 < rc_min_tid c"
    and a': "a' = a \<or> a' = Suc a \<and> events c a \<noteq> {}"
    and old: "\<And>t. rc_min_tid c \<le> t \<Longrightarrow> t < a' \<Longrightarrow> stored c1 t = stored c t"
    and e: "0 < ev_lsn e" "\<forall>x \<in> all_events c a. ev_lsn x \<le> ev_lsn e"
  shows "\<exists>c'. record_event c e = Inr c' \<and> ring_ok c' a' \<and> log_ok c' a' \<and> rc_disk_ok c' = rc_disk_ok c1
    \<and> all_events c' a' = insert e (all_events c a)"
proof -
  define tb where "tb = rc_tables c1 ! rc_active_mid c1"
  define c' where "c' = c1\<lparr>rc_tables := (rc_tables c1)[rc_active_mid c1 := add_event tb e]\<rparr>"
  have tb: "table_wf tb" "rt_tid tb = a'"
    using ring_okD(10) [OF ok1 ring_okD(4) [OF ok1] order_refl] active_stored [OF ok1] by (auto simp: tb_def)
  have "a \<in> {rc_min_tid c..a}" using min by simp
  then have "\<forall>x \<in> table_events tb. ev_lsn x \<le> ev_lsn e" using e(2) unfolding tb_def ev by auto
  note n = add_event_spec [OF tb(1) so [folded tb_def] sp [folded tb_def] e(1) this]
  note pa = put_active [OF ok1 n(3) [unfolded tb(2)] n(1), folded c'_def]
  have m: "rc_min_tid c' = rc_min_tid c" "rc_disk_ok c' = rc_disk_ok c1" using min by (simp_all add: c'_def)
  have st: "stored c' a' = Some (add_event tb e)" using pa(2) [of a'] by simp
  have old': "stored c' t = stored c t" if "rc_min_tid c \<le> t" "t < a'" for t using pa(2) [of t] old [OF that] that by simp
  have "events c' a' = insert e (if a' = a then events c a else {})"
    unfolding events_def st using n(4) ev by (simp add: tb_def events_def)
  moreover have "table_sorted (the (stored c' a'))" using st n(2) by simp
  ultimately have "log_ok c' a'" "all_events c' a' = insert e (all_events c a)"
    using log_extend [OF ok m(1) min(2,3) a' old' _ _ e(2)] by blast+
  then show ?thesis
    using record_event_add [OF al ok1 tb_def [symmetric] tb(1) sp [folded tb_def]] pa(1) m(2) unfolding c'_def by blast
qed

lemma record_event_spec:
  assumes ok: "ring_ok c a" "log_ok c a" "rc_disk_ok c" and a: "Suc a < 2 ^ 32"
    and e: "0 < ev_lsn e" "\<forall>x \<in> all_events c a. ev_lsn x \<le> ev_lsn e"
  shows "\<exists>c' a'. record_event c e = Inr c' \<and> ring_ok c' a' \<and> log_ok c' a' \<and> rc_disk_ok c'
    \<and> a' \<le> Suc a \<and> all_events c' a' = insert e (all_events c a)"
proof -
  note d = ring_okD [OF ok(1)]
  let ?tb = "rc_tables c ! rc_active_mid c"
  have st: "stored c a = Some ?tb" by (rule active_stored [OF ok(1)])
  have tb: "table_wf ?tb" "table_sorted ?tb" "table_events ?tb = events c a"
    using d(10) [OF d(4) order_refl] log_okD(1) [OF ok(2) d(4) order_refl] st by (auto simp: events_def)
  show ?thesis
  proof (cases "polar_table_space_available ?tb (ev_size e)")
    case True
    have al: "polar_allocate_table_space c (ev_size e) = Inr c"
      using True d(8) by (simp add: polar_allocate_table_space_def)
    have "table_events ?tb = (if a = a then events c a else {})" using tb(3) by simp
    from record_active [OF al ok(1) True tb(2) this ok(2) refl d(4,3) disjI1 [OF refl] refl e]
    show ?thesis using ok(3) by (metis le_SucI order_refl)
  next
    case False
    let ?i = "polar_init_rel_size_table (Suc a)"
    note nt = next_table_ok [OF ok(1) a]
    have act: "rc_tables (next_table c a) ! rc_active_mid (next_table c a) = ?i" using nt(2) active_stored [OF nt(1)] by simp
    have ie: "table_events ?i = (if Suc a = a then events c a else {})" by (simp add: table_events_def init_table)
    have iso: "table_sorted ?i" using ie by (simp add: table_sorted_def init_table)
    have sp: "polar_table_space_available ?i (ev_size e)"
      by (cases e) (simp_all add: init_table_space sizeof_relation_size_def sizeof_database_state_def)
    have min: "rc_min_tid (next_table c a) = rc_min_tid c" "rc_disk_ok (next_table c a)"
      using ok(3) by (simp_all add: next_table_def Let_def)
    have new: "Suc a = a \<or> Suc a = Suc a \<and> events c a \<noteq> {}" using full_nonempty [OF tb(1) False] tb(3) by simp
    have old: "stored (next_table c a) t = stored c t" if "rc_min_tid c \<le> t" "t < Suc a" for t using nt(3) that by simp
    from record_active [OF allocate_next [OF ok(1,3) False] nt(1) sp [folded act] iso [folded act] ie [folded act]
        ok(2) min(1) d(4,3) new old e]
    show ?thesis using min(2) by blast
  qed
qed

section \<open>Truncating the log\<close>

text \<open>The oldest table goes, from memory or from its file.\<close>

definition drop_table :: "polar_rel_size_cache \<Rightarrow> polar_rel_size_cache" where
  "drop_table c = (let t = rc_min_tid c in
     (if rt_tid (rc_tables c ! slot c t) = t
      then c\<lparr>rc_tables := (rc_tables c)[slot c t := rel_size_table_zero]\<rparr>
      else polar_unlink_rel_size_table c t)\<lparr>rc_min_tid := Suc t\<rparr>)"

lemma drop_table_fields:
  "rc_table_size (drop_table c) = rc_table_size c" "rc_min_tid (drop_table c) = Suc (rc_min_tid c)"
  "rc_active_mid (drop_table c) = rc_active_mid c" "length (rc_tables (drop_table c)) = length (rc_tables c)"
  "rc_disk_ok (drop_table c) = rc_disk_ok c" "slot (drop_table c) = slot c"
  by (simp_all add: drop_table_def Let_def polar_unlink_rel_size_table_def slot_def fun_eq_iff)

lemma drop_table_nth:
  assumes "ring_ok c a" "i < rc_table_size c"
  shows "rc_tables (drop_table c) ! i = (if rt_tid (rc_tables c ! i) = rc_min_tid c then rel_size_table_zero else rc_tables c ! i)"
proof -
  have "slot c (rc_min_tid c) = i" if "rt_tid (rc_tables c ! i) = rc_min_tid c"
    using ring_okD(9) [OF assms that] ring_okD(3) [OF assms(1)] by simp
  then show ?thesis using assms(2) ring_okD(2) [OF assms(1)]
    by (cases "slot c (rc_min_tid c) = i") (auto simp: drop_table_def Let_def polar_unlink_rel_size_table_def)
qed

lemma drop_table_ok:
  assumes ok: "ring_ok c a" and lt: "rc_min_tid c < a"
  shows "ring_ok (drop_table c) a" "rc_min_tid c < t \<Longrightarrow> stored (drop_table c) t = stored c t"
proof -
  note d = ring_okD [OF ok]
  note nth = drop_table_nth [OF ok]
  have zero: "rt_tid rel_size_table_zero = 0" by (simp add: rel_size_table_zero_def)
  show st: "stored (drop_table c) t = stored c t" if "rc_min_tid c < t" for t
  proof -
    have "rc_files (drop_table c) t = rc_files c t"
      using that by (simp add: drop_table_def Let_def polar_unlink_rel_size_table_def)
    then show ?thesis using nth [OF slot_less [OF ok], of t] zero that
      by (simp add: stored_def drop_table_fields)
  qed
  have active: "rc_tables (drop_table c) ! rc_active_mid c = rc_tables c ! rc_active_mid c"
    using nth [of "rc_active_mid c"] d(2,7,8) lt by simp
  have slots: "let t = rt_tid (rc_tables (drop_table c) ! i) in t = 0 \<or> t \<le> a \<and> a < t + rc_table_size c \<and> slot c t = i"
    if i: "i < rc_table_size c" for i
    using nth [OF i] d(9) [OF i refl] zero by (cases "rt_tid (rc_tables c ! i) = rc_min_tid c") (auto simp: Let_def)
  show "ring_ok (drop_table c) a"
    unfolding ring_ok_def drop_table_fields active
  proof (intro conjI)
    show "\<forall>t \<in> {Suc (rc_min_tid c)..a}. \<exists>tb. stored (drop_table c) t = Some tb \<and> rt_tid tb = t \<and> table_wf tb"
      using st d(10) by simp
  qed (use d(1-8) lt slots in simp_all)
qed

lemma truncate_step:
  assumes ok: "ring_ok c a" "log_ok c a" and st: "stored c (rc_min_tid c) = Some tb" "lsn \<ge> rt_max_lsn tb"
    and lt: "rc_min_tid c < a"
  shows "truncate_tables c lsn (rc_min_tid c # ts) = truncate_tables (drop_table c) lsn ts"
    "log_ok (drop_table c) a" "all_events (drop_table c) a \<subseteq> all_events c a"
    "\<forall>e \<in> all_events c a - all_events (drop_table c) a. ev_lsn e \<le> lsn"
proof -
  note d = ring_okD [OF ok(1)]
  note dt = drop_table_ok [OF ok(1) lt]
  have "Suc (rc_min_tid c) < 2 ^ 32" using d(5) lt by simp
  then have "Suc (rc_min_tid c) mod 2 ^ 32 = Suc (rc_min_tid c)" by (rule mod_less)
  then show "truncate_tables c lsn (rc_min_tid c # ts) = truncate_tables (drop_table c) lsn ts"
    using get_table_stored [OF ok(1) st(1)] st(2)
    by (simp add: drop_table_def Let_def slot_def polar_unlink_rel_size_table_def)
  have ev: "events (drop_table c) t = events c t" if "rc_min_tid c < t" for t using dt(2) [OF that] by (simp add: events_def)
  have "rc_min_tid c \<le> t" "rc_min_tid c < t" if "t \<in> {rc_min_tid (drop_table c)..a}" for t
    using that by (simp_all add: drop_table_fields)
  note r = this
  show "log_ok (drop_table c) a"
    unfolding log_ok_def
  proof (intro conjI ballI impI)
    fix t assume t: "t \<in> {rc_min_tid (drop_table c)..a}"
    show "table_sorted (the (stored (drop_table c) t))" using log_okD(1) [OF ok(2) r(1) [OF t]] t dt(2) [OF r(2) [OF t]] by simp
    show "a = 1 \<or> events (drop_table c) t \<noteq> {}" using log_okD(2) [OF ok(2) r(1) [OF t]] t ev [OF r(2) [OF t]] by auto
    fix u e e' assume "u \<in> {rc_min_tid (drop_table c)..a}" "t < u" "e \<in> events (drop_table c) t" "e' \<in> events (drop_table c) u"
    then show "ev_lsn e \<le> ev_lsn e'" using log_okD(3) [OF ok(2) r(1) [OF t], of u e e'] ev [OF r(2) [OF t]] ev [OF r(2)] by simp
  qed
  have all: "all_events c a = events c (rc_min_tid c) \<union> all_events (drop_table c) a"
  proof -
    have "{rc_min_tid c..a} = insert (rc_min_tid c) {rc_min_tid (drop_table c)..a}" using lt by (auto simp: drop_table_fields)
    then show ?thesis using ev r(2) by auto
  qed
  then show "all_events (drop_table c) a \<subseteq> all_events c a" by blast
  show "\<forall>e \<in> all_events c a - all_events (drop_table c) a. ev_lsn e \<le> lsn"
    using all max_lsn_events(1) [OF ok(2) order_refl d(4) st(1)] st(2) order_trans by blast
qed

lemma truncate_none:
  assumes ok: "ring_ok c a"
  shows "\<forall>t \<in> set ts. \<exists>tb. stored c t = Some tb \<and> lsn < rt_max_lsn tb \<Longrightarrow> truncate_tables c lsn ts = Inr c"
proof (induction ts)
  case (Cons t ts)
  then obtain tb where "stored c t = Some tb" "\<not> lsn \<ge> rt_max_lsn tb" by auto
  then show ?case using get_table_stored [OF ok] Cons by simp
qed simp

lemma truncate_tables_spec:
  "\<lbrakk>ring_ok c a; log_ok c a\<rbrakk> \<Longrightarrow> \<exists>c'. truncate_tables c lsn [rc_min_tid c..<a] = Inr c' \<and> ring_ok c' a \<and> log_ok c' a
     \<and> rc_disk_ok c' = rc_disk_ok c \<and> all_events c' a \<subseteq> all_events c a \<and> (\<forall>e \<in> all_events c a - all_events c' a. ev_lsn e \<le> lsn)"
proof (induction "a - rc_min_tid c" arbitrary: c)
  case 0
  then have "truncate_tables c lsn [rc_min_tid c..<a] = Inr c" by simp
  then show ?case using 0 by (intro exI [of _ c]) simp
next
  case (Suc n)
  note d = ring_okD [OF Suc.prems(1)]
  have lt: "rc_min_tid c < a" using Suc(2) by simp
  obtain tb where tb: "stored c (rc_min_tid c) = Some tb" using d(10) [OF order_refl d(4)] by blast
  show ?case
  proof (cases "lsn \<ge> rt_max_lsn tb")
    case True
    note ts = truncate_step [OF Suc.prems tb True lt]
    have n: "n = a - rc_min_tid (drop_table c)" using Suc(2) by (simp add: drop_table_fields)
    obtain c' where c': "truncate_tables (drop_table c) lsn [rc_min_tid (drop_table c)..<a] = Inr c'" "ring_ok c' a" "log_ok c' a"
        "rc_disk_ok c' = rc_disk_ok c" "all_events c' a \<subseteq> all_events (drop_table c) a"
        "\<forall>e \<in> all_events (drop_table c) a - all_events c' a. ev_lsn e \<le> lsn"
      using Suc(1) [OF n drop_table_ok(1) [OF Suc.prems(1) lt] ts(2)] unfolding drop_table_fields(5) by blast
    have "[rc_min_tid c..<a] = rc_min_tid c # [rc_min_tid (drop_table c)..<a]"
      unfolding drop_table_fields(2) using lt by (rule upt_conv_Cons)
    then have "truncate_tables c lsn [rc_min_tid c..<a] = Inr c'" using ts(1) c'(1) by simp
    moreover have "all_events c' a \<subseteq> all_events c a" using c'(5) ts(3) by blast
    moreover have "\<forall>e \<in> all_events c a - all_events c' a. ev_lsn e \<le> lsn"
    proof
      fix e assume e: "e \<in> all_events c a - all_events c' a"
      show "ev_lsn e \<le> lsn"
        by (cases "e \<in> all_events (drop_table c) a") (use e in \<open>simp only: Diff_iff bspec [OF c'(6)] bspec [OF ts(4)] simp_thms\<close>)+
    qed
    ultimately show ?thesis using c'(2-4) by (intro exI [of _ c'] conjI)
  next
    case False
    have "\<exists>tb. stored c t = Some tb \<and> lsn < rt_max_lsn tb" if t: "t \<in> set [rc_min_tid c..<a]" for t
    proof -
      have tr: "rc_min_tid c \<le> t" "t \<le> a" "a \<noteq> 1" using t lt d(3) by auto
      obtain tb' where tb': "stored c t = Some tb'" using d(10) [OF tr(1,2)] by blast
      obtain e where "e \<in> events c (rc_min_tid c)" using log_okD(2) [OF Suc.prems(2) order_refl d(4) tr(3)] by blast
      then obtain x where x: "x \<in> events c (rc_min_tid c)" "ev_lsn x = rt_max_lsn tb"
        using max_lsn_events(2) [OF Suc.prems(2) order_refl d(4) tb] by (metis imageE)
      have "rt_max_lsn tb \<le> rt_max_lsn tb'" using earlier_events [OF Suc.prems tr(1,2) tb' order_refl tr(1) x(1)] x(2) by simp
      then show ?thesis using tb' False by auto
    qed
    then have "truncate_tables c lsn [rc_min_tid c..<a] = Inr c" using truncate_none [OF Suc.prems(1)] by blast
    then show ?thesis using Suc.prems by (intro exI [of _ c]) simp
  qed
qed

section \<open>Sequences of operations\<close>

datatype size_op = Record size_event | Truncate XLogRecPtr

primrec run_op :: "polar_rel_size_cache \<Rightarrow> size_op \<Rightarrow> polar_rel_size_cache result" where
  "run_op c (Record e) = record_event c e"
| "run_op c (Truncate lsn) = polar_truncate_rel_size_cache c lsn"

fun run_ops :: "polar_rel_size_cache \<Rightarrow> size_op list \<Rightarrow> polar_rel_size_cache result" where
  "run_ops c [] = Inr c"
| "run_ops c (x # xs) = rbind (run_op c x) (\<lambda>c. run_ops c xs)"

lemma run_ops_snoc: "run_ops c (xs @ [x]) = rbind (run_ops c xs) (\<lambda>c. run_op c x)"
proof (induction xs arbitrary: c)
  case Nil
  show ?case by (cases "run_op c x") simp_all
next
  case (Cons y ys)
  then show ?case by (cases "run_op c y") simp_all
qed

definition recorded :: "size_op list \<Rightarrow> size_event list" where
  "recorded ops = [e. Record e \<leftarrow> ops]"

definition truncations :: "size_op list \<Rightarrow> XLogRecPtr set" where
  "truncations ops = {lsn. Truncate lsn \<in> set ops}"

lemma recorded_snoc [simp]:
  "recorded (ops @ [Record e]) = recorded ops @ [e]" "recorded (ops @ [Truncate lsn]) = recorded ops" "recorded [] = []"
  by (simp_all add: recorded_def)

text \<open>The cache after the operations: the log has the recorded events, but for truncated ones.\<close>

definition holds_log :: "polar_rel_size_cache \<Rightarrow> nat \<Rightarrow> size_op list \<Rightarrow> bool" where
  "holds_log c a ops \<longleftrightarrow> ring_ok c a \<and> log_ok c a \<and> rc_disk_ok c \<and> all_events c a \<subseteq> set (recorded ops)
     \<and> (\<forall>e \<in> set (recorded ops) - all_events c a. \<exists>lsn \<in> truncations ops. ev_lsn e \<le> lsn)"

lemma holds_log_init:
  assumes "polar_rel_size_shmem_init blocks True = Some c"
  shows "holds_log c 1 []"
proof -
  define n where "n = nat blocks"
  have c: "c = \<lparr>rc_active_mid = 0, rc_min_tid = 1, rc_table_size = n,
      rc_tables = (replicate n rel_size_table_zero)[0 := polar_init_rel_size_table 1], rc_files = (\<lambda>_. None), rc_disk_ok = True\<rparr>"
    and n: "0 < n" using assms by (auto simp: polar_rel_size_shmem_init_def n_def split: if_splits)
  have nth: "rc_tables c ! i = (if i = 0 then polar_init_rel_size_table 1 else rel_size_table_zero)" if "i < n" for i
    using that by (auto simp: c nth_list_update)
  have f: "rc_active_mid c = 0" "rc_min_tid c = 1" "rc_table_size c = n" "length (rc_tables c) = n" "rc_disk_ok c"
    by (simp_all add: c)
  have sl: "slot c 1 = 0" by (simp add: slot_def)
  have i1: "rt_tid (polar_init_rel_size_table 1) = 1" using init_table(1) [of 1] by simp
  have st: "stored c 1 = Some (polar_init_rel_size_table 1)" unfolding stored_def sl using nth [OF n] i1 by simp
  have "ring_ok c 1"
    unfolding ring_ok_def f sl
  proof (intro conjI)
    show "\<forall>i < n. let t = rt_tid (rc_tables c ! i) in t = 0 \<or> t \<le> 1 \<and> 1 < t + n \<and> slot c t = i"
      using nth n i1 sl by (auto simp: Let_def rel_size_table_zero_def)
    show "\<forall>t \<in> {1..1}. \<exists>tb. stored c t = Some tb \<and> rt_tid tb = t \<and> table_wf tb" using st i1 init_table(2) by simp
  qed (use n nth [OF n] i1 in simp_all)
  moreover have ev: "events c 1 = {}" using st by (simp add: events_def table_events_def init_table)
  moreover have "table_sorted (the (stored c 1))" using st by (simp add: table_sorted_def table_events_def init_table)
  ultimately show ?thesis using f by (simp add: holds_log_def log_ok_def)
qed

lemma holds_log_run:
  assumes init: "polar_rel_size_shmem_init blocks True = Some c0"
  shows "\<lbrakk>sorted (map ev_lsn (recorded ops)); \<forall>e \<in> set (recorded ops). 0 < ev_lsn e; length ops < 2 ^ 32 - 2\<rbrakk>
    \<Longrightarrow> \<exists>c a. run_ops c0 ops = Inr c \<and> holds_log c a ops \<and> a \<le> Suc (length ops)"
proof (induction ops rule: rev_induct)
  case Nil
  then show ?case using holds_log_init [OF init] by auto
next
  case (snoc x ops)
  have "sorted (map ev_lsn (recorded ops))" "\<forall>e \<in> set (recorded ops). 0 < ev_lsn e"
    using snoc.prems by (cases x; simp add: sorted_append)+
  then obtain c a where c: "run_ops c0 ops = Inr c" "holds_log c a ops" "a \<le> Suc (length ops)"
    using snoc by auto
  then have ok: "ring_ok c a" "log_ok c a" "rc_disk_ok c" "all_events c a \<subseteq> set (recorded ops)"
      "\<forall>e \<in> set (recorded ops) - all_events c a. \<exists>lsn \<in> truncations ops. ev_lsn e \<le> lsn"
    unfolding holds_log_def by blast+
  show ?case
  proof (cases x)
    case (Record e)
    have e: "0 < ev_lsn e" "\<forall>y \<in> all_events c a. ev_lsn y \<le> ev_lsn e"
      using snoc.prems(1,2) ok(4) by (auto simp: Record sorted_append)
    have "Suc a < 2 ^ 32" using c(3) snoc.prems(3) by simp
    from record_event_spec [OF ok(1-3) this e] obtain c' a' where c': "record_event c e = Inr c'"
        "ring_ok c' a'" "log_ok c' a'" "rc_disk_ok c'" "a' \<le> Suc a" "all_events c' a' = insert e (all_events c a)" by blast
    have "truncations (ops @ [x]) = truncations ops" by (auto simp: truncations_def Record)
    then have "holds_log c' a' (ops @ [x])" unfolding holds_log_def using c'(2-4,6) ok(4,5) Record by auto
    then show ?thesis using c(1,3) c'(1,5) by (auto simp: run_ops_snoc Record)
  next
    case (Truncate lsn)
    obtain c' where c': "truncate_tables c lsn [rc_min_tid c..<a] = Inr c'" "ring_ok c' a" "log_ok c' a"
        "rc_disk_ok c' = rc_disk_ok c" "all_events c' a \<subseteq> all_events c a" "\<forall>e \<in> all_events c a - all_events c' a. ev_lsn e \<le> lsn"
      using truncate_tables_spec [OF ok(1,2), of lsn] by blast
    have r: "run_op c x = Inr c'"
      using c'(1) ring_okD(7,8) [OF ok(1)] by (simp add: Truncate polar_truncate_rel_size_cache_def)
    have "\<exists>l \<in> truncations (ops @ [x]). ev_lsn e \<le> l" if "e \<in> set (recorded ops) - all_events c' a" for e
      using that c'(6) ok(5) by (cases "e \<in> all_events c a") (auto simp: truncations_def Truncate)
    then have "holds_log c' a (ops @ [x])"
      unfolding holds_log_def using c'(2-5) ok(3,4) by (auto simp: Truncate)
    then show ?thesis using c(1,3) r by (auto simp: run_ops_snoc)
  qed
qed

end
