(* ===== verification/Rel_Size_Query.thy ===== *)
theory Rel_Size_Query
  imports Rel_Size_Log
begin

text \<open>
  The two queries of the relation size cache, from the search in one table to the search through
  all of them: what they return as a function of the recorded events.
\<close>

section \<open>Lists in the order of the LSNs\<close>

text \<open>With a sorted list, the search for a database is a search of the events after the LSN.\<close>

lemma takeWhile_sorted:
  "sorted (rev (map ds_lsn ds)) \<Longrightarrow> set (takeWhile (\<lambda>d. lsn < ds_lsn d) ds) = {d \<in> set ds. lsn < ds_lsn d}"
proof (induction ds)
  case (Cons d ds)
  then have "\<forall>x \<in> set ds. ds_lsn x \<le> ds_lsn d" "sorted (rev (map ds_lsn ds))" by (auto simp: sorted_append)
  then show ?case using Cons.IH by (auto simp: not_less)
qed simp

lemma db_hit_None:
  "sorted (rev (map ds_lsn ds)) \<Longrightarrow> db_hit lsn spc db ds = None
     \<longleftrightarrow> (\<forall>d \<in> set ds. lsn < ds_lsn d \<longrightarrow> \<not> (ds_db d = db \<and> ds_spc d = spc))"
  using takeWhile_sorted [of ds lsn] by (auto simp: db_hit_def find_None_iff)

lemma db_hit_Some:
  "db_hit lsn spc db ds = Some d \<Longrightarrow> d \<in> set ds \<and> lsn < ds_lsn d \<and> ds_db d = db \<and> ds_spc d = spc"
  unfolding db_hit_def using set_takeWhileD by (fastforce dest!: find_SomeD)

lemma db_hit_newest:
  "sorted (rev (map ds_lsn ds)) \<Longrightarrow> db_hit lsn spc db ds = Some d \<Longrightarrow> x \<in> set ds \<Longrightarrow> ds_db x = db \<Longrightarrow> ds_spc x = spc
    \<Longrightarrow> ds_lsn x \<le> ds_lsn d"
  by (induction ds) (auto simp: db_hit_def sorted_append not_less split: if_splits)

lemma rel_search_spec:
  assumes "sorted (rev (map rs_lsn rs))"
  shows "rel_search st lsn tag rs res = (st', res') \<Longrightarrow>
    (if \<exists>r \<in> set rs. lsn < rs_lsn r \<and> rel_matches tag r
     then st' = END \<and> (\<exists>r \<in> set rs. lsn < rs_lsn r \<and> rel_matches tag r \<and> (\<forall>x \<in> set rs. rel_matches tag x \<longrightarrow> rs_lsn x \<le> rs_lsn r)
       \<and> res' = res\<lparr>sr_lsn := rs_lsn r, sr_state := POLAR_DB_BLOCK_TRUNCATED, sr_size := rs_rel_size r\<rparr>)
     else res' = res \<and> (st' = st \<or> st' = END \<and> (\<exists>r \<in> set rs. rs_lsn r \<le> lsn)))"
  using assms
proof (induction rs)
  case (Cons r rs)
  then have le: "\<forall>x \<in> set rs. rs_lsn x \<le> rs_lsn r" and so: "sorted (rev (map rs_lsn rs))" by (auto simp: sorted_append)
  consider "rs_lsn r \<le> lsn" | "lsn < rs_lsn r" "rel_matches tag r" | "lsn < rs_lsn r" "\<not> rel_matches tag r"
    by (meson not_le)
  then show ?case
  proof cases
    case 1
    then have "\<not> (\<exists>x \<in> set (r # rs). lsn < rs_lsn x \<and> rel_matches tag x)" using le by fastforce
    then show ?thesis using 1 Cons.prems(1) by auto
  next
    case 2
    then have "\<not> rs_lsn r \<le> lsn" by simp
    then show ?thesis using 2 Cons.prems(1) le by auto
  next
    case 3
    then show ?thesis using Cons.prems(1) Cons.IH [OF _ so] by (auto simp: not_le split: if_splits)
  qed
qed simp

section \<open>The events after an LSN\<close>

text \<open>
  The truncations of the block and the events of its database after \<open>lsn\<close>, and the newest of each.
\<close>

definition trunc_hits :: "size_event set \<Rightarrow> XLogRecPtr \<Rightarrow> BufferTag \<Rightarrow> polar_relation_size set" where
  "trunc_hits E lsn tag = {r. Trunc r \<in> E \<and> lsn < rs_lsn r \<and> rel_matches tag r}"

definition db_hits :: "size_event set \<Rightarrow> XLogRecPtr \<Rightarrow> BufferTag \<Rightarrow> polar_database_state set" where
  "db_hits E lsn tag = {d. Db d \<in> E \<and> lsn < ds_lsn d \<and> ds_db d = dbNode (rnode tag) \<and> ds_spc d = spcNode (rnode tag)}"

definition last_trunc :: "size_event set \<Rightarrow> XLogRecPtr \<Rightarrow> BufferTag \<Rightarrow> XLogRecPtr \<Rightarrow> bool" where
  "last_trunc E lsn tag l \<longleftrightarrow> l \<in> rs_lsn ` trunc_hits E lsn tag \<and> (\<forall>r \<in> trunc_hits E lsn tag. rs_lsn r \<le> l)"

definition last_db :: "size_event set \<Rightarrow> XLogRecPtr \<Rightarrow> BufferTag \<Rightarrow> polar_database_state \<Rightarrow> bool" where
  "last_db E lsn tag d \<longleftrightarrow> d \<in> db_hits E lsn tag \<and> (\<forall>x \<in> db_hits E lsn tag. ds_lsn x \<le> ds_lsn d)"

definition db_states :: "size_event set \<Rightarrow> bool" where
  "db_states E \<longleftrightarrow> (\<forall>d. Db d \<in> E \<longrightarrow> ds_state d \<in> {POLAR_DB_NEW, POLAR_DB_DROPED})"

lemma hits_Un:
  "trunc_hits (E \<union> F) lsn tag = trunc_hits E lsn tag \<union> trunc_hits F lsn tag"
  "db_hits (E \<union> F) lsn tag = db_hits E lsn tag \<union> db_hits F lsn tag"
  by (auto simp: trunc_hits_def db_hits_def)

lemma hits_mem: "r \<in> trunc_hits E lsn tag \<Longrightarrow> Trunc r \<in> E" "d \<in> db_hits E lsn tag \<Longrightarrow> Db d \<in> E"
  by (simp_all add: trunc_hits_def db_hits_def)

lemma last_older:
  assumes "\<forall>e \<in> F. \<forall>e' \<in> E. ev_lsn e \<le> ev_lsn e'"
  shows "last_trunc E lsn tag l \<Longrightarrow> last_trunc (E \<union> F) lsn tag l" "last_db E lsn tag d \<Longrightarrow> last_db (E \<union> F) lsn tag d"
proof -
  have "rs_lsn r \<le> rs_lsn x" if "r \<in> trunc_hits F lsn tag" "x \<in> trunc_hits E lsn tag" for r x
    using assms hits_mem(1) [OF that(1)] hits_mem(1) [OF that(2)] by (metis ev_lsn.simps(1))
  then show "last_trunc E lsn tag l \<Longrightarrow> last_trunc (E \<union> F) lsn tag l" unfolding last_trunc_def hits_Un by blast
  have "ds_lsn r \<le> ds_lsn x" if "r \<in> db_hits F lsn tag" "x \<in> db_hits E lsn tag" for r x
    using assms hits_mem(2) [OF that(1)] hits_mem(2) [OF that(2)] by (metis ev_lsn.simps(2))
  then show "last_db E lsn tag d \<Longrightarrow> last_db (E \<union> F) lsn tag d" unfolding last_db_def hits_Un by blast
qed

section \<open>The search\<close>

text \<open>
  The search through the events \<open>E\<close> so far: it goes on while no truncation of the block was found,
  with no event of the database, or with its creation when errors are ignored. It is decided by a
  truncation or by the drop of the database.
\<close>

definition undecided :: "size_event set \<Rightarrow> XLogRecPtr \<Rightarrow> BufferTag \<Rightarrow> polar_rel_search_result \<Rightarrow> bool" where
  "undecided E lsn tag res \<longleftrightarrow> trunc_hits E lsn tag = {}
     \<and> (sr_state res = POLAR_DB_NOTFOUND \<and> db_hits E lsn tag = {}
        \<or> sr_ignore_error res \<and> sr_state res = POLAR_DB_NEW
          \<and> (\<exists>d. last_db E lsn tag d \<and> ds_state d = POLAR_DB_NEW \<and> sr_lsn res = ds_lsn d))"

definition decided :: "size_event set \<Rightarrow> XLogRecPtr \<Rightarrow> BufferTag \<Rightarrow> polar_rel_search_result \<Rightarrow> bool" where
  "decided E lsn tag res \<longleftrightarrow> sr_state res = POLAR_DB_BLOCK_TRUNCATED \<and> last_trunc E lsn tag (sr_lsn res)
     \<or> sr_state res = POLAR_DB_DROPED \<and> (\<exists>d. last_db E lsn tag d \<and> ds_state d = POLAR_DB_DROPED \<and> sr_lsn res = ds_lsn d)"

abbreviation created_panic :: pg_error where
  "created_panic \<equiv> PANIC ''Got unexpected value from relation size cache, created''"

definition panics :: "size_event set \<Rightarrow> XLogRecPtr \<Rightarrow> BufferTag \<Rightarrow> polar_rel_search_result \<Rightarrow> bool" where
  "panics E lsn tag res \<longleftrightarrow> \<not> sr_ignore_error res \<and> (\<exists>d. last_db E lsn tag d \<and> ds_state d = POLAR_DB_NEW)"

lemma undecided_none:
  "trunc_hits F lsn tag = {} \<Longrightarrow> db_hits F lsn tag = {} \<Longrightarrow> undecided E lsn tag res \<Longrightarrow> undecided (E \<union> F) lsn tag res"
  by (simp add: undecided_def hits_Un last_db_def)

lemma older_search:
  assumes "\<forall>e \<in> F. \<forall>e' \<in> E. ev_lsn e \<le> ev_lsn e'"
  shows "decided E lsn tag res \<Longrightarrow> decided (E \<union> F) lsn tag res" "panics E lsn tag res \<Longrightarrow> panics (E \<union> F) lsn tag res"
  using last_older [OF assms] unfolding decided_def panics_def by blast+

text \<open>The step for the events of the database: the result before the truncations are looked at.\<close>

definition db_known :: "size_event set \<Rightarrow> XLogRecPtr \<Rightarrow> BufferTag \<Rightarrow> polar_rel_search_result \<Rightarrow> bool" where
  "db_known E lsn tag res \<longleftrightarrow> sr_state res = POLAR_DB_NOTFOUND \<and> db_hits E lsn tag = {}
     \<or> (\<exists>d. last_db E lsn tag d \<and> ds_state d \<in> {POLAR_DB_NEW, POLAR_DB_DROPED} \<and> sr_state res = ds_state d \<and> sr_lsn res = ds_lsn d)"

lemma db_step:
  assumes wf: "table_wf tb" "table_sorted tb" and st: "db_states (table_events tb)" and res: "undecided E lsn tag res"
    and old: "\<forall>e \<in> table_events tb. \<forall>e' \<in> E. ev_lsn e \<le> ev_lsn e'"
  shows "\<exists>res'. (if sr_state res = POLAR_DB_NOTFOUND
      then polar_search_db_state tb lsn (spcNode (rnode tag)) (dbNode (rnode tag)) res else Inr res) = Inr res'
    \<and> sr_ignore_error res' = sr_ignore_error res \<and> db_known (E \<union> table_events tb) lsn tag res'"
proof (cases "sr_state res = POLAR_DB_NOTFOUND")
  case False
  then obtain d where "last_db E lsn tag d" "ds_state d = POLAR_DB_NEW" "sr_lsn res = ds_lsn d" "sr_state res = POLAR_DB_NEW"
    using res by (auto simp: undecided_def)
  then show ?thesis using False last_older(2) [OF old] by (auto simp: db_known_def)
next
  case True
  let ?hit = "db_hit lsn (spcNode (rnode tag)) (dbNode (rnode tag)) (dbs tb)"
  have so: "sorted (rev (map ds_lsn (dbs tb)))" using wf(2) by (simp add: table_sorted_def)
  have none: "db_hits E lsn tag = {}" using res True by (auto simp: undecided_def)
  have mem: "d \<in> db_hits (table_events tb) lsn tag \<longleftrightarrow> d \<in> set (dbs tb) \<and> lsn < ds_lsn d \<and> ds_db d = dbNode (rnode tag) \<and> ds_spc d = spcNode (rnode tag)"
    for d by (auto simp: db_hits_def table_events_def)
  show ?thesis
  proof (cases ?hit)
    case None
    then have "db_hits (E \<union> table_events tb) lsn tag = {}" using db_hit_None [OF so] mem none unfolding hits_Un by auto
    then show ?thesis using True None search_db_state_hit [OF wf(1), of lsn _ _ res] by (simp add: db_known_def)
  next
    case (Some d)
    note d = db_hit_Some [OF Some]
    have "last_db (E \<union> table_events tb) lsn tag d"
      using d db_hit_newest [OF so Some] mem unfolding last_db_def hits_Un none by auto
    moreover have "ds_state d \<in> {POLAR_DB_NEW, POLAR_DB_DROPED}" using st d by (auto simp: db_states_def table_events_def)
    ultimately show ?thesis using True Some search_db_state_hit [OF wf(1), of lsn _ _ res] by (auto simp: db_known_def)
  qed
qed

lemma trunc_step:
  assumes wf: "table_wf tb" "table_sorted tb" and none: "trunc_hits E lsn tag = {}" and db: "db_known (E \<union> table_events tb) lsn tag res"
    and st: "sr_state res = POLAR_DB_NOTFOUND \<or> sr_ignore_error res \<and> sr_state res = POLAR_DB_NEW"
  shows "\<exists>st res'. polar_search_truncate_info c tb lsn tag res = Inr (st, res') \<and> sr_ignore_error res' = sr_ignore_error res
    \<and> (st = END \<and> decided (E \<union> table_events tb) lsn tag res'
       \<or> undecided (E \<union> table_events tb) lsn tag res'
         \<and> (st = END \<longrightarrow> rt_tid tb \<le> rc_min_tid c \<or> (\<exists>e \<in> table_events tb. ev_lsn e \<le> lsn)))"
proof -
  obtain st res' where rs: "rel_search (if rt_tid tb > rc_min_tid c then NEXT else END) lsn tag (rev (rels tb)) res = (st, res')"
    by fastforce
  have c: "polar_search_truncate_info c tb lsn tag res = Inr (st, res')" using search_truncate_info_search [OF wf(1), of c lsn tag res] rs by simp
  have "sorted (rev (map rs_lsn (rev (rels tb))))" using wf(2) by (simp add: rev_map table_sorted_def)
  note S = rel_search_spec [OF this rs]
  have mem: "r \<in> trunc_hits (E \<union> table_events tb) lsn tag \<longleftrightarrow> r \<in> set (rels tb) \<and> lsn < rs_lsn r \<and> rel_matches tag r" for r
    using none unfolding hits_Un by (auto simp: trunc_hits_def table_events_def)
  show ?thesis
  proof (cases "\<exists>r \<in> set (rev (rels tb)). lsn < rs_lsn r \<and> rel_matches tag r")
    case True
    then obtain r where r: "r \<in> set (rels tb)" "lsn < rs_lsn r" "rel_matches tag r" "\<forall>x \<in> set (rels tb). rel_matches tag x \<longrightarrow> rs_lsn x \<le> rs_lsn r"
        "st = END" "res' = res\<lparr>sr_lsn := rs_lsn r, sr_state := POLAR_DB_BLOCK_TRUNCATED, sr_size := rs_rel_size r\<rparr>"
      using S by auto
    then have "last_trunc (E \<union> table_events tb) lsn tag (rs_lsn r)" using mem by (auto simp: last_trunc_def)
    then show ?thesis using c r(5,6) by (intro exI [of _ st] exI [of _ res']) (simp add: decided_def)
  next
    case False
    then have r: "res' = res" "st = END \<longrightarrow> rt_tid tb \<le> rc_min_tid c \<or> (\<exists>r \<in> set (rels tb). rs_lsn r \<le> lsn)"
      using S by (auto split: if_splits)
    have "trunc_hits (E \<union> table_events tb) lsn tag = {}" using False mem by auto
    then have "undecided (E \<union> table_events tb) lsn tag res" using db st by (auto simp: undecided_def db_known_def)
    moreover have "(\<exists>r \<in> set (rels tb). rs_lsn r \<le> lsn) \<longrightarrow> (\<exists>e \<in> table_events tb. ev_lsn e \<le> lsn)" by (force simp: table_events_def)
    ultimately show ?thesis using c r by (intro exI [of _ st] exI [of _ res']) auto
  qed
qed

lemma check_table_search:
  assumes wf: "table_wf tb" "table_sorted tb" and st: "db_states (table_events tb)" and res: "undecided E lsn tag res"
    and old: "\<forall>e \<in> table_events tb. \<forall>e' \<in> E. ev_lsn e \<le> ev_lsn e'"
  obtains (panic) "polar_check_table_rel_size c tb lsn tag res = Inl created_panic" "panics (E \<union> table_events tb) lsn tag res"
  | (found) res' where "polar_check_table_rel_size c tb lsn tag res = Inr (END, res')" "decided (E \<union> table_events tb) lsn tag res'"
      "sr_ignore_error res' = sr_ignore_error res"
  | (undecided) st res' where "polar_check_table_rel_size c tb lsn tag res = Inr (st, res')" "undecided (E \<union> table_events tb) lsn tag res'"
      "sr_ignore_error res' = sr_ignore_error res"
      "st = END \<longrightarrow> rt_tid tb \<le> rc_min_tid c \<or> rt_max_lsn tb < lsn \<or> (\<exists>e \<in> table_events tb. ev_lsn e \<le> lsn)"
proof (cases "lsn > rt_max_lsn tb")
  case True
  have "ev_lsn e \<le> rt_max_lsn tb" if "e \<in> table_events tb" for e using wf(2) that by (auto simp: table_sorted_def split: if_splits)
  then have "trunc_hits (table_events tb) lsn tag = {}" "db_hits (table_events tb) lsn tag = {}"
    using True by (fastforce simp: trunc_hits_def db_hits_def)+
  then show ?thesis using True undecided_none [OF _ _ res] by (intro undecided [of END res]) (simp_all add: polar_check_table_rel_size_def)
next
  case False
  obtain res1 where r1: "(if sr_state res = POLAR_DB_NOTFOUND
      then polar_search_db_state tb lsn (spcNode (rnode tag)) (dbNode (rnode tag)) res else Inr res) = Inr res1"
      "sr_ignore_error res1 = sr_ignore_error res" "db_known (E \<union> table_events tb) lsn tag res1"
    using db_step [OF wf st res old] by blast
  have none: "trunc_hits E lsn tag = {}" using res by (simp add: undecided_def)
  consider (drop) "sr_state res1 = POLAR_DB_DROPED" | (new) "sr_state res1 = POLAR_DB_NEW" "\<not> sr_ignore_error res1"
    | (go) "sr_state res1 = POLAR_DB_NOTFOUND \<or> sr_ignore_error res1 \<and> sr_state res1 = POLAR_DB_NEW"
    using r1(3) by (cases "sr_ignore_error res1") (auto simp: db_known_def)
  then show ?thesis
  proof cases
    case drop
    then obtain d where d: "last_db (E \<union> table_events tb) lsn tag d" "ds_state d = POLAR_DB_DROPED" "sr_lsn res1 = ds_lsn d" "lsn < ds_lsn d"
      using r1(3) by (auto simp: db_known_def last_db_def db_hits_def)
    then show ?thesis using False r1(1) drop r1(2) by (intro found [of res1]) (auto simp: polar_check_table_rel_size_def decided_def)
  next
    case new
    then obtain d where "last_db (E \<union> table_events tb) lsn tag d" "ds_state d = POLAR_DB_NEW" "sr_lsn res1 = ds_lsn d" "lsn < ds_lsn d"
      using r1(3) by (auto simp: db_known_def last_db_def db_hits_def)
    then show ?thesis using False r1(1,2) new by (intro panic) (auto simp: polar_check_table_rel_size_def panics_def)
  next
    case go
    have eq: "polar_check_table_rel_size c tb lsn tag res = polar_search_truncate_info c tb lsn tag res1"
      using False r1(1) go by (auto simp: polar_check_table_rel_size_def)
    show ?thesis using trunc_step [OF wf none r1(3) go, of c] r1(2) found undecided unfolding eq by metis
  qed
qed

text \<open>The tables from \<open>t\<close> to the active one, which are searched first, and those before them.\<close>

abbreviation (input) newer :: "polar_rel_size_cache \<Rightarrow> nat \<Rightarrow> nat \<Rightarrow> size_event set" where
  "newer c a t \<equiv> \<Union>u \<in> {t..a}. events c u"

abbreviation (input) older :: "polar_rel_size_cache \<Rightarrow> nat \<Rightarrow> size_event set" where
  "older c t \<equiv> \<Union>u \<in> {rc_min_tid c..<t}. events c u"

lemma newer_older:
  assumes "rc_min_tid c \<le> t" "t \<le> a"
  shows "all_events c a = newer c a t \<union> older c t" "newer c a t = newer c a (Suc t) \<union> events c t"
proof -
  have "{rc_min_tid c..a} = {t..a} \<union> {rc_min_tid c..<t}" "{t..a} = {Suc t..a} \<union> {t}" using assms by auto
  then show "all_events c a = newer c a t \<union> older c t" "newer c a t = newer c a (Suc t) \<union> events c t" by auto
qed

lemma older_lsns:
  assumes "log_ok c a" "rc_min_tid c \<le> t" "t \<le> a" "e \<in> older c t" "e' \<in> newer c a t"
  shows "ev_lsn e \<le> ev_lsn e'"
proof -
  obtain u where u: "rc_min_tid c \<le> u" "u < t" "e \<in> events c u" using assms(4) by auto
  obtain v where v: "t \<le> v" "v \<le> a" "e' \<in> events c v" using assms(5) by auto
  show ?thesis using log_okD(3) [OF assms(1) u(1) _ v(2) u(3) v(3)] u(2) v(1) by simp
qed

lemma older_no_hits:
  assumes "\<And>e. e \<in> F \<Longrightarrow> ev_lsn e \<le> lsn"
  shows "trunc_hits F lsn tag = {}" "db_hits F lsn tag = {}"
  using assms by (fastforce simp: trunc_hits_def db_hits_def)+

lemma check_tables_search:
  assumes ok: "ring_ok c a" "log_ok c a" and st: "db_states (all_events c a)"
  shows "\<lbrakk>rc_min_tid c \<le> t; t \<le> a; t < n; stored c t = Some tb; undecided (newer c a (Suc t)) lsn tag res\<rbrakk> \<Longrightarrow>
    (\<exists>res'. check_tables n c tb lsn tag res = Inr res' \<and> sr_ignore_error res' = sr_ignore_error res
      \<and> (undecided (all_events c a) lsn tag res' \<or> decided (all_events c a) lsn tag res'))
    \<or> check_tables n c tb lsn tag res = Inl created_panic \<and> panics (all_events c a) lsn tag res"
proof (induction n arbitrary: t tb res)
  case (Suc n)
  note d = ring_okD [OF ok(1)] and t = Suc.prems(1,2)
  have tb: "rt_tid tb = t" "table_wf tb" "table_sorted tb" "events c t = table_events tb"
    using d(10) [OF t] log_okD(1) [OF ok(2) t] Suc.prems(4) by (auto simp: events_def)
  note E = newer_older [OF t, unfolded tb(4)]
  have old: "\<forall>e \<in> older c t. \<forall>e' \<in> newer c a t. ev_lsn e \<le> ev_lsn e'" using older_lsns [OF ok(2) t] by blast
  have this_old: "\<forall>e \<in> table_events tb. \<forall>e' \<in> newer c a (Suc t). ev_lsn e \<le> ev_lsn e'"
    using log_okD(3) [OF ok(2) t(1)] tb(4) by (auto simp: Suc_le_eq)
  have "table_events tb \<subseteq> all_events c a" unfolding E by blast
  then have "db_states (table_events tb)" using st unfolding db_states_def by blast
  from tb(2,3) this Suc.prems(5) this_old show ?case
  proof (cases rule: check_table_search [of tb _ lsn tag res c])
    case panic
    then show ?thesis using older_search(2) [OF old] E by (intro disjI2) simp
  next
    case (found res')
    then show ?thesis using older_search(1) [OF old] E by (intro disjI1 exI [of _ res']) simp
  next
    case (undecided st' res')
    have und: "undecided (newer c a t) lsn tag res'" using undecided(2) E(2) by simp
    show ?thesis
    proof (cases "st' \<noteq> END \<and> rt_tid tb > rc_min_tid c")
      case True
      then have r: "rc_min_tid c \<le> t - 1" "t - 1 \<le> a" "t - 1 < n" "Suc (t - 1) = t" using Suc.prems tb(1) by auto
      obtain tb' where tb': "stored c (t - 1) = Some tb'" using d(10) [OF r(1,2)] by blast
      have "check_tables (Suc n) c tb lsn tag res = check_tables n c tb' lsn tag res'"
        using True undecided(1) tb(1) get_table_stored [OF ok(1) tb'] by simp
      then show ?thesis using Suc.IH [OF r(1-3) tb', of res'] und undecided(3) unfolding r(4) panics_def by auto
    next
      case False
      have "undecided (all_events c a) lsn tag res'"
      proof -
        have "ev_lsn e \<le> lsn" if e: "e \<in> older c t" for e
        proof (cases "rt_tid tb \<le> rc_min_tid c")
          case False
          then have "rt_max_lsn tb < lsn \<or> (\<exists>x \<in> events c t. ev_lsn x \<le> lsn)" using \<open>\<not> (st' \<noteq> END \<and> rt_tid tb > rc_min_tid c)\<close> undecided(4) tb(4) by auto
          moreover obtain u where u: "rc_min_tid c \<le> u" "u < t" "e \<in> events c u" using e by auto
          ultimately show ?thesis using earlier_events [OF ok t Suc.prems(4) u(1) _ u(3)] log_okD(3) [OF ok(2) u(1,2) t(2) u(3)] u(2)
            by (meson less_imp_le order_trans)
        qed (use e tb(1) t in auto)
        then show ?thesis using undecided_none [OF older_no_hits und] unfolding E(1) by blast
      qed
      then show ?thesis using False undecided(1,3) by (intro disjI1 exI [of _ res']) auto
    qed
  qed
qed simp

section \<open>The answers\<close>

text \<open>
  The newest event after \<open>lsn\<close> of the database of a block, and the LSN of the newest truncation of
  the block, in a list of events.
\<close>

definition newest_db :: "size_event list \<Rightarrow> XLogRecPtr \<Rightarrow> BufferTag \<Rightarrow> polar_database_state option" where
  "newest_db es lsn tag = find (\<lambda>d. lsn < ds_lsn d \<and> ds_db d = dbNode (rnode tag) \<and> ds_spc d = spcNode (rnode tag)) (rev [d. Db d \<leftarrow> es])"

definition newest_trunc :: "size_event list \<Rightarrow> XLogRecPtr \<Rightarrow> BufferTag \<Rightarrow> XLogRecPtr option" where
  "newest_trunc es lsn tag = map_option rs_lsn (find (\<lambda>r. lsn < rs_lsn r \<and> rel_matches tag r) (rev [r. Trunc r \<leftarrow> es]))"

definition db_events :: "size_event list \<Rightarrow> polar_database_state list" where
  "db_events es = [d. Db d \<leftarrow> es]"

lemma find_rev_last:
  assumes "sorted (map f xs)" "find P (rev xs) = Some x"
  shows "x \<in> set xs" "P x" "y \<in> set xs \<Longrightarrow> P y \<Longrightarrow> f y \<le> f x"
proof -
  have "x \<in> set xs \<and> P x \<and> (\<forall>y \<in> set xs. P y \<longrightarrow> f y \<le> f x)" using assms
    by (induction xs rule: rev_induct) (auto simp: sorted_append split: if_splits)
  then show "x \<in> set xs" "P x" "y \<in> set xs \<Longrightarrow> P y \<Longrightarrow> f y \<le> f x" by blast+
qed

lemma events_sorted:
  assumes "sorted (map ev_lsn es)"
  shows "sorted (map ds_lsn (db_events es))" "sorted (map rs_lsn [r. Trunc r \<leftarrow> es])"
  using assms unfolding db_events_def by (induction es) (auto split: size_event.splits)

lemma set_db_events: "set (db_events es) = {d. Db d \<in> set es}" "set [r. Trunc r \<leftarrow> es] = {r. Trunc r \<in> set es}"
  by (auto simp: db_events_def split: size_event.splits)

lemma newest_db_None: "newest_db es lsn tag = None \<longleftrightarrow> db_hits (set es) lsn tag = {}"
  using set_db_events(1) [of es] by (auto simp: newest_db_def db_hits_def find_None_iff db_events_def [symmetric])

lemma newest_trunc_None: "newest_trunc es lsn tag = None \<longleftrightarrow> trunc_hits (set es) lsn tag = {}"
  unfolding newest_trunc_def map_option_is_None find_None_iff set_rev set_db_events(2) by (auto simp: trunc_hits_def)

lemma newest_db_last:
  assumes "sorted (map ev_lsn es)" "newest_db es lsn tag = Some d"
  shows "last_db (set es) lsn tag d"
proof -
  note F = find_rev_last [OF events_sorted(1) [OF assms(1)] assms(2) [unfolded newest_db_def, folded db_events_def]]
  show ?thesis using F unfolding last_db_def db_hits_def set_db_events(1) by blast
qed

lemma newest_trunc_last:
  assumes "sorted (map ev_lsn es)" "newest_trunc es lsn tag = Some l"
  shows "last_trunc (set es) lsn tag l"
proof -
  obtain r where r: "find (\<lambda>r. lsn < rs_lsn r \<and> rel_matches tag r) (rev [r. Trunc r \<leftarrow> es]) = Some r" "l = rs_lsn r"
    using assms(2) by (auto simp: newest_trunc_def)
  note F = find_rev_last [OF events_sorted(2) [OF assms(1)] r(1)]
  show ?thesis using F unfolding last_trunc_def trunc_hits_def set_db_events(2) r(2) by blast
qed

text \<open>A database event has a WAL record of its own, so the newest one is determined by its LSN.\<close>

lemma last_unique:
  "last_trunc E lsn tag l \<Longrightarrow> last_trunc E lsn tag l' \<Longrightarrow> l = l'"
  "distinct (map ds_lsn (db_events es)) \<Longrightarrow> last_db (set es) lsn tag d \<Longrightarrow> last_db (set es) lsn tag d' \<Longrightarrow> d = d'"
proof -
  show "last_trunc E lsn tag l \<Longrightarrow> last_trunc E lsn tag l' \<Longrightarrow> l = l'" unfolding last_trunc_def by (force intro: antisym)
  assume "distinct (map ds_lsn (db_events es))" "last_db (set es) lsn tag d" "last_db (set es) lsn tag d'"
  moreover from this have "ds_lsn d = ds_lsn d'" unfolding last_db_def by (force intro: antisym)
  ultimately show "d = d'" using set_db_events(1) [of es] by (auto simp: distinct_map last_db_def db_hits_def dest!: inj_onD)
qed

text \<open>The search started by a query, over all recorded events.\<close>

lemma retained_hits:
  assumes log: "holds_log c a ops" and lsn: "\<forall>l \<in> truncations ops. l \<le> lsn"
  shows "trunc_hits (set (recorded ops)) lsn tag = trunc_hits (all_events c a) lsn tag"
    "db_hits (set (recorded ops)) lsn tag = db_hits (all_events c a) lsn tag"
proof -
  let ?A = "all_events c a" and ?R = "set (recorded ops)"
  have sub: "?A \<subseteq> ?R" and lost: "\<forall>e \<in> ?R - ?A. \<exists>l \<in> truncations ops. ev_lsn e \<le> l" using log unfolding holds_log_def by blast+
  have "ev_lsn e \<le> lsn" if "e \<in> ?R - ?A" for e using lost lsn that order_trans by blast
  note none = older_no_hits [OF this]
  have "?R = ?A \<union> (?R - ?A)" using sub by blast
  then show "trunc_hits ?R lsn tag = trunc_hits ?A lsn tag" "db_hits ?R lsn tag = db_hits ?A lsn tag"
    using none hits_Un by (metis Un_empty_right)+
qed

definition search_value :: "XLogRecPtr \<Rightarrow> polar_rel_search_result \<Rightarrow> bool \<times> XLogRecPtr" where
  "search_value lsn res = (if sr_state res = POLAR_DB_NOTFOUND then (True, lsn)
     else if sr_state res = POLAR_DB_NEW then (True, sr_lsn res) else (False, sr_lsn res))"

definition query_result :: "XLogRecPtr \<Rightarrow> polar_rel_search_result \<Rightarrow> (bool \<times> XLogRecPtr) result" where
  "query_result lsn res = (if sr_state res \<in> {POLAR_DB_NOTFOUND, POLAR_DB_NEW, POLAR_DB_DROPED, POLAR_DB_BLOCK_TRUNCATED} then Inr (search_value lsn res)
     else Inl (PANIC ''Got unexpected state when check block valid''))"

lemma query_result: "(\<lambda>res. if sr_state res = POLAR_DB_NOTFOUND then Inr (True, lsn)
    else if sr_state res = POLAR_DB_NEW then Inr (True, sr_lsn res)
    else if sr_state res = POLAR_DB_DROPED \<or> sr_state res = POLAR_DB_BLOCK_TRUNCATED then Inr (False, sr_lsn res)
    else Inl (PANIC ''Got unexpected state when check block valid'')) = query_result lsn"
  by (auto simp: fun_eq_iff query_result_def search_value_def)

lemma query_known: "undecided E lsn tag res \<or> decided E lsn tag res \<Longrightarrow> query_result lsn res = Inr (search_value lsn res)"
  by (auto simp: undecided_def decided_def query_result_def)

lemma check_internal_search:
  assumes log: "holds_log c a ops" and st: "db_states (set (recorded ops))" and lsn: "\<forall>l \<in> truncations ops. l \<le> lsn"
  defines "R \<equiv> set (recorded ops)"
  shows "(\<exists>res. polar_check_rel_block_valid_internal c lsn tag ch = Inr (search_value lsn res)
      \<and> sr_ignore_error res = ch \<and> (undecided R lsn tag res \<or> decided R lsn tag res))
    \<or> polar_check_rel_block_valid_internal c lsn tag ch = Inl created_panic \<and> \<not> ch \<and> (\<exists>d. last_db R lsn tag d \<and> ds_state d = POLAR_DB_NEW)"
proof -
  have ok: "ring_ok c a" "log_ok c a" "all_events c a \<subseteq> set (recorded ops)" using log unfolding holds_log_def by blast+
  note d = ring_okD [OF ok(1)] and H = retained_hits [OF log lsn, of tag, folded R_def]
  have same: "undecided R lsn tag res = undecided (all_events c a) lsn tag res" "decided R lsn tag res = decided (all_events c a) lsn tag res"
    "last_db R lsn tag d = last_db (all_events c a) lsn tag d" for res d
    by (simp_all add: undecided_def decided_def last_db_def last_trunc_def H)
  have st': "db_states (all_events c a)" using st ok(3) unfolding db_states_def by blast
  let ?tb = "rc_tables c ! rc_active_mid c"
    and ?res = "\<lparr>sr_state = POLAR_DB_NOTFOUND, sr_lsn = InvalidXLogRecPtr, sr_size = 0, sr_ignore_error = ch\<rparr>"
  have act: "aget (rc_tables c) (rc_active_mid c) = Inr ?tb" using d(8) by simp
  show ?thesis
  proof (cases "rt_max_lsn ?tb = 0")
    case True
    have "ev_lsn e \<le> lsn" if "e \<in> all_events c a" for e
      using earlier_events [OF ok(1,2) d(4) order_refl active_stored [OF ok(1)], of _ e] that True by auto
    then have "undecided (all_events c a) lsn tag ?res" using older_no_hits [of "all_events c a" lsn tag] by (simp add: undecided_def)
    then show ?thesis using act True unfolding same
      by (intro disjI1 exI [of _ ?res]) (simp add: polar_check_rel_block_valid_internal_def Let_def search_value_def)
  next
    case False
    have n: "a < Suc (rt_tid ?tb)" using d(7) by simp
    have "undecided (newer c a (Suc a)) lsn tag ?res" by (simp add: undecided_def trunc_hits_def db_hits_def)
    note S = check_tables_search [OF ok(1,2) st' d(4) order_refl n active_stored [OF ok(1)] this]
    have ch: "polar_check_rel_block_valid_internal c lsn tag ch = rbind (check_tables (Suc (rt_tid ?tb)) c ?tb lsn tag ?res) (query_result lsn)"
      using False unfolding polar_check_rel_block_valid_internal_def Let_def act rbind_simps query_result by simp
    from S show ?thesis
    proof (elim disjE exE conjE)
      fix res assume r: "check_tables (Suc (rt_tid ?tb)) c ?tb lsn tag ?res = Inr res" "sr_ignore_error res = sr_ignore_error ?res"
      { assume "undecided (all_events c a) lsn tag res"
        then show ?thesis using r query_known [of "all_events c a" lsn tag res] unfolding ch same by (intro disjI1 exI [of _ res]) simp }
      { assume "decided (all_events c a) lsn tag res"
        then show ?thesis using r query_known [of "all_events c a" lsn tag res] unfolding ch same by (intro disjI1 exI [of _ res]) simp }
    next
      assume "check_tables (Suc (rt_tid ?tb)) c ?tb lsn tag ?res = Inl created_panic" "panics (all_events c a) lsn tag ?res"
      then show ?thesis unfolding ch same panics_def by (intro disjI2) simp
    qed
  qed
qed

text \<open>A database state that is found is one after the LSN that is asked for.\<close>

definition found_after :: "XLogRecPtr \<Rightarrow> polar_rel_search_result \<Rightarrow> bool" where
  "found_after lsn res \<longleftrightarrow> sr_state res = POLAR_DB_NOTFOUND \<or> lsn < sr_lsn res"

lemma search_db_loop_after:
  "search_db_loop tb pos lsn spc db res = Inr res' \<Longrightarrow> found_after lsn res \<Longrightarrow> found_after lsn res'"
proof (induction tb pos lsn spc db res rule: search_db_loop.induct)
  case (1 table pos lsn spc db res)
  show ?case
  proof (cases "pos < REL_INFO_TOTAL_SIZE")
    case True
    then obtain bs where bs: "memcpy_from (rt_info table) pos sizeof_database_state = Inr bs"
      using "1.prems"(1) by (subst (asm) search_db_loop.simps) (auto elim: rbind_InrE)
    show ?thesis using "1.prems" "1.IH" [OF True bs refl] True bs
      by (subst (asm) search_db_loop.simps) (auto simp: Let_def found_after_def split: if_splits)
  next
    case False
    then show ?thesis using "1.prems" by (subst (asm) search_db_loop.simps) simp
  qed
qed

lemma search_truncate_loop_after:
  "search_truncate_loop c tb pos lsn tag res = Inr (st, res') \<Longrightarrow> found_after lsn res \<Longrightarrow> found_after lsn res'"
proof (induction c tb pos lsn tag res rule: search_truncate_loop.induct)
  case (1 c table pos lsn tag res)
  show ?case
  proof (cases "pos > 0 \<and> \<not> pos < sizeof_relation_size")
    case True
    then obtain bs where bs: "memcpy_from (rt_info table) (pos - sizeof_relation_size) sizeof_relation_size = Inr bs"
      using "1.prems"(1) by (subst (asm) search_truncate_loop.simps) (auto elim: rbind_InrE)
    show ?thesis using "1.prems" "1.IH" [OF _ _ bs refl] True bs
      by (subst (asm) search_truncate_loop.simps) (auto simp: Let_def found_after_def split: if_splits)
  next
    case False
    then show ?thesis using "1.prems" by (subst (asm) search_truncate_loop.simps) (auto split: if_splits)
  qed
qed

end
