(* ===== verification/Rel_Size_Correct.thy ===== *)
theory Rel_Size_Correct
  imports Rel_Size_Query
begin

text \<open>
  What the relation size cache guarantees to the code that replays WAL records of a page:
  the answers of its two queries after any sequence of recordings and truncations.
\<close>

section \<open>Which errors a query can raise\<close>

lemma search_db_loop_error: "search_db_loop tb pos lsn spc db res = Inl e \<Longrightarrow> e = OutOfBounds"
proof (induction tb pos lsn spc db res rule: search_db_loop.induct)
  case (1 table pos lsn spc db res)
  then show ?case
    by (subst (asm) (2) search_db_loop.simps)
      (auto simp: Let_def memcpy_from_def split: if_splits)
qed

lemma search_truncate_loop_error: "search_truncate_loop c tb pos lsn tag res = Inl e \<Longrightarrow> e = OutOfBounds"
proof (induction c tb pos lsn tag res rule: search_truncate_loop.induct)
  case (1 c table pos lsn tag res)
  then show ?case
    by (subst (asm) (2) search_truncate_loop.simps)
      (auto simp: Let_def memcpy_from_def split: if_splits)
qed

abbreviation dropped_panic :: pg_error where
  "dropped_panic \<equiv> PANIC ''Got unexpected value from relation size cache, dropped''"

lemma check_table_after:
  assumes res: "found_after lsn res"
  shows "polar_check_table_rel_size c tb lsn tag res \<noteq> Inl dropped_panic"
    "polar_check_table_rel_size c tb lsn tag res = Inr (st, res') \<Longrightarrow> found_after lsn res'"
proof -
  let ?db = "if sr_state res = POLAR_DB_NOTFOUND
    then polar_search_db_state tb lsn (spcNode (rnode tag)) (dbNode (rnode tag)) res else Inr res"
  have db: "?db = Inr r \<Longrightarrow> found_after lsn r" "?db = Inl e \<Longrightarrow> e = OutOfBounds" for r e
    using res search_db_loop_after [of tb] search_db_loop_error [of tb]
    by (auto simp: polar_search_db_state_def found_after_def split: if_splits)
  note tr = search_truncate_loop_after [of c tb _ lsn tag] search_truncate_loop_error [of c tb _ lsn tag]
  show "polar_check_table_rel_size c tb lsn tag res \<noteq> Inl dropped_panic"
  proof (cases ?db)
    case (Inl e)
    then show ?thesis using db(2) unfolding polar_check_table_rel_size_def Inl by auto
  next
    case (Inr r)
    then show ?thesis using db(1) tr(2) unfolding polar_check_table_rel_size_def Inr
      by (auto simp: polar_search_truncate_info_def found_after_def)
  qed
  assume c: "polar_check_table_rel_size c tb lsn tag res = Inr (st, res')"
  show "found_after lsn res'"
  proof (cases ?db)
    case (Inl e)
    then show ?thesis using c res unfolding polar_check_table_rel_size_def Inl by (auto split: if_splits)
  next
    case (Inr r)
    then show ?thesis using c res db(1) tr(1) unfolding polar_check_table_rel_size_def Inr
      by (auto simp: polar_search_truncate_info_def split: if_splits)
  qed
qed

lemma get_table_error: "polar_get_rel_size_table c t \<noteq> Inl dropped_panic"
  by (auto simp: polar_get_rel_size_table_def aget_def split: option.splits)

lemma check_tables_after:
  "found_after lsn res \<Longrightarrow> check_tables n c tb lsn tag res \<noteq> Inl dropped_panic"
proof (induction n arbitrary: tb res)
  case (Suc n)
  show ?case
  proof (cases "polar_check_table_rel_size c tb lsn tag res")
    case (Inl e)
    then show ?thesis using check_table_after(1) [OF Suc.prems, of c tb tag] by simp
  next
    case (Inr r)
    then have "found_after lsn (snd r)" using check_table_after(2) [OF Suc.prems, of c tb tag "fst r" "snd r"] by simp
    then show ?thesis using Suc.IH Inr get_table_error [of c "rt_tid tb - 1"]
      by (cases "polar_get_rel_size_table c (rt_tid tb - 1)") (auto simp: split_def)
  qed
qed simp

section \<open>Correctness\<close>

text \<open>
  What the search means for the newest events: \<open>t\<close> the LSN of the newest truncation of the block after
  the LSN, \<open>d\<close> the newest event of its database.
\<close>

lemma newest_db_eq:
  assumes "sorted (map ev_lsn es)" "distinct (map ds_lsn (db_events es))" "last_db (set es) lsn tag d"
  shows "newest_db es lsn tag = Some d"
proof (cases "newest_db es lsn tag")
  case None
  then show ?thesis using assms(3) by (simp add: newest_db_None last_db_def)
next
  case (Some x)
  then show ?thesis using last_unique(2) [OF assms(2) newest_db_last [OF assms(1) Some] assms(3)] by simp
qed

lemma newest_trunc_eq:
  assumes "sorted (map ev_lsn es)" "last_trunc (set es) lsn tag l"
  shows "newest_trunc es lsn tag = Some l"
proof (cases "newest_trunc es lsn tag")
  case None
  then show ?thesis using assms(2) by (auto simp: newest_trunc_None last_trunc_def)
next
  case (Some x)
  then show ?thesis using last_unique(1) [OF newest_trunc_last [OF assms(1) Some] assms(2)] by simp
qed

lemma newest_db_state: "sorted (map ev_lsn es) \<Longrightarrow> db_states (set es) \<Longrightarrow> newest_db es lsn tag = Some d \<Longrightarrow> ds_state d \<in> {POLAR_DB_NEW, POLAR_DB_DROPED}"
  using newest_db_last by (auto simp: last_db_def db_hits_def db_states_def)

lemma search_answer:
  assumes es: "sorted (map ev_lsn es)" "distinct (map ds_lsn (db_events es))"
    and res: "undecided (set es) lsn tag res \<or> decided (set es) lsn tag res"
  shows "case (newest_trunc es lsn tag, newest_db es lsn tag) of
      (None, None) \<Rightarrow> search_value lsn res = (True, lsn)
    | (Some t, None) \<Rightarrow> search_value lsn res = (False, t)
    | (None, Some d) \<Rightarrow> search_value lsn res = (ds_state d \<noteq> POLAR_DB_DROPED, ds_lsn d) \<and> (ds_state d = POLAR_DB_NEW \<longrightarrow> sr_ignore_error res)
    | (Some t, Some d) \<Rightarrow> search_value lsn res = (False, t) \<or> ds_state d = POLAR_DB_DROPED \<and> search_value lsn res = (False, ds_lsn d)"
proof -
  have T: "newest_trunc es lsn tag = None \<longleftrightarrow> trunc_hits (set es) lsn tag = {}" by (rule newest_trunc_None)
  have D: "newest_db es lsn tag = None \<longleftrightarrow> db_hits (set es) lsn tag = {}" by (rule newest_db_None)
  note t = newest_trunc_eq [OF es(1)] and d = newest_db_eq [OF es(1,2)]
  from res show ?thesis
  proof
    assume "undecided (set es) lsn tag res"
    then show ?thesis using T D d by (auto simp: undecided_def search_value_def split: option.splits)
  next
    assume "decided (set es) lsn tag res"
    then show ?thesis using T D t d by (auto simp: decided_def search_value_def split: option.splits)
  qed
qed

text \<open>
  C3. The query for validity, after any sequence of recordings and truncations of the cache,
  through however many tables in memory and in files. The events are recorded in LSN order, each
  database event with an LSN of its own, less than \<open>2 ^ 32 - 2\<close> operations, and the files can be
  written. No operation fails. For an LSN that is not before one to which the cache was
  truncated, a block is valid if and only if no later truncation cuts it off and its database has
  no later event. It is invalid after a later truncation or drop. When the newest later event of the
  database is its creation, the query panics, which is the first of the cases for a panic in the
  comment of the function, unless a later truncation of the block is found first; then the block is
  invalid.
\<close>

theorem rel_size_cache_correct:
  assumes "polar_rel_size_shmem_init blocks True = Some c0"
    and "sorted (map ev_lsn (recorded ops))" "\<forall>e \<in> set (recorded ops). 0 < ev_lsn e" "length ops < 2 ^ 32 - 2"
    and "db_states (set (recorded ops))" "distinct (map ds_lsn (db_events (recorded ops)))"
  shows "\<exists>c. run_ops c0 ops = Inr c \<and> (\<forall>lsn tag. (\<forall>l \<in> truncations ops. l \<le> lsn) \<longrightarrow>
    (case (newest_trunc (recorded ops) lsn tag, newest_db (recorded ops) lsn tag) of
      (None, None) \<Rightarrow> polar_check_rel_block_valid_only c lsn tag = Inr True
    | (Some t, None) \<Rightarrow> polar_check_rel_block_valid_only c lsn tag = Inr False
    | (None, Some d) \<Rightarrow> polar_check_rel_block_valid_only c lsn tag
        = (if ds_state d = POLAR_DB_DROPED then Inr False else Inl (PANIC ''Got unexpected value from relation size cache, created''))
    | (Some t, Some d) \<Rightarrow> polar_check_rel_block_valid_only c lsn tag = Inr False
        \<or> ds_state d = POLAR_DB_NEW
          \<and> polar_check_rel_block_valid_only c lsn tag = Inl (PANIC ''Got unexpected value from relation size cache, created'')))"
proof -
  let ?es = "recorded ops" and ?q = polar_check_rel_block_valid_only
  obtain c a where c: "run_ops c0 ops = Inr c" "holds_log c a ops" using holds_log_run [OF assms(1-4)] by blast
  have "case (newest_trunc ?es lsn tag, newest_db ?es lsn tag) of
      (None, None) \<Rightarrow> ?q c lsn tag = Inr True
    | (Some t, None) \<Rightarrow> ?q c lsn tag = Inr False
    | (None, Some d) \<Rightarrow> ?q c lsn tag = (if ds_state d = POLAR_DB_DROPED then Inr False else Inl created_panic)
    | (Some t, Some d) \<Rightarrow> ?q c lsn tag = Inr False \<or> ds_state d = POLAR_DB_NEW \<and> ?q c lsn tag = Inl created_panic"
    if lsn: "\<forall>l \<in> truncations ops. l \<le> lsn" for lsn tag
    using check_internal_search [OF c(2) assms(5) lsn, of tag False]
  proof (elim disjE exE conjE)
    fix res assume v: "polar_check_rel_block_valid_internal c lsn tag False = Inr (search_value lsn res)"
    have q: "?q c lsn tag = Inr (fst (search_value lsn res))" using v by (simp add: polar_check_rel_block_valid_only_def split_beta)
    assume i: "sr_ignore_error res = False"
    { assume "undecided (set ?es) lsn tag res"
      then show ?thesis using search_answer [OF assms(2,6), of lsn tag res] i newest_db_state [OF assms(2,5)] unfolding q by (auto split: option.splits) }
    { assume "decided (set ?es) lsn tag res"
      then show ?thesis using search_answer [OF assms(2,6), of lsn tag res] i newest_db_state [OF assms(2,5)] unfolding q by (auto split: option.splits) }
  next
    fix d assume v: "polar_check_rel_block_valid_internal c lsn tag False = Inl created_panic"
      and d: "last_db (set ?es) lsn tag d" "ds_state d = POLAR_DB_NEW"
    have "?q c lsn tag = Inl created_panic" using v by (simp add: polar_check_rel_block_valid_only_def)
    moreover have "newest_db ?es lsn tag = Some d" using newest_db_eq [OF assms(2,6) d(1)] .
    ultimately show ?thesis using d(2) by (auto split: option.splits)
  qed
  with c(1) show ?thesis by blast
qed

definition sample_tag_in :: "Oid \<Rightarrow> BlockNumber \<Rightarrow> BufferTag" where
  "sample_tag_in db blk = \<lparr>rnode = \<lparr>spcNode = 1, dbNode = db, relNode = 3\<rparr>, forkNum = 0, blockNum = blk\<rparr>"

definition sample_ops :: "size_op list" where
  "sample_ops = [Record (Trunc \<lparr>rs_lsn = 10, rs_node = \<lparr>spcNode = 1, dbNode = 2, relNode = 3\<rparr>, rs_fork = 0, rs_rel_size = 8\<rparr>),
     Truncate 4, Record (Db \<lparr>ds_lsn = 12, ds_spc = 1, ds_db = 5, ds_state = POLAR_DB_NEW\<rparr>),
     Record (Db \<lparr>ds_lsn = 14, ds_spc = 1, ds_db = 6, ds_state = POLAR_DB_DROPED\<rparr>)]"

lemma sample_ops_ok:
  "sorted (map ev_lsn (recorded sample_ops))" "\<forall>e \<in> set (recorded sample_ops). 0 < ev_lsn e" "length sample_ops < 2 ^ 32 - 2"
  "db_states (set (recorded sample_ops))" "distinct (map ds_lsn (db_events (recorded sample_ops)))" "truncations sample_ops = {4}"
  by (auto simp: sample_ops_def recorded_def db_states_def db_events_def truncations_def)

lemma sample_newest:
  "newest_trunc (recorded sample_ops) lsn (sample_tag_in db blk) = (if lsn < 10 \<and> db = 2 \<and> 8 \<le> blk then Some 10 else None)"
  "newest_db (recorded sample_ops) lsn (sample_tag_in db blk) =
     (if lsn < 14 \<and> db = 6 then Some \<lparr>ds_lsn = 14, ds_spc = 1, ds_db = 6, ds_state = POLAR_DB_DROPED\<rparr>
      else if lsn < 12 \<and> db = 5 then Some \<lparr>ds_lsn = 12, ds_spc = 1, ds_db = 5, ds_state = POLAR_DB_NEW\<rparr> else None)"
  by (auto simp: newest_trunc_def newest_db_def sample_ops_def recorded_def sample_tag_in_def rel_matches_def)

theorem rel_size_cache_correct_witness:
  "\<exists>c0 c. polar_rel_size_shmem_init 2 True = Some c0 \<and> run_ops c0 sample_ops = Inr c
     \<and> polar_check_rel_block_valid_only c 9 (sample_tag_in 2 8) = Inr False \<and> polar_check_rel_block_valid_only c 9 (sample_tag_in 2 7) = Inr True
     \<and> polar_check_rel_block_valid_only c 10 (sample_tag_in 2 8) = Inr True \<and> polar_check_rel_block_valid_only c 9 (sample_tag_in 6 0) = Inr False
     \<and> polar_check_rel_block_valid_only c 9 (sample_tag_in 5 0) = Inl (PANIC ''Got unexpected value from relation size cache, created'')"
proof -
  obtain c0 where c0: "polar_rel_size_shmem_init 2 True = Some c0" by (simp add: polar_rel_size_shmem_init_def)
  from rel_size_cache_correct [OF c0 sample_ops_ok(1-5)] obtain c where c: "run_ops c0 sample_ops = Inr c"
    and q: "\<And>lsn tag. 4 \<le> lsn \<Longrightarrow> case (newest_trunc (recorded sample_ops) lsn tag, newest_db (recorded sample_ops) lsn tag) of
      (None, None) \<Rightarrow> polar_check_rel_block_valid_only c lsn tag = Inr True
    | (Some t, None) \<Rightarrow> polar_check_rel_block_valid_only c lsn tag = Inr False
    | (None, Some d) \<Rightarrow> polar_check_rel_block_valid_only c lsn tag = (if ds_state d = POLAR_DB_DROPED then Inr False else Inl created_panic)
    | (Some t, Some d) \<Rightarrow> polar_check_rel_block_valid_only c lsn tag = Inr False
        \<or> ds_state d = POLAR_DB_NEW \<and> polar_check_rel_block_valid_only c lsn tag = Inl created_panic"
    by (auto simp: sample_ops_ok(6))
  show ?thesis using c0 c q [of 9 "sample_tag_in 2 8"] q [of 9 "sample_tag_in 2 7"] q [of 10 "sample_tag_in 2 8"]
      q [of 9 "sample_tag_in 6 0"] q [of 9 "sample_tag_in 5 0"]
    by (intro exI [of _ c0] exI [of _ c]) (simp add: sample_newest del: run_ops.simps)
qed

text \<open>
  C23. The query that also returns from where a block is to be replayed, under the same
  conditions. It never fails. A block is invalid if and only if a later truncation cuts it off or
  the newest later event of its database is a drop. For a valid block the start is the LSN that was
  asked for, or that of the later creation of its database. For an invalid block it is the LSN of
  the newest truncation or of the drop; only when there are both, it depends on the tables which.
\<close>

theorem rel_size_cache_start_lsn:
  assumes "polar_rel_size_shmem_init blocks True = Some c0"
    and "sorted (map ev_lsn (recorded ops))" "\<forall>e \<in> set (recorded ops). 0 < ev_lsn e" "length ops < 2 ^ 32 - 2"
    and "db_states (set (recorded ops))" "distinct (map ds_lsn (db_events (recorded ops)))"
  shows "\<exists>c. run_ops c0 ops = Inr c \<and> (\<forall>lsn tag. (\<forall>l \<in> truncations ops. l \<le> lsn) \<longrightarrow>
    (case (newest_trunc (recorded ops) lsn tag, newest_db (recorded ops) lsn tag) of
      (None, None) \<Rightarrow> polar_check_rel_block_valid_and_lsn c lsn tag = Inr (True, lsn)
    | (Some t, None) \<Rightarrow> polar_check_rel_block_valid_and_lsn c lsn tag = Inr (False, t)
    | (None, Some d) \<Rightarrow> polar_check_rel_block_valid_and_lsn c lsn tag = Inr (ds_state d \<noteq> POLAR_DB_DROPED, ds_lsn d)
    | (Some t, Some d) \<Rightarrow> polar_check_rel_block_valid_and_lsn c lsn tag = Inr (False, t)
        \<or> ds_state d = POLAR_DB_DROPED \<and> polar_check_rel_block_valid_and_lsn c lsn tag = Inr (False, ds_lsn d)))"
proof -
  let ?es = "recorded ops" and ?q = polar_check_rel_block_valid_and_lsn
  obtain c a where c: "run_ops c0 ops = Inr c" "holds_log c a ops" using holds_log_run [OF assms(1-4)] by blast
  have "case (newest_trunc ?es lsn tag, newest_db ?es lsn tag) of
      (None, None) \<Rightarrow> ?q c lsn tag = Inr (True, lsn)
    | (Some t, None) \<Rightarrow> ?q c lsn tag = Inr (False, t)
    | (None, Some d) \<Rightarrow> ?q c lsn tag = Inr (ds_state d \<noteq> POLAR_DB_DROPED, ds_lsn d)
    | (Some t, Some d) \<Rightarrow> ?q c lsn tag = Inr (False, t) \<or> ds_state d = POLAR_DB_DROPED \<and> ?q c lsn tag = Inr (False, ds_lsn d)"
    if lsn: "\<forall>l \<in> truncations ops. l \<le> lsn" for lsn tag
  proof -
    obtain res where q: "?q c lsn tag = Inr (search_value lsn res)" "undecided (set ?es) lsn tag res \<or> decided (set ?es) lsn tag res"
      using check_internal_search [OF c(2) assms(5) lsn, of tag True] unfolding polar_check_rel_block_valid_and_lsn_def by blast
    show ?thesis using search_answer [OF assms(2,6) q(2)] unfolding q(1) by (auto split: option.splits)
  qed
  with c(1) show ?thesis by blast
qed

theorem rel_size_cache_start_lsn_witness:
  "\<exists>c0 c. polar_rel_size_shmem_init 1 True = Some c0 \<and> run_ops c0 sample_ops = Inr c
     \<and> polar_check_rel_block_valid_and_lsn c 9 (sample_tag_in 2 8) = Inr (False, 10)
     \<and> polar_check_rel_block_valid_and_lsn c 9 (sample_tag_in 2 7) = Inr (True, 9)
     \<and> polar_check_rel_block_valid_and_lsn c 9 (sample_tag_in 5 0) = Inr (True, 12)
     \<and> polar_check_rel_block_valid_and_lsn c 9 (sample_tag_in 6 0) = Inr (False, 14)"
proof -
  obtain c0 where c0: "polar_rel_size_shmem_init 1 True = Some c0" by (simp add: polar_rel_size_shmem_init_def)
  from rel_size_cache_start_lsn [OF c0 sample_ops_ok(1-5)] obtain c where c: "run_ops c0 sample_ops = Inr c"
    and q: "\<And>lsn tag. 4 \<le> lsn \<Longrightarrow> case (newest_trunc (recorded sample_ops) lsn tag, newest_db (recorded sample_ops) lsn tag) of
      (None, None) \<Rightarrow> polar_check_rel_block_valid_and_lsn c lsn tag = Inr (True, lsn)
    | (Some t, None) \<Rightarrow> polar_check_rel_block_valid_and_lsn c lsn tag = Inr (False, t)
    | (None, Some d) \<Rightarrow> polar_check_rel_block_valid_and_lsn c lsn tag = Inr (ds_state d \<noteq> POLAR_DB_DROPED, ds_lsn d)
    | (Some t, Some d) \<Rightarrow> polar_check_rel_block_valid_and_lsn c lsn tag = Inr (False, t)
        \<or> ds_state d = POLAR_DB_DROPED \<and> polar_check_rel_block_valid_and_lsn c lsn tag = Inr (False, ds_lsn d)"
    by (auto simp: sample_ops_ok(6))
  show ?thesis using c0 c q [of 9 "sample_tag_in 2 8"] q [of 9 "sample_tag_in 2 7"] q [of 9 "sample_tag_in 5 0"] q [of 9 "sample_tag_in 6 0"]
    by (intro exI [of _ c0] exI [of _ c]) (simp add: sample_newest del: run_ops.simps)
qed

text \<open>
  C25. The query for validity only never panics with the message for a database that was dropped
  before the LSN, whatever the cache: an entry that is not after the LSN ends the search before
  its state is looked at. The second case for a panic that the comment of the function lists
  does not exist.
\<close>

theorem rel_size_cache_no_dropped_panic:
  "polar_check_rel_block_valid_only c lsn tag \<noteq> Inl (PANIC ''Got unexpected value from relation size cache, dropped'')"
proof -
  let ?res = "\<lparr>sr_state = POLAR_DB_NOTFOUND, sr_lsn = InvalidXLogRecPtr, sr_size = 0, sr_ignore_error = False\<rparr>"
  have "check_tables n c tb lsn tag ?res \<noteq> Inl dropped_panic" for n tb
    by (rule check_tables_after) (simp add: found_after_def)
  then have "polar_check_rel_block_valid_internal c lsn tag False \<noteq> Inl dropped_panic"
    by (auto simp: polar_check_rel_block_valid_internal_def Let_def aget_def rbind_def
        simp del: check_tables.simps split: sum.splits)
  then show ?thesis
    by (cases "polar_check_rel_block_valid_internal c lsn tag False") (auto simp: polar_check_rel_block_valid_only_def)
qed

text \<open>
  C24. The layout of every table that is kept, in memory or in a file, after any sequence of
  recordings and truncations: it is found under its number, the relation entries fill its 8160
  bytes from the front and the database entries from the back without crossing, and every entry
  that is read from these bytes is a recorded event. Both ends fit their 16 bits.
\<close>

theorem rel_size_table_bounds:
  assumes "polar_rel_size_shmem_init blocks True = Some c0"
    and "sorted (map ev_lsn (recorded ops))" "\<forall>e \<in> set (recorded ops). 0 < ev_lsn e" "length ops < 2 ^ 32 - 2"
  shows "\<exists>c a. run_ops c0 ops = Inr c \<and> rt_tid (rc_tables c ! rc_active_mid c) = a \<and> rc_min_tid c \<le> a \<and> a \<le> Suc (length ops)
    \<and> (\<forall>t \<in> {rc_min_tid c..a}. \<exists>tb. polar_get_rel_size_table c t = Inr tb \<and> rt_tid tb = t \<and> length (rt_info tb) = 8160
        \<and> rt_rel_tail tb = 32 * length (rels tb) \<and> rt_db_tail tb + 24 * length (dbs tb) = 8160 \<and> rt_rel_tail tb \<le> rt_db_tail tb
        \<and> rt_db_tail tb < 2 ^ 16 \<and> Trunc ` set (rels tb) \<union> Db ` set (dbs tb) \<subseteq> set (recorded ops))"
proof -
  obtain c a where c: "run_ops c0 ops = Inr c" "holds_log c a ops" "a \<le> Suc (length ops)" using holds_log_run [OF assms] by blast
  then have ok: "ring_ok c a" "all_events c a \<subseteq> set (recorded ops)" by (simp_all add: holds_log_def)
  have "\<exists>tb. polar_get_rel_size_table c t = Inr tb \<and> rt_tid tb = t \<and> length (rt_info tb) = 8160
        \<and> rt_rel_tail tb = 32 * length (rels tb) \<and> rt_db_tail tb + 24 * length (dbs tb) = 8160 \<and> rt_rel_tail tb \<le> rt_db_tail tb
        \<and> rt_db_tail tb < 2 ^ 16 \<and> Trunc ` set (rels tb) \<union> Db ` set (dbs tb) \<subseteq> set (recorded ops)" if t: "t \<in> {rc_min_tid c..a}" for t
  proof -
    obtain tb where tb: "stored c t = Some tb" "rt_tid tb = t" "table_wf tb" using ring_okD(10) [OF ok(1)] t by auto
    note w = table_wfD [OF tb(3), unfolded REL_INFO_TOTAL_SIZE_def sizeof_relation_size_def sizeof_database_state_def]
    have "events c t = table_events tb" using tb(1) by (simp add: events_def)
    moreover have "events c t \<subseteq> set (recorded ops)" using ok(2) t by blast
    ultimately have "Trunc ` set (rels tb) \<union> Db ` set (dbs tb) \<subseteq> set (recorded ops)" by (simp add: table_events_def)
    then show ?thesis using get_table_stored [OF ok(1) tb(1)] tb(2) w by (intro exI [of _ tb]) simp
  qed
  then show ?thesis using c(1,3) ring_okD(4,7) [OF ok(1)] by blast
qed

theorem rel_size_table_bounds_witness:
  "\<exists>c0 c tb. polar_rel_size_shmem_init 3 True = Some c0 \<and> run_ops c0 sample_ops = Inr c
     \<and> polar_get_rel_size_table c (rt_tid (rc_tables c ! rc_active_mid c)) = Inr tb \<and> rt_rel_tail tb \<le> rt_db_tail tb
     \<and> rt_db_tail tb + 24 * length (dbs tb) = 8160"
proof -
  obtain c0 where c0: "polar_rel_size_shmem_init 3 True = Some c0" by (simp add: polar_rel_size_shmem_init_def)
  from rel_size_table_bounds [OF c0 sample_ops_ok(1-3)] obtain c a where c: "run_ops c0 sample_ops = Inr c"
    "rt_tid (rc_tables c ! rc_active_mid c) = a" "rc_min_tid c \<le> a"
    "\<forall>t \<in> {rc_min_tid c..a}. \<exists>tb. polar_get_rel_size_table c t = Inr tb \<and> rt_tid tb = t \<and> length (rt_info tb) = 8160
        \<and> rt_rel_tail tb = 32 * length (rels tb) \<and> rt_db_tail tb + 24 * length (dbs tb) = 8160 \<and> rt_rel_tail tb \<le> rt_db_tail tb
        \<and> rt_db_tail tb < 2 ^ 16 \<and> Trunc ` set (rels tb) \<union> Db ` set (dbs tb) \<subseteq> set (recorded sample_ops)" by blast
  have "a \<in> {rc_min_tid c..a}" using c(3) by simp
  then show ?thesis using c0 c(1,2) bspec [OF c(4)] by blast
qed

end
