(* ===== verification/Logindex_Table.thy ===== *)
theory Logindex_Table
  imports Polar_Prelude
begin

text \<open>
  A table of the logindex (\<open>access/polar_logindex_internal.h\<close>, and the operations on a table of
  \<open>access/logindex/polar_logindex.c\<close> and \<open>polar_logindex_iterator.c\<close>): which WAL records change
  which page. The LSNs of a page are in an item: a head with up to two of them and a chain of
  segments with up to ten each. The items are in hash chains, and an array has the order in
  which the LSNs were added.

  A table keeps the upper 32 bits of its LSNs once and the lower 32 bits of each. Heads and
  segments share the cells of one array: a C union, here a datatype. Both members begin with
  \<open>head_seg\<close>, which is read without knowing which one is stored. A cell that is all zeros can
  be read as either.
\<close>

section \<open>Constants and types\<close>

definition LOG_INDEX_MEM_TBL_SEG_NUM :: nat where "LOG_INDEX_MEM_TBL_SEG_NUM = 4096"

definition LOG_INDEX_MEM_TBL_HASH_NUM :: nat where
  "LOG_INDEX_MEM_TBL_HASH_NUM = LOG_INDEX_MEM_TBL_SEG_NUM div 2"

definition LOG_INDEX_MEM_TBL_HASH_PAGE :: "(BufferTag \<Rightarrow> uint32) \<Rightarrow> BufferTag \<Rightarrow> nat" where
  "LOG_INDEX_MEM_TBL_HASH_PAGE tag_hash tag = unat (tag_hash tag) mod LOG_INDEX_MEM_TBL_HASH_NUM"

abbreviation (input) LOG_INDEX_TABLE_INVALID_ID :: nat where "LOG_INDEX_TABLE_INVALID_ID \<equiv> 0"

abbreviation (input) LOG_INDEX_TBL_INVALID_SEG :: nat where "LOG_INDEX_TBL_INVALID_SEG \<equiv> 0"

definition LOG_INDEX_ITEM_HEAD_LSN_NUM :: nat where "LOG_INDEX_ITEM_HEAD_LSN_NUM = 2"

definition LOG_INDEX_ITEM_SEG_LSN_NUM :: nat where "LOG_INDEX_ITEM_SEG_LSN_NUM = 10"

definition LOG_INDEX_MAX_ORDER_NUM :: nat where
  "LOG_INDEX_MAX_ORDER_NUM = LOG_INDEX_MEM_TBL_SEG_NUM * LOG_INDEX_ITEM_SEG_LSN_NUM"

record log_item_head =
  ih_head_seg :: nat
  ih_next_item :: nat
  ih_next_seg :: nat
  ih_tail_seg :: nat
  ih_tag :: BufferTag
  ih_number :: nat
  ih_prev_page_lsn :: XLogRecPtr
  ih_suffix_lsn :: "uint32 list"

record log_item_seg =
  is_head_seg :: nat
  is_next_seg :: nat
  is_prev_seg :: nat
  is_number :: nat
  is_suffix_lsn :: "uint32 list"

datatype log_tbl_seg = SegZero | ItemHead log_item_head | ItemSeg log_item_seg

record log_idx_table_data =
  td_idx_table_id :: nat
  td_min_lsn :: XLogRecPtr
  td_max_lsn :: XLogRecPtr
  td_prefix_lsn :: uint32
  td_crc :: uint32
  td_last_order :: nat
  td_idx_order :: "uint16 list"
  td_hash :: "nat list"
  td_segment :: "log_tbl_seg list"

record log_index_lsn =
  li_tag :: BufferTag
  li_lsn :: XLogRecPtr
  li_prev_lsn :: XLogRecPtr

section \<open>LSNs and orders\<close>

definition LOG_INDEX_COMBINE_LSN :: "log_idx_table_data \<Rightarrow> uint32 \<Rightarrow> XLogRecPtr" where
  "LOG_INDEX_COMBINE_LSN table suffix = push_bit 32 (ucast (td_prefix_lsn table)) OR ucast suffix"

definition LOG_INDEX_SAME_TABLE_LSN_PREFIX :: "log_idx_table_data \<Rightarrow> XLogRecPtr \<Rightarrow> bool" where
  "LOG_INDEX_SAME_TABLE_LSN_PREFIX table lsn \<longleftrightarrow> ucast (td_prefix_lsn table) = drop_bit 32 lsn"

text \<open>The value that \<open>LOG_INDEX_INSERT_LSN_INFO\<close> stores.\<close>

definition LOG_INDEX_SUFFIX_LSN :: "XLogRecPtr \<Rightarrow> uint32" where
  "LOG_INDEX_SUFFIX_LSN lsn = ucast (drop_bit 32 (push_bit 32 lsn))"

definition LOG_INDEX_SEG_ORDER :: "uint16 \<Rightarrow> nat" where
  "LOG_INDEX_SEG_ORDER idx_order = unat (idx_order AND 0x0FFF)"

definition LOG_INDEX_ID_ORDER :: "uint16 \<Rightarrow> nat" where
  "LOG_INDEX_ID_ORDER idx_order = unat (drop_bit 12 (idx_order AND 0xF000))"

definition LOG_INDEX_ORDER :: "nat \<Rightarrow> nat \<Rightarrow> uint16" where
  "LOG_INDEX_ORDER seg_id idx = (of_nat seg_id AND 0x0FFF) OR (push_bit 12 (of_nat idx) AND 0xF000)"

definition LOG_INDEX_MEM_TBL_ADD_ORDER :: "log_idx_table_data \<Rightarrow> nat \<Rightarrow> nat \<Rightarrow> log_idx_table_data result" where
  "LOG_INDEX_MEM_TBL_ADD_ORDER t seg_id idx =
     rbind (aset (td_idx_order t) (td_last_order t) (LOG_INDEX_ORDER seg_id idx)) (\<lambda>orders.
     Inr (t\<lparr>td_idx_order := orders, td_last_order := td_last_order t + 1\<rparr>))"

section \<open>Cells\<close>

definition tag_zeros :: BufferTag where
  "tag_zeros = \<lparr>rnode = \<lparr>spcNode = 0, dbNode = 0, relNode = 0\<rparr>, forkNum = 0, blockNum = 0\<rparr>"

definition item_head_zero :: log_item_head where
  "item_head_zero = \<lparr>ih_head_seg = 0, ih_next_item = 0, ih_next_seg = 0, ih_tail_seg = 0, ih_tag = tag_zeros,
     ih_number = 0, ih_prev_page_lsn = 0, ih_suffix_lsn = replicate LOG_INDEX_ITEM_HEAD_LSN_NUM 0\<rparr>"

definition item_seg_zero :: log_item_seg where
  "item_seg_zero = \<lparr>is_head_seg = 0, is_next_seg = 0, is_prev_seg = 0, is_number = 0,
     is_suffix_lsn = replicate LOG_INDEX_ITEM_SEG_LSN_NUM 0\<rparr>"

text \<open>A cell as a head, as a segment, and its first member.\<close>

fun as_head :: "log_tbl_seg \<Rightarrow> log_item_head result" where
  "as_head SegZero = Inr item_head_zero"
| "as_head (ItemHead h) = Inr h"
| "as_head (ItemSeg s) = Inl WrongMember"

fun as_seg :: "log_tbl_seg \<Rightarrow> log_item_seg result" where
  "as_seg SegZero = Inr item_seg_zero"
| "as_seg (ItemHead h) = Inl WrongMember"
| "as_seg (ItemSeg s) = Inr s"

fun cell_head_seg :: "log_tbl_seg \<Rightarrow> nat" where
  "cell_head_seg SegZero = 0"
| "cell_head_seg (ItemHead h) = ih_head_seg h"
| "cell_head_seg (ItemSeg s) = is_head_seg s"

text \<open>The head with a number, and the cell with a number that is read as a segment.\<close>

definition log_index_item_head :: "log_idx_table_data \<Rightarrow> nat \<Rightarrow> log_item_head option result" where
  "log_index_item_head table head =
     (if head > LOG_INDEX_MEM_TBL_SEG_NUM then Inl (PANIC ''Incorrect head to get logindex item head'')
      else if head = LOG_INDEX_TBL_INVALID_SEG then Inr None
      else rbind (aget (td_segment table) (head - 1)) (\<lambda>c. rbind (as_head c) (\<lambda>h. Inr (Some h))))"

definition log_index_item_seg :: "log_idx_table_data \<Rightarrow> nat \<Rightarrow> log_tbl_seg option result" where
  "log_index_item_seg table seg =
     (if seg > LOG_INDEX_MEM_TBL_SEG_NUM then Inl (PANIC ''Incorrect seg to get logindex segment'')
      else if seg = LOG_INDEX_TBL_INVALID_SEG then Inr None
      else rbind (aget (td_segment table) (seg - 1)) (\<lambda>c. Inr (Some c)))"

abbreviation get_head :: "log_idx_table_data \<Rightarrow> nat \<Rightarrow> log_item_head result" where
  "get_head table head \<equiv> rbind (log_index_item_head table head) deref"

abbreviation get_cell :: "log_idx_table_data \<Rightarrow> nat \<Rightarrow> log_tbl_seg result" where
  "get_cell table seg \<equiv> rbind (log_index_item_seg table seg) deref"

abbreviation get_seg :: "log_idx_table_data \<Rightarrow> nat \<Rightarrow> log_item_seg result" where
  "get_seg table seg \<equiv> rbind (get_cell table seg) as_seg"

definition put_cell :: "log_idx_table_data \<Rightarrow> nat \<Rightarrow> log_tbl_seg \<Rightarrow> log_idx_table_data result" where
  "put_cell table i c = rbind (aset (td_segment table) (i - 1) c) (\<lambda>segs. Inr (table\<lparr>td_segment := segs\<rparr>))"

section \<open>The operations on a table\<close>

text \<open>\<open>LOG_INDEX_SEG_MIN_LSN\<close> and \<open>LOG_INDEX_SEG_MAX_LSN\<close> on the LSNs of a head or a segment.\<close>

definition LOG_INDEX_SEG_MIN_LSN :: "log_idx_table_data \<Rightarrow> uint32 list \<Rightarrow> XLogRecPtr result" where
  "LOG_INDEX_SEG_MIN_LSN table suffix = rbind (aget suffix 0) (\<lambda>s. Inr (LOG_INDEX_COMBINE_LSN table s))"

definition LOG_INDEX_SEG_MAX_LSN :: "log_idx_table_data \<Rightarrow> uint32 list \<Rightarrow> nat \<Rightarrow> XLogRecPtr result" where
  "LOG_INDEX_SEG_MAX_LSN table suffix number =
     (if number = 0 then Inl OutOfBounds
      else rbind (aget suffix (number - 1)) (\<lambda>s. Inr (LOG_INDEX_COMBINE_LSN table s)))"

definition log_index_item_max_lsn :: "log_idx_table_data \<Rightarrow> log_item_head \<Rightarrow> XLogRecPtr result" where
  "log_index_item_max_lsn table item =
     (if ih_head_seg item = ih_tail_seg item
      then LOG_INDEX_SEG_MAX_LSN table (ih_suffix_lsn item) (ih_number item)
      else rbind (get_seg table (ih_tail_seg item)) (\<lambda>seg.
           LOG_INDEX_SEG_MAX_LSN table (is_suffix_lsn seg) (is_number seg)))"

text \<open>The loop of \<open>log_index_mem_tbl_exists_page\<close>; \<open>n\<close> bounds the length of the hash chain.\<close>

fun exists_page_loop :: "nat \<Rightarrow> log_idx_table_data \<Rightarrow> BufferTag \<Rightarrow> nat \<Rightarrow> nat result" where
  "exists_page_loop 0 table tag exists = Inl NoReturn"
| "exists_page_loop (Suc n) table tag exists =
     rbind (log_index_item_head table exists) (\<lambda>item.
     case item of None \<Rightarrow> Inr exists
     | Some h \<Rightarrow> if ih_tag h = tag then Inr exists else exists_page_loop n table tag (ih_next_item h))"

definition log_index_mem_tbl_exists_page :: "BufferTag \<Rightarrow> log_idx_table_data \<Rightarrow> nat \<Rightarrow> nat result" where
  "log_index_mem_tbl_exists_page tag table key =
     rbind (aget (td_hash table) key) (exists_page_loop (Suc LOG_INDEX_MEM_TBL_SEG_NUM) table tag)"

definition log_index_tbl_find :: "BufferTag \<Rightarrow> log_idx_table_data \<Rightarrow> nat \<Rightarrow> log_item_head option result" where
  "log_index_tbl_find tag table key =
     rbind (log_index_mem_tbl_exists_page tag table key) (log_index_item_head table)"

definition log_index_mem_seg_full :: "log_idx_table_data \<Rightarrow> nat \<Rightarrow> bool result" where
  "log_index_mem_seg_full table head =
     rbind (get_head table head) (\<lambda>item.
     if ih_tail_seg item = head then Inr (ih_number item = LOG_INDEX_ITEM_HEAD_LSN_NUM)
     else rbind (get_seg table (ih_tail_seg item)) (\<lambda>seg. Inr (is_number seg = LOG_INDEX_ITEM_SEG_LSN_NUM)))"

definition log_index_insert_new_item ::
  "log_index_lsn \<Rightarrow> log_idx_table_data \<Rightarrow> nat \<Rightarrow> nat \<Rightarrow> log_idx_table_data result" where
  "log_index_insert_new_item lsn_info table key new_item_id =
     rbind (get_head table new_item_id) (\<lambda>item.
     rbind (aget (td_hash table) key) (\<lambda>slot.
     rbind (aset (ih_suffix_lsn item) 0 (LOG_INDEX_SUFFIX_LSN (li_lsn lsn_info))) (\<lambda>suffix.
     let item = item\<lparr>ih_head_seg := new_item_id, ih_next_item := LOG_INDEX_TBL_INVALID_SEG,
           ih_next_seg := LOG_INDEX_TBL_INVALID_SEG, ih_tail_seg := new_item_id, ih_tag := li_tag lsn_info,
           ih_number := 1, ih_prev_page_lsn := li_prev_lsn lsn_info, ih_suffix_lsn := suffix\<rparr>;
         item = (if slot = LOG_INDEX_TBL_INVALID_SEG then item else item\<lparr>ih_next_item := slot\<rparr>)
     in rbind (put_cell table new_item_id (ItemHead item)) (\<lambda>table.
        rbind (aset (td_hash table) key new_item_id) (\<lambda>hash. Inr (table\<lparr>td_hash := hash\<rparr>))))))"

definition log_index_insert_new_seg ::
  "log_idx_table_data \<Rightarrow> nat \<Rightarrow> nat \<Rightarrow> log_index_lsn \<Rightarrow> log_idx_table_data result" where
  "log_index_insert_new_seg table head seg_id lsn_info =
     rbind (get_head table head) (\<lambda>item.
     rbind (get_seg table seg_id) (\<lambda>seg.
     let seg = seg\<lparr>is_head_seg := head\<rparr>
     in rbind
          (if ih_tail_seg item = head then Inr (item\<lparr>ih_next_seg := seg_id\<rparr>, table)
           else
             rbind (log_index_item_seg table (ih_tail_seg item)) (\<lambda>pre_cell.
             case pre_cell of
               None \<Rightarrow> Inl (PANIC ''The log index table is corrupted, the segment is NULL'')
             | Some c \<Rightarrow> rbind (as_seg c) (\<lambda>pre_seg.
                 rbind (put_cell table (ih_tail_seg item) (ItemSeg (pre_seg\<lparr>is_next_seg := seg_id\<rparr>))) (\<lambda>table.
                 Inr (item, table))))) (\<lambda>(item, table).
        let seg = seg\<lparr>is_prev_seg := ih_tail_seg item\<rparr>;
            item = item\<lparr>ih_tail_seg := seg_id\<rparr>
        in rbind (aset (is_suffix_lsn seg) 0 (LOG_INDEX_SUFFIX_LSN (li_lsn lsn_info))) (\<lambda>suffix.
           let seg = seg\<lparr>is_next_seg := LOG_INDEX_TBL_INVALID_SEG, is_number := 1, is_suffix_lsn := suffix\<rparr>
           in rbind (put_cell table head (ItemHead item)) (\<lambda>table. put_cell table seg_id (ItemSeg seg))))))"

text \<open>The index at which the LSN was stored, and the new table.\<close>

definition log_index_append_lsn ::
  "log_idx_table_data \<Rightarrow> nat \<Rightarrow> log_index_lsn \<Rightarrow> (nat \<times> log_idx_table_data) result" where
  "log_index_append_lsn table head lsn_info =
     rbind (get_head table head) (\<lambda>item.
     if ih_tail_seg item = head
     then
       let idx = ih_number item
       in rbind (aset (ih_suffix_lsn item) idx (LOG_INDEX_SUFFIX_LSN (li_lsn lsn_info))) (\<lambda>suffix.
          rbind (put_cell table head (ItemHead (item\<lparr>ih_suffix_lsn := suffix, ih_number := ih_number item + 1\<rparr>)))
            (\<lambda>table. Inr (idx, table)))
     else
       rbind (get_seg table (ih_tail_seg item)) (\<lambda>seg.
       let idx = is_number seg
       in rbind (aset (is_suffix_lsn seg) idx (LOG_INDEX_SUFFIX_LSN (li_lsn lsn_info))) (\<lambda>suffix.
          rbind (put_cell table (ih_tail_seg item) (ItemSeg (seg\<lparr>is_suffix_lsn := suffix, is_number := is_number seg + 1\<rparr>)))
            (\<lambda>table. Inr (idx, table)))))"

text \<open>
  The two ways in which \<open>log_index_insert_lsn\<close> changes the active table: a page that is there
  and whose last cell has room gets the LSN there; else a free cell \<open>dst\<close> becomes a new item or
  the new last segment of the item \<open>head\<close>.
\<close>

definition insert_lsn_append :: "log_idx_table_data \<Rightarrow> nat \<Rightarrow> log_index_lsn \<Rightarrow> log_idx_table_data result" where
  "insert_lsn_append table head lsn_info =
     rbind (log_index_append_lsn table head lsn_info) (\<lambda>(idx, table).
     rbind (get_head table head) (\<lambda>item. LOG_INDEX_MEM_TBL_ADD_ORDER table (ih_tail_seg item) idx))"

definition insert_lsn_new ::
  "log_idx_table_data \<Rightarrow> nat \<Rightarrow> bool \<Rightarrow> nat \<Rightarrow> nat \<Rightarrow> log_index_lsn \<Rightarrow> log_idx_table_data result" where
  "insert_lsn_new table key new_item head dst lsn_info =
     rbind (if new_item then log_index_insert_new_item lsn_info table key dst
            else log_index_insert_new_seg table head dst lsn_info) (\<lambda>table.
     LOG_INDEX_MEM_TBL_ADD_ORDER table dst 0)"

section \<open>Reading in the order of insertion\<close>

definition log_index_get_seg_page_tag :: "log_idx_table_data \<Rightarrow> nat \<Rightarrow> BufferTag result" where
  "log_index_get_seg_page_tag table seg_id =
     rbind (get_cell table seg_id) (\<lambda>seg.
     rbind (get_head table (cell_head_seg seg)) (\<lambda>head. Inr (ih_tag head)))"

definition lsn_at :: "log_idx_table_data \<Rightarrow> uint32 list \<Rightarrow> nat \<Rightarrow> XLogRecPtr result" where
  "lsn_at table suffix i = rbind (aget suffix i) (\<lambda>s. Inr (LOG_INDEX_COMBINE_LSN table s))"

definition log_index_get_seg_prev_lsn :: "log_idx_table_data \<Rightarrow> nat \<Rightarrow> nat \<Rightarrow> XLogRecPtr result" where
  "log_index_get_seg_prev_lsn table seg_id idx =
     rbind (get_cell table seg_id) (\<lambda>cell.
     if cell_head_seg cell = seg_id
     then rbind (get_head table seg_id) (\<lambda>head.
          if idx = 0 then Inr (ih_prev_page_lsn head) else lsn_at table (ih_suffix_lsn head) (idx - 1))
     else rbind (as_seg cell) (\<lambda>seg.
          if idx > 0 then lsn_at table (is_suffix_lsn seg) (idx - 1)
          else if is_prev_seg seg = is_head_seg seg
          then rbind (get_head table (is_prev_seg seg)) (\<lambda>head.
               LOG_INDEX_SEG_MAX_LSN table (ih_suffix_lsn head) (ih_number head))
          else rbind (get_seg table (is_prev_seg seg)) (\<lambda>seg.
               LOG_INDEX_SEG_MAX_LSN table (is_suffix_lsn seg) (is_number seg))))"

text \<open>
  The LSN with a number in the order of insertion, \<open>InvalidXLogRecPtr\<close> when there are not that
  many; and what is filled into \<open>lsn_info\<close> when it is given.
\<close>

definition log_index_get_order_lsn :: "log_idx_table_data \<Rightarrow> nat \<Rightarrow> XLogRecPtr result" where
  "log_index_get_order_lsn table order =
     (if order \<ge> td_last_order table then Inr InvalidXLogRecPtr
      else
        rbind (aget (td_idx_order table) order) (\<lambda>ord.
        let seg_id = LOG_INDEX_SEG_ORDER ord; idx = LOG_INDEX_ID_ORDER ord
        in rbind (get_cell table seg_id) (\<lambda>cell.
           if cell_head_seg cell = seg_id
           then rbind (get_head table seg_id) (\<lambda>head. lsn_at table (ih_suffix_lsn head) idx)
           else rbind (as_seg cell) (\<lambda>seg. lsn_at table (is_suffix_lsn seg) idx))))"

definition log_index_order_lsn_info :: "log_idx_table_data \<Rightarrow> nat \<Rightarrow> log_index_lsn option result" where
  "log_index_order_lsn_info table order =
     (if order \<ge> td_last_order table then Inr None
      else
        rbind (log_index_get_order_lsn table order) (\<lambda>lsn.
        rbind (aget (td_idx_order table) order) (\<lambda>ord.
        let seg_id = LOG_INDEX_SEG_ORDER ord; idx = LOG_INDEX_ID_ORDER ord
        in rbind (log_index_get_seg_prev_lsn table seg_id idx) (\<lambda>prev.
           rbind (log_index_get_seg_page_tag table seg_id) (\<lambda>tag.
           Inr (Some \<lparr>li_tag = tag, li_lsn = lsn, li_prev_lsn = prev\<rparr>))))))"

end
