(* ===== verification/Logindex_Items.thy ===== *)
theory Logindex_Items
  imports Logindex_Table
begin

text \<open>
  The structure of a logindex table: cells, items and hash chains, and that the operations of
  \<open>Logindex_Table\<close> keep it. The items and chains a table has are given by three ghost
  values: the set of heads, the segments of each head, and the heads in each hash chain.
\<close>

section \<open>LSNs and orders\<close>

lemma bit_combine:
  "bit (LOG_INDEX_COMBINE_LSN t s) n \<longleftrightarrow> (if n < 32 then bit s n else n < 64 \<and> bit (td_prefix_lsn t) (n - 32))"
  by (auto simp: LOG_INDEX_COMBINE_LSN_def bit_simps dest: bit_imp_le_length)

lemma combine_suffix:
  assumes "LOG_INDEX_SAME_TABLE_LSN_PREFIX t lsn"
  shows "LOG_INDEX_COMBINE_LSN t (LOG_INDEX_SUFFIX_LSN lsn) = lsn"
proof (rule bit_word_eqI)
  fix n assume n: "n < LENGTH(64)"
  have "bit (ucast (td_prefix_lsn t) :: uint64) (n - 32) = bit (drop_bit 32 lsn) (n - 32)"
    using assms by (simp add: LOG_INDEX_SAME_TABLE_LSN_PREFIX_def)
  then show "bit (LOG_INDEX_COMBINE_LSN t (LOG_INDEX_SUFFIX_LSN lsn)) n = bit lsn n"
    using n by (auto simp: bit_combine LOG_INDEX_SUFFIX_LSN_def bit_simps)
qed

lemma order_masks: "(0x0FFF :: uint16) = mask 12" "(0xF000 :: uint16) = push_bit 12 (mask 4)"
  by (simp_all add: mask_eq_exp_minus_1)

lemma drop_push_bit: "drop_bit 12 (push_bit 12 (w :: uint16)) = take_bit 4 w"
  by (rule bit_word_eqI) (auto simp: bit_simps)

lemma order_roundtrip:
  assumes "seg < 4096" "idx < 16"
  shows "LOG_INDEX_SEG_ORDER (LOG_INDEX_ORDER seg idx) = seg" "LOG_INDEX_ID_ORDER (LOG_INDEX_ORDER seg idx) = idx"
proof -
  let ?s = "of_nat seg :: uint16" and ?i = "of_nat idx :: uint16"
  have "take_bit 12 seg = seg" "take_bit 4 idx = idx" using assms by (simp_all add: take_bit_nat_eq_self_iff)
  then have s1: "take_bit 12 ?s = ?s" and i: "take_bit 4 ?i = ?i" by (simp_all add: take_bit_of_nat)
  have "drop_bit 12 (take_bit 12 ?s) = 0" by (simp add: drop_bit_take_bit)
  with s1 have s: "take_bit 12 ?s = ?s" "drop_bit 12 ?s = 0" by simp_all
  have enc: "LOG_INDEX_ORDER seg idx = ?s OR push_bit 12 ?i"
    using s(1) i by (simp add: LOG_INDEX_ORDER_def order_masks flip: take_bit_eq_mask push_bit_and)
  have "(?s OR push_bit 12 ?i) AND mask 12 = ?s"
    using s(1) by (simp add: take_bit_push_bit flip: take_bit_eq_mask)
  then show "LOG_INDEX_SEG_ORDER (LOG_INDEX_ORDER seg idx) = seg"
    using assms(1) by (simp add: LOG_INDEX_SEG_ORDER_def enc order_masks unat_of_nat)
  have "drop_bit 12 ((?s OR push_bit 12 ?i) AND push_bit 12 (mask 4)) = ?i"
    using s(2) i by (simp add: drop_push_bit flip: take_bit_eq_mask)
  then show "LOG_INDEX_ID_ORDER (LOG_INDEX_ORDER seg idx) = idx"
    using assms(2) by (simp add: LOG_INDEX_ID_ORDER_def enc order_masks unat_of_nat)
qed

section \<open>Cells\<close>

definition cell_at :: "log_tbl_seg list \<Rightarrow> nat \<Rightarrow> log_tbl_seg" where
  "cell_at cs i = cs ! (i - 1)"

definition cell_put :: "log_tbl_seg list \<Rightarrow> nat \<Rightarrow> log_tbl_seg \<Rightarrow> log_tbl_seg list" where
  "cell_put cs i c = cs[i - 1 := c]"

lemma length_cell_put [simp]: "length (cell_put cs i c) = length cs"
  by (simp add: cell_put_def)

lemma cell_at_put:
  assumes "0 < i" "0 < j" "j \<le> length cs"
  shows "cell_at (cell_put cs j c) i = (if i = j then c else cell_at cs i)"
proof (cases "i = j")
  case False
  then have "j - 1 \<noteq> i - 1" using assms by linarith
  then show ?thesis using False by (simp add: cell_at_def cell_put_def)
qed (use assms in \<open>simp add: cell_at_def cell_put_def\<close>)

fun hd_of :: "log_tbl_seg \<Rightarrow> log_item_head" where
  "hd_of (ItemHead h) = h"
| "hd_of c = item_head_zero"

fun sg_of :: "log_tbl_seg \<Rightarrow> log_item_seg" where
  "sg_of (ItemSeg s) = s"
| "sg_of c = item_seg_zero"

fun is_head :: "log_tbl_seg \<Rightarrow> bool" where
  "is_head (ItemHead h) = True"
| "is_head c = False"

fun is_seg :: "log_tbl_seg \<Rightarrow> bool" where
  "is_seg (ItemSeg s) = True"
| "is_seg c = False"

lemma is_headD: "is_head c \<Longrightarrow> c = ItemHead (hd_of c)"
  by (cases c) simp_all

lemma is_segD: "is_seg c \<Longrightarrow> c = ItemSeg (sg_of c)"
  by (cases c) simp_all

text \<open>The LSNs in a cell: their lower halves.\<close>

fun sfx :: "log_tbl_seg \<Rightarrow> uint32 list" where
  "sfx SegZero = []"
| "sfx (ItemHead h) = take (ih_number h) (ih_suffix_lsn h)"
| "sfx (ItemSeg s) = take (is_number s) (is_suffix_lsn s)"

abbreviation tag_of :: "log_tbl_seg list \<Rightarrow> nat \<Rightarrow> BufferTag" where
  "tag_of cs h \<equiv> ih_tag (hd_of (cell_at cs h))"

lemma seg_num: "LOG_INDEX_MEM_TBL_SEG_NUM = 4096" "LOG_INDEX_MEM_TBL_HASH_NUM = 2048" "LOG_INDEX_MAX_ORDER_NUM = 40960"
  "LOG_INDEX_ITEM_HEAD_LSN_NUM = 2" "LOG_INDEX_ITEM_SEG_LSN_NUM = 10"
  by (simp_all add: LOG_INDEX_MEM_TBL_SEG_NUM_def LOG_INDEX_MEM_TBL_HASH_NUM_def LOG_INDEX_MAX_ORDER_NUM_def
      LOG_INDEX_ITEM_SEG_LSN_NUM_def LOG_INDEX_ITEM_HEAD_LSN_NUM_def)

lemma get_cell_at:
  assumes "length (td_segment t) = LOG_INDEX_MEM_TBL_SEG_NUM" "0 < i" "i \<le> LOG_INDEX_MEM_TBL_SEG_NUM"
  shows "log_index_item_seg t i = Inr (Some (cell_at (td_segment t) i))"
    "get_cell t i = Inr (cell_at (td_segment t) i)"
    "put_cell t i c = Inr (t\<lparr>td_segment := cell_put (td_segment t) i c\<rparr>)"
  using assms by (simp_all add: log_index_item_seg_def cell_at_def put_cell_def cell_put_def)

lemma get_head_at:
  assumes "length (td_segment t) = LOG_INDEX_MEM_TBL_SEG_NUM" "0 < i" "i \<le> LOG_INDEX_MEM_TBL_SEG_NUM"
    and "is_head (cell_at (td_segment t) i)"
  shows "log_index_item_head t i = Inr (Some (hd_of (cell_at (td_segment t) i)))"
    "get_head t i = Inr (hd_of (cell_at (td_segment t) i))"
proof -
  have "as_head (cell_at (td_segment t) i) = Inr (hd_of (cell_at (td_segment t) i))"
    using is_headD [OF assms(4)] by (metis as_head.simps(2))
  then show "log_index_item_head t i = Inr (Some (hd_of (cell_at (td_segment t) i)))"
    "get_head t i = Inr (hd_of (cell_at (td_segment t) i))"
    using assms(1-3) by (simp_all add: log_index_item_head_def cell_at_def)
qed

lemma get_zero_at:
  assumes "length (td_segment t) = LOG_INDEX_MEM_TBL_SEG_NUM" "0 < i" "i \<le> LOG_INDEX_MEM_TBL_SEG_NUM"
    and "cell_at (td_segment t) i = SegZero"
  shows "get_head t i = Inr item_head_zero" "get_seg t i = Inr item_seg_zero"
  using assms get_cell_at(2) [OF assms(1-3)] by (simp_all add: log_index_item_head_def cell_at_def)

lemma get_seg_at:
  assumes "length (td_segment t) = LOG_INDEX_MEM_TBL_SEG_NUM" "0 < i" "i \<le> LOG_INDEX_MEM_TBL_SEG_NUM"
    and "is_seg (cell_at (td_segment t) i)"
  shows "get_seg t i = Inr (sg_of (cell_at (td_segment t) i))"
    "as_seg (cell_at (td_segment t) i) = Inr (sg_of (cell_at (td_segment t) i))"
proof -
  show "as_seg (cell_at (td_segment t) i) = Inr (sg_of (cell_at (td_segment t) i))"
    using is_segD [OF assms(4)] by (metis as_seg.simps(3))
  then show "get_seg t i = Inr (sg_of (cell_at (td_segment t) i))" using get_cell_at(2) [OF assms(1-3)] by simp
qed

section \<open>Items and hash chains\<close>

text \<open>The cell number \<open>j\<close> of the segments \<open>ss\<close> of head \<open>h\<close>.\<close>

definition seg_ok :: "log_tbl_seg list \<Rightarrow> nat \<Rightarrow> nat list \<Rightarrow> nat \<Rightarrow> bool" where
  "seg_ok cs h ss j \<longleftrightarrow> (let c = cell_at cs (ss ! j); g = sg_of c in
     is_seg c \<and> is_head_seg g = h \<and> is_prev_seg g = (h # ss) ! j
     \<and> is_next_seg g = (if Suc j < length ss then ss ! Suc j else 0)
     \<and> length (is_suffix_lsn g) = LOG_INDEX_ITEM_SEG_LSN_NUM
     \<and> (if Suc j < length ss then is_number g = LOG_INDEX_ITEM_SEG_LSN_NUM
        else 0 < is_number g \<and> is_number g \<le> LOG_INDEX_ITEM_SEG_LSN_NUM))"

definition item_ok :: "log_tbl_seg list \<Rightarrow> nat \<Rightarrow> nat list \<Rightarrow> bool" where
  "item_ok cs h ss \<longleftrightarrow> (let c = cell_at cs h; i = hd_of c in
     is_head c \<and> ih_head_seg i = h \<and> ih_tail_seg i = last (h # ss)
     \<and> ih_next_seg i = (case ss of [] \<Rightarrow> 0 | s # _ \<Rightarrow> s)
     \<and> length (ih_suffix_lsn i) = LOG_INDEX_ITEM_HEAD_LSN_NUM
     \<and> (if ss = [] then 0 < ih_number i \<and> ih_number i \<le> LOG_INDEX_ITEM_HEAD_LSN_NUM
        else ih_number i = LOG_INDEX_ITEM_HEAD_LSN_NUM))
     \<and> (\<forall>j < length ss. seg_ok cs h ss j)"

text \<open>The hash chain that starts at head \<open>i\<close> is the list \<open>xs\<close>.\<close>

fun bucket :: "log_tbl_seg list \<Rightarrow> nat \<Rightarrow> nat list \<Rightarrow> bool" where
  "bucket cs i [] \<longleftrightarrow> i = 0"
| "bucket cs i (x # xs) \<longleftrightarrow> i = x \<and> 0 < x \<and> bucket cs (ih_next_item (hd_of (cell_at cs x))) xs"

lemma item_ok_cong: "(\<And>i. i \<in> set (h # ss) \<Longrightarrow> cell_at cs' i = cell_at cs i) \<Longrightarrow> item_ok cs' h ss = item_ok cs h ss"
  by (simp add: item_ok_def seg_ok_def)

lemma bucket_cong:
  "(\<And>i. i \<in> set xs \<Longrightarrow> ih_next_item (hd_of (cell_at cs' i)) = ih_next_item (hd_of (cell_at cs i)))
   \<Longrightarrow> bucket cs' i xs = bucket cs i xs"
  by (induction xs arbitrary: i) simp_all

text \<open>
  The structure of a table: \<open>f\<close> is its first free cell, \<open>H\<close> the set of heads, \<open>S\<close> the segments
  of each head, \<open>B\<close> the heads of each hash chain.
\<close>

definition struct_ok ::
  "(BufferTag \<Rightarrow> nat) \<Rightarrow> log_tbl_seg list \<Rightarrow> nat list \<Rightarrow> nat \<Rightarrow> nat set \<Rightarrow> (nat \<Rightarrow> nat list) \<Rightarrow> (nat \<Rightarrow> nat list) \<Rightarrow> bool"
where
  "struct_ok key cs hash f H S B \<longleftrightarrow>
     length cs = LOG_INDEX_MEM_TBL_SEG_NUM \<and> length hash = LOG_INDEX_MEM_TBL_HASH_NUM
     \<and> 0 < f \<and> f \<le> LOG_INDEX_MEM_TBL_SEG_NUM
     \<and> (\<forall>i \<in> {f..LOG_INDEX_MEM_TBL_SEG_NUM}. cell_at cs i = SegZero)
     \<and> (\<Union>h \<in> H. set (h # S h)) = {1..<f}
     \<and> (\<forall>h \<in> H. distinct (h # S h) \<and> item_ok cs h (S h))
     \<and> (\<forall>h \<in> H. \<forall>g \<in> H. h \<noteq> g \<longrightarrow> set (h # S h) \<inter> set (g # S g) = {})
     \<and> inj_on (tag_of cs) H
     \<and> (\<forall>k < LOG_INDEX_MEM_TBL_HASH_NUM. bucket cs (hash ! k) (B k) \<and> distinct (B k)
          \<and> set (B k) = {h \<in> H. key (tag_of cs h) = k})"

lemma struct_okD:
  assumes "struct_ok key cs hash f H S B"
  shows "length cs = LOG_INDEX_MEM_TBL_SEG_NUM" "length hash = LOG_INDEX_MEM_TBL_HASH_NUM" "0 < f" "f \<le> LOG_INDEX_MEM_TBL_SEG_NUM"
    "f \<le> i \<Longrightarrow> i \<le> LOG_INDEX_MEM_TBL_SEG_NUM \<Longrightarrow> cell_at cs i = SegZero"
    "(\<Union>h \<in> H. set (h # S h)) = {1..<f}"
    "h \<in> H \<Longrightarrow> distinct (h # S h)" "h \<in> H \<Longrightarrow> item_ok cs h (S h)"
    "h \<in> H \<Longrightarrow> g \<in> H \<Longrightarrow> h \<noteq> g \<Longrightarrow> set (h # S h) \<inter> set (g # S g) = {}"
    "inj_on (tag_of cs) H"
    "k < LOG_INDEX_MEM_TBL_HASH_NUM \<Longrightarrow> bucket cs (hash ! k) (B k)"
    "k < LOG_INDEX_MEM_TBL_HASH_NUM \<Longrightarrow> distinct (B k)"
    "k < LOG_INDEX_MEM_TBL_HASH_NUM \<Longrightarrow> set (B k) = {h \<in> H. key (tag_of cs h) = k}"
  using assms unfolding struct_ok_def by (simp_all only: atLeastAtMost_iff simp_thms Ball_def)

lemma item_cells:
  assumes "struct_ok key cs hash f H S B" "h \<in> H" "i \<in> set (h # S h)"
  shows "0 < i" "i < f" "i \<le> LOG_INDEX_MEM_TBL_SEG_NUM"
proof -
  have "i \<in> {1..<f}" using struct_okD(6) [OF assms(1)] assms(2,3) by blast
  then show "0 < i" "i < f" "i \<le> LOG_INDEX_MEM_TBL_SEG_NUM" using struct_okD(4) [OF assms(1)] by auto
qed

lemma item_okD:
  assumes "item_ok cs h ss"
  shows "is_head (cell_at cs h)" "ih_head_seg (hd_of (cell_at cs h)) = h" "ih_tail_seg (hd_of (cell_at cs h)) = last (h # ss)"
    "length (ih_suffix_lsn (hd_of (cell_at cs h))) = LOG_INDEX_ITEM_HEAD_LSN_NUM"
    "0 < ih_number (hd_of (cell_at cs h))" "ih_number (hd_of (cell_at cs h)) \<le> LOG_INDEX_ITEM_HEAD_LSN_NUM"
    "ss \<noteq> [] \<Longrightarrow> ih_number (hd_of (cell_at cs h)) = LOG_INDEX_ITEM_HEAD_LSN_NUM"
    "j < length ss \<Longrightarrow> seg_ok cs h ss j"
  using assms by (auto simp: item_ok_def Let_def seg_num split: if_splits)

lemma seg_okD:
  assumes "seg_ok cs h ss j"
  shows "is_seg (cell_at cs (ss ! j))" "is_head_seg (sg_of (cell_at cs (ss ! j))) = h"
    "is_prev_seg (sg_of (cell_at cs (ss ! j))) = (h # ss) ! j"
    "length (is_suffix_lsn (sg_of (cell_at cs (ss ! j)))) = LOG_INDEX_ITEM_SEG_LSN_NUM"
    "0 < is_number (sg_of (cell_at cs (ss ! j)))" "is_number (sg_of (cell_at cs (ss ! j))) \<le> LOG_INDEX_ITEM_SEG_LSN_NUM"
    "Suc j < length ss \<Longrightarrow> is_number (sg_of (cell_at cs (ss ! j))) = LOG_INDEX_ITEM_SEG_LSN_NUM"
  using assms by (auto simp: seg_ok_def Let_def seg_num split: if_splits)

text \<open>The length of the free list, the LSNs of an item and how many come before its \<open>j\<close>-th cell.\<close>

definition item_sfx :: "log_tbl_seg list \<Rightarrow> nat list \<Rightarrow> uint32 list" where
  "item_sfx cs xs = concat (map (\<lambda>i. sfx (cell_at cs i)) xs)"

definition off :: "nat \<Rightarrow> nat" where
  "off j = (case j of 0 \<Rightarrow> 0 | Suc i \<Rightarrow> LOG_INDEX_ITEM_HEAD_LSN_NUM + LOG_INDEX_ITEM_SEG_LSN_NUM * i)"

lemma UN_fun_upd:
  assumes "h \<in> H" "F h ss = F h (S h) \<union> X"
  shows "(\<Union>g \<in> H. F g ((S(h := ss)) g)) = (\<Union>g \<in> H. F g (S g)) \<union> X"
proof -
  have "(\<Union>g \<in> H. F g (T g)) = F h (T h) \<union> (\<Union>g \<in> H - {h}. F g (T g))" for T using assms(1) by blast
  from this [of S] this [of "S(h := ss)"] assms(2) show ?thesis by (simp add: Un_ac)
qed

lemma struct_update_item:
  assumes ok: "struct_ok key cs hash f H S B" and h: "h \<in> H"
    and l: "length cs' = length cs" "f \<le> f'" "f' \<le> LOG_INDEX_MEM_TBL_SEG_NUM"
    and frame: "\<And>i. 0 < i \<Longrightarrow> i \<notin> set (h # ss) \<Longrightarrow> cell_at cs' i = cell_at cs i"
    and own: "set (h # ss) = set (h # S h) \<union> {f..<f'}" "distinct (h # ss)" "item_ok cs' h ss"
    and keep: "tag_of cs' h = tag_of cs h" "ih_next_item (hd_of (cell_at cs' h)) = ih_next_item (hd_of (cell_at cs h))"
  shows "struct_ok key cs' hash f' H (S(h := ss)) B"
proof -
  note D = struct_okD [OF ok]
  have other: "i \<notin> set (h # ss)" "0 < i" if "g \<in> H" "g \<noteq> h" "i \<in> set (g # S g)" for g i
  proof -
    show "0 < i" using item_cells(1) [OF ok that(1,3)] .
    have "i \<notin> {f..<f'}" using item_cells(2) [OF ok that(1,3)] by simp
    moreover have "i \<notin> set (h # S h)" using D(9) [OF that(1) h that(2)] that(3) by blast
    ultimately show "i \<notin> set (h # ss)" unfolding own(1) by blast
  qed
  have same: "cell_at cs' i = cell_at cs i" if "g \<in> H" "g \<noteq> h" "i \<in> set (g # S g)" for g i
    using frame other [OF that] by blast
  have head: "tag_of cs' g = tag_of cs g"
    "ih_next_item (hd_of (cell_at cs' g)) = ih_next_item (hd_of (cell_at cs g))" if "g \<in> H" for g
    using keep same [OF that, of g] by (cases "g = h", simp_all)+
  show ?thesis unfolding struct_ok_def
  proof (intro conjI ballI allI impI)
    show "length cs' = LOG_INDEX_MEM_TBL_SEG_NUM" using D(1) l(1) by simp
    show "length hash = LOG_INDEX_MEM_TBL_HASH_NUM" by (rule D(2))
    show "0 < f'" using D(3) l(2) by simp
    show "f' \<le> LOG_INDEX_MEM_TBL_SEG_NUM" by (rule l(3))
    show "cell_at cs' i = SegZero" if i: "i \<in> {f'..LOG_INDEX_MEM_TBL_SEG_NUM}" for i
    proof -
      have "i \<notin> set (h # S h)" using item_cells(2) [OF ok h, of i] i l(2) by auto
      then have "i \<notin> set (h # ss)" unfolding own(1) using i by simp
      then show ?thesis using frame [of i] D(5) [of i] D(3) i l(2) by simp
    qed
    have "(\<Union>g \<in> H. set (g # (S(h := ss)) g)) = (\<Union>g \<in> H. set (g # S g)) \<union> {f..<f'}"
      by (rule UN_fun_upd [where F = "\<lambda>g ss. set (g # ss)"]) (rule h, rule own(1))
    then show "(\<Union>g \<in> H. set (g # (S(h := ss)) g)) = {1..<f'}" using D(3,6) l(2) by auto
    show "distinct (g # (S(h := ss)) g)" if "g \<in> H" for g using own(2) D(7) [OF that] by (cases "g = h") simp_all
    show "item_ok cs' g ((S(h := ss)) g)" if "g \<in> H" for g
    proof (cases "g = h")
      case False
      have "item_ok cs' g (S g) = item_ok cs g (S g)" by (rule item_ok_cong) (rule same [OF that False])
      then show ?thesis using D(8) [OF that] False by simp
    qed (use own(3) in simp)
    show "set (g # (S(h := ss)) g) \<inter> set (g' # (S(h := ss)) g') = {}" if g: "g \<in> H" "g' \<in> H" "g \<noteq> g'" for g g'
    proof -
      have "set (h # ss) \<inter> set (x # S x) = {}" if "x \<in> H" "x \<noteq> h" for x using other(1) [OF that] by blast
      then show ?thesis using g D(9) [OF g] by (cases "g = h"; cases "g' = h") (auto simp del: set_simps simp: Int_commute)
    qed
    show "inj_on (tag_of cs') H" using D(10) head(1) inj_on_cong [of H "tag_of cs'" "tag_of cs"] by simp
    fix k assume k: "k < LOG_INDEX_MEM_TBL_HASH_NUM"
    have "g \<in> H" if "g \<in> set (B k)" for g using that D(13) [OF k] by simp
    then have "bucket cs' (hash ! k) (B k) = bucket cs (hash ! k) (B k)" by (intro bucket_cong head(2))
    then show "bucket cs' (hash ! k) (B k)" using D(11) [OF k] by simp
    show "distinct (B k)" by (rule D(12) [OF k])
    show "set (B k) = {h \<in> H. key (tag_of cs' h) = k}" using D(13) [OF k] head(1) by auto
  qed
qed

lemma struct_new_item:
  assumes ok: "struct_ok key cs hash f H S B" and f: "f < LOG_INDEX_MEM_TBL_SEG_NUM"
    and new: "\<And>h. h \<in> H \<Longrightarrow> tag_of cs h \<noteq> ih_tag item"
    and k: "key (ih_tag item) = k" "k < LOG_INDEX_MEM_TBL_HASH_NUM"
    and item: "item_ok (cell_put cs f (ItemHead item)) f []" "ih_next_item item = hash ! k"
  shows "struct_ok key (cell_put cs f (ItemHead item)) (hash[k := f]) (Suc f) (insert f H) (S(f := [])) (B(k := f # B k))"
    (is "struct_ok _ ?cs _ _ _ _ _")
proof -
  note D = struct_okD [OF ok]
  have put: "cell_at ?cs i = (if i = f then ItemHead item else cell_at cs i)" if "0 < i" for i
    using cell_at_put [of i f cs] that D(1,3,4) by simp
  have old: "cell_at ?cs i = cell_at cs i" "i \<noteq> f" if "h \<in> H" "i \<in> set (h # S h)" for h i
    using item_cells [OF ok that] put [of i] by simp_all
  have fH: "f \<notin> H" using old(2) [of f f] by auto
  have oldh: "cell_at ?cs h = cell_at cs h" "h \<noteq> f" if "h \<in> H" for h using old [OF that, of h] by simp_all
  have cf: "cell_at ?cs f = ItemHead item" using put [of f] D(3) by simp
  have Sh: "(S(f := [])) h = S h" if "h \<in> H" for h using oldh(2) [OF that] by simp
  show ?thesis unfolding struct_ok_def
  proof (intro conjI ballI allI impI)
    show "length ?cs = LOG_INDEX_MEM_TBL_SEG_NUM" "length (hash[k := f]) = LOG_INDEX_MEM_TBL_HASH_NUM" "0 < Suc f"
      "Suc f \<le> LOG_INDEX_MEM_TBL_SEG_NUM" using D(1,2) f by simp_all
    show "cell_at ?cs i = SegZero" if i: "i \<in> {Suc f..LOG_INDEX_MEM_TBL_SEG_NUM}" for i
      using put [of i] D(5) [of i] i by simp
    have "(\<Union>h \<in> H. set (h # (S(f := [])) h)) = (\<Union>h \<in> H. set (h # S h))" using Sh by (intro SUP_cong refl) simp
    then show "(\<Union>h \<in> insert f H. set (h # (S(f := [])) h)) = {1..<Suc f}" using D(3,6) by auto
    show "distinct (h # (S(f := [])) h)" if "h \<in> insert f H" for h using that D(7) [of h] by (cases "h = f") simp_all
    show "item_ok ?cs h ((S(f := [])) h)" if "h \<in> insert f H" for h
    proof (cases "h = f")
      case False
      with that have h: "h \<in> H" by simp
      have "item_ok ?cs h (S h) = item_ok cs h (S h)" by (rule item_ok_cong) (rule old(1) [OF h])
      then show ?thesis using D(8) [OF h] False by simp
    qed (use item(1) in simp)
    show "set (h # (S(f := [])) h) \<inter> set (g # (S(f := [])) g) = {}"
      if "h \<in> insert f H" "g \<in> insert f H" "h \<noteq> g" for h g
    proof -
      have "f \<notin> set (x # S x)" if "x \<in> H" for x using old(2) [OF that] by blast
      then show ?thesis using that D(9) [of h g] by (cases "h = f"; cases "g = f") (simp_all add: Int_commute)
    qed
    have "inj_on (tag_of ?cs) H" using D(10) oldh inj_on_cong [of H "tag_of ?cs" "tag_of cs"] by simp
    moreover have "tag_of ?cs f \<notin> tag_of ?cs ` (H - {f})"
    proof
      assume "tag_of ?cs f \<in> tag_of ?cs ` (H - {f})"
      then obtain h where h: "h \<in> H" and e: "tag_of ?cs f = tag_of ?cs h" by blast
      show False using new [OF h] e oldh(1) [OF h] cf by simp
    qed
    ultimately show "inj_on (tag_of ?cs) (insert f H)" by simp
    fix j assume j: "j < LOG_INDEX_MEM_TBL_HASH_NUM"
    have sub: "g \<in> H" if "g \<in> set (B j)" for g using that D(13) [OF j] by simp
    then have b: "bucket ?cs (hash ! j) (B j)" using D(11) [OF j] bucket_cong [of "B j" ?cs cs "hash ! j"] oldh(1) by simp
    show "bucket ?cs (hash[k := f] ! j) ((B(k := f # B k)) j)" using b cf item(2) D(2,3) j by (cases "j = k") simp_all
    show "distinct ((B(k := f # B k)) j)" using D(12) [OF j] sub fH by (cases "j = k") auto
    show "set ((B(k := f # B k)) j) = {h \<in> insert f H. key (tag_of ?cs h) = j}"
      using D(13) [OF j] oldh(1) cf k(1) by (cases "j = k") auto
  qed
qed

section \<open>Adding an LSN to an item\<close>

fun append_cell :: "log_tbl_seg \<Rightarrow> uint32 \<Rightarrow> log_tbl_seg" where
  "append_cell SegZero x = SegZero"
| "append_cell (ItemHead i) x =
     ItemHead (i\<lparr>ih_suffix_lsn := (ih_suffix_lsn i)[ih_number i := x], ih_number := ih_number i + 1\<rparr>)"
| "append_cell (ItemSeg g) x =
     ItemSeg (g\<lparr>is_suffix_lsn := (is_suffix_lsn g)[is_number g := x], is_number := is_number g + 1\<rparr>)"

text \<open>Whether the last cell of an item has no room.\<close>

definition tail_full :: "log_tbl_seg list \<Rightarrow> nat \<Rightarrow> nat list \<Rightarrow> bool" where
  "tail_full cs h ss \<longleftrightarrow>
     (if ss = [] then ih_number (hd_of (cell_at cs h)) = LOG_INDEX_ITEM_HEAD_LSN_NUM
      else is_number (sg_of (cell_at cs (last ss))) = LOG_INDEX_ITEM_SEG_LSN_NUM)"

lemma last_seg_ok:
  assumes "item_ok cs h ss" "ss \<noteq> []"
  shows "seg_ok cs h ss (length ss - 1)" "ss ! (length ss - 1) = last ss"
  using item_okD(8) [OF assms(1), of "length ss - 1"] assms(2) by (simp_all add: last_conv_nth)

lemma distinct_last: "distinct ss \<Longrightarrow> j < length ss \<Longrightarrow> ss ! j = last ss \<longleftrightarrow> Suc j = length ss"
  using nth_eq_iff_index_eq [of ss j "length ss - 1"] by (cases "ss = []") (auto simp: last_conv_nth)

lemma item_ok_append:
  assumes ok: "item_ok cs h ss" and d: "distinct (h # ss)" and full: "\<not> tail_full cs h ss"
    and b: "\<And>i. i \<in> set (h # ss) \<Longrightarrow> 0 < i \<and> i \<le> length cs"
  shows "item_ok (cell_put cs (last (h # ss)) (append_cell (cell_at cs (last (h # ss))) x)) h ss"
    (is "item_ok ?cs h ss")
proof -
  let ?t = "last (h # ss)"
  have t: "?t \<in> set (h # ss)" by (rule last_in_set) simp
  have put: "cell_at ?cs i = (if i = ?t then append_cell (cell_at cs ?t) x else cell_at cs i)" if "i \<in> set (h # ss)" for i
    by (rule cell_at_put) (use b [OF that] b [OF t] in simp_all)
  show ?thesis
  proof (cases "ss = []")
    case True
    then show ?thesis using ok full put [of h] is_headD [OF item_okD(1) [OF ok]]
      by (cases "cell_at cs h") (auto simp: item_ok_def tail_full_def)
  next
    case False
    then have ht: "h \<noteq> ?t" using d by (metis distinct.simps(2) last.simps last_in_set)
    have hd: "cell_at ?cs h = cell_at cs h" using put [of h] ht by simp
    have "seg_ok ?cs h ss j" if j: "j < length ss" for j
    proof (cases "Suc j = length ss")
      case True
      then have "j = length ss - 1" by simp
      then have jt: "ss ! j = ?t" using False by (simp add: last_conv_nth)
      have c: "cell_at ?cs (ss ! j) = append_cell (cell_at cs (ss ! j)) x" using put [of "ss ! j"] jt j by simp
      note g = item_okD(8) [OF ok j]
      have "is_number (sg_of (cell_at cs (ss ! j))) \<noteq> LOG_INDEX_ITEM_SEG_LSN_NUM" using full False jt by (simp add: tail_full_def)
      then show ?thesis using g is_segD [OF seg_okD(1) [OF g]] True unfolding seg_ok_def c
        by (cases "cell_at cs (ss ! j)") (simp_all add: Let_def)
    next
      case nl: False
      have "ss ! j \<noteq> ?t" using distinct_last [of ss j] d j nl False by simp
      then have "cell_at ?cs (ss ! j) = cell_at cs (ss ! j)" using put [of "ss ! j"] j by simp
      then show ?thesis using item_okD(8) [OF ok j] by (simp add: seg_ok_def)
    qed
    then show ?thesis using ok unfolding item_ok_def hd by simp
  qed
qed

section \<open>Adding a segment to an item\<close>

definition new_seg :: "nat \<Rightarrow> nat \<Rightarrow> uint32 \<Rightarrow> log_item_seg" where
  "new_seg h t x = \<lparr>is_head_seg = h, is_next_seg = 0, is_prev_seg = t, is_number = 1,
     is_suffix_lsn = (replicate LOG_INDEX_ITEM_SEG_LSN_NUM 0)[0 := x]\<rparr>"

definition head_link :: "log_item_head \<Rightarrow> nat list \<Rightarrow> nat \<Rightarrow> log_item_head" where
  "head_link i ss f = (if ss = [] then i\<lparr>ih_next_seg := f, ih_tail_seg := f\<rparr> else i\<lparr>ih_tail_seg := f\<rparr>)"

definition new_seg_cells :: "log_tbl_seg list \<Rightarrow> nat \<Rightarrow> nat list \<Rightarrow> nat \<Rightarrow> uint32 \<Rightarrow> log_tbl_seg list" where
  "new_seg_cells cs h ss f x =
     (let t = last (h # ss);
          cs1 = (if ss = [] then cs else cell_put cs t (ItemSeg (sg_of (cell_at cs t)\<lparr>is_next_seg := f\<rparr>)))
      in cell_put (cell_put cs1 h (ItemHead (head_link (hd_of (cell_at cs h)) ss f))) f (ItemSeg (new_seg h t x)))"

lemma length_new_seg_cells [simp]: "length (new_seg_cells cs h ss f x) = length cs"
  by (simp add: new_seg_cells_def Let_def)

lemma new_seg_at:
  assumes "\<And>i. i \<in> set (h # ss) \<Longrightarrow> 0 < i \<and> i \<le> length cs" "0 < f" "f \<le> length cs" "0 < i"
  shows "cell_at (new_seg_cells cs h ss f x) i =
     (if i = f then ItemSeg (new_seg h (last (h # ss)) x)
      else if i = h then ItemHead (head_link (hd_of (cell_at cs h)) ss f)
      else if i = last (h # ss) then ItemSeg (sg_of (cell_at cs i)\<lparr>is_next_seg := f\<rparr>) else cell_at cs i)"
  using assms(1) [of h] assms(1) [of "last (h # ss)"] assms(2-4)
  by (cases "ss = []") (simp_all add: new_seg_cells_def Let_def cell_at_put)

lemma item_ok_new_seg:
  assumes ok: "item_ok cs h ss" and d: "distinct (h # ss @ [f])" and full: "tail_full cs h ss"
    and b: "\<And>i. i \<in> set (h # ss) \<Longrightarrow> 0 < i \<and> i \<le> length cs" "0 < f" "f \<le> length cs"
  shows "item_ok (new_seg_cells cs h ss f x) h (ss @ [f])" (is "item_ok ?cs h _")
proof -
  let ?t = "last (h # ss)"
  note at = new_seg_at [OF b, of h ss]
  have hd: "cell_at ?cs h = ItemHead (head_link (hd_of (cell_at cs h)) ss f)" using at [of h] b(1) [of h] d by simp
  have "seg_ok ?cs h (ss @ [f]) j" if j: "j < length (ss @ [f])" for j
  proof (cases "j < length ss")
    case False
    then have jl: "j = length ss" using j by simp
    have "cell_at ?cs ((ss @ [f]) ! j) = ItemSeg (new_seg h ?t x)" using at [of f] b(2) jl by simp
    moreover have "(h # ss @ [f]) ! j = ?t" unfolding jl by (cases ss rule: rev_cases) (simp_all add: nth_append)
    ultimately show ?thesis using jl by (simp add: seg_ok_def new_seg_def seg_num)
  next
    case True
    note g = item_okD(8) [OF ok True]
    have sj: "ss ! j \<in> set ss" using True by simp
    then have nh: "ss ! j \<noteq> h" "ss ! j \<noteq> f" using d by auto
    have pos: "0 < ss ! j" using b(1) [of "ss ! j"] sj by simp
    have ne: "ss \<noteq> []" using True by auto
    have app: "(ss @ [f]) ! j = ss ! j" "(h # ss @ [f]) ! j = (h # ss) ! j" using True by (simp_all add: nth_append nth_Cons split: nat.splits)
    show ?thesis
    proof (cases "Suc j = length ss")
      case l: True
      then have "j = length ss - 1" by simp
      then have jt: "ss ! j = last ss" using ne by (simp add: last_conv_nth)
      have "cell_at ?cs (ss ! j) = ItemSeg (sg_of (cell_at cs (ss ! j))\<lparr>is_next_seg := f\<rparr>)"
        using at [of "ss ! j"] nh pos jt ne by simp
      moreover have "is_number (sg_of (cell_at cs (ss ! j))) = LOG_INDEX_ITEM_SEG_LSN_NUM"
        using full ne jt by (simp add: tail_full_def)
      ultimately show ?thesis using g l unfolding seg_ok_def app by (simp add: Let_def)
    next
      case nl: False
      have "ss ! j \<noteq> last ss" using distinct_last [of ss j] d True nl by simp
      then have "cell_at ?cs (ss ! j) = cell_at cs (ss ! j)" using at [of "ss ! j"] nh pos ne by simp
      then show ?thesis using g True nl unfolding seg_ok_def app by (simp add: Let_def nth_append)
    qed
  qed
  then show ?thesis using ok full unfolding item_ok_def hd
    by (auto simp: head_link_def Let_def tail_full_def split: list.splits)
qed

section \<open>The LSNs of an item\<close>

lemma sfx_len:
  assumes "item_ok cs h ss"
  shows "length (sfx (cell_at cs h)) = ih_number (hd_of (cell_at cs h))"
    "j < length ss \<Longrightarrow> length (sfx (cell_at cs (ss ! j))) = is_number (sg_of (cell_at cs (ss ! j)))"
proof -
  show "length (sfx (cell_at cs h)) = ih_number (hd_of (cell_at cs h))"
    using item_okD [OF assms] is_headD [OF item_okD(1) [OF assms]] by (cases "cell_at cs h") simp_all
  show "length (sfx (cell_at cs (ss ! j))) = is_number (sg_of (cell_at cs (ss ! j)))" if "j < length ss"
    using seg_okD [OF item_okD(8) [OF assms that]] by (cases "cell_at cs (ss ! j)") simp_all
qed

lemma sfx_append:
  assumes ok: "item_ok cs h ss" "\<not> tail_full cs h ss" and t: "t = last (h # ss)"
  shows "sfx (append_cell (cell_at cs t) x) = sfx (cell_at cs t) @ [x]"
proof (cases "ss = []")
  case True
  then show ?thesis using item_okD [OF ok(1)] ok(2) t is_headD [OF item_okD(1) [OF ok(1)]]
    by (cases "cell_at cs h") (simp_all add: tail_full_def take_Suc_conv_app_nth)
next
  case False
  note g = last_seg_ok [OF ok(1) False]
  show ?thesis using seg_okD [OF g(1)] ok(2) t False unfolding g(2)
    by (cases "cell_at cs t") (simp_all add: tail_full_def take_Suc_conv_app_nth)
qed

lemma item_sfx_simps [simp]:
  "item_sfx cs [] = []" "item_sfx cs (i # xs) = sfx (cell_at cs i) @ item_sfx cs xs"
  "item_sfx cs (xs @ ys) = item_sfx cs xs @ item_sfx cs ys"
  by (simp_all add: item_sfx_def)

lemma item_sfx_cong: "(\<And>i. i \<in> set xs \<Longrightarrow> sfx (cell_at cs' i) = sfx (cell_at cs i)) \<Longrightarrow> item_sfx cs' xs = item_sfx cs xs"
  by (simp add: item_sfx_def cong: map_cong)

lemma length_item_sfx_take:
  assumes "item_ok cs h ss" "j \<le> length ss"
  shows "length (item_sfx cs (take j (h # ss))) = off j"
  using assms(2)
proof (induction j)
  case 0 then show ?case by (simp add: off_def)
next
  case (Suc j)
  have "length (item_sfx cs (take (Suc j) (h # ss))) = off j + length (sfx (cell_at cs ((h # ss) ! j)))"
    using Suc by (simp add: take_Suc_conv_app_nth del: take_Suc_Cons)
  moreover have "length (sfx (cell_at cs ((h # ss) ! j))) =
      (if j = 0 then LOG_INDEX_ITEM_HEAD_LSN_NUM else LOG_INDEX_ITEM_SEG_LSN_NUM)"
  proof (cases j)
    case 0 then show ?thesis using sfx_len(1) [OF assms(1)] item_okD(7) [OF assms(1)] \<open>Suc j \<le> length ss\<close> by (cases ss) simp_all
  next
    case (Suc i)
    then show ?thesis using sfx_len(2) [OF assms(1), of i] seg_okD(7) [OF item_okD(8) [OF assms(1), of i]] \<open>Suc j \<le> length ss\<close> by simp
  qed
  ultimately show ?case by (cases j) (simp_all add: off_def)
qed

lemma item_sfx_nth:
  assumes "item_ok cs h ss" "j < length (h # ss)" "i < length (sfx (cell_at cs ((h # ss) ! j)))"
  shows "off j + i < length (item_sfx cs (h # ss))" "item_sfx cs (h # ss) ! (off j + i) = sfx (cell_at cs ((h # ss) ! j)) ! i"
proof -
  have "h # ss = take j (h # ss) @ (h # ss) ! j # drop (Suc j) (h # ss)" using assms(2) by (rule id_take_nth_drop)
  then have e: "item_sfx cs (h # ss) = item_sfx cs (take j (h # ss)) @ sfx (cell_at cs ((h # ss) ! j)) @ item_sfx cs (drop (Suc j) (h # ss))"
    by (metis item_sfx_simps(2,3))
  have "length (item_sfx cs (take j (h # ss))) = off j" using length_item_sfx_take [OF assms(1)] assms(2) by simp
  then show "off j + i < length (item_sfx cs (h # ss))" "item_sfx cs (h # ss) ! (off j + i) = sfx (cell_at cs ((h # ss) ! j)) ! i"
    unfolding e using assms(3) by (simp_all add: nth_append)
qed

end
