(* ===== verification/Logindex_Log.thy ===== *)
theory Logindex_Log
  imports Logindex_Items
begin

text \<open>
  A logindex table as the list of the LSNs that were added to it. The operations that add an
  LSN append to this list, and what the table returns for a page or for a position in the order
  of insertion is what the list has there.
\<close>

section \<open>Looking up a page\<close>

lemma exists_page_loop_bucket:
  assumes "length (td_segment t) = LOG_INDEX_MEM_TBL_SEG_NUM"
    and "bucket (td_segment t) i xs" "length xs < n"
    and "\<And>h. h \<in> set xs \<Longrightarrow> h \<le> LOG_INDEX_MEM_TBL_SEG_NUM \<and> is_head (cell_at (td_segment t) h)"
  shows "exists_page_loop n t tag i =
    Inr (case find (\<lambda>h. tag_of (td_segment t) h = tag) xs of None \<Rightarrow> 0 | Some h \<Rightarrow> h)"
  using assms(2-4)
proof (induction n arbitrary: i xs)
  case (Suc n)
  show ?case
  proof (cases xs)
    case Nil then show ?thesis using Suc.prems by (simp add: log_index_item_head_def)
  next
    case (Cons x ys)
    with Suc.prems have x: "i = x" "0 < x" "x \<le> LOG_INDEX_MEM_TBL_SEG_NUM" "is_head (cell_at (td_segment t) x)" by simp_all
    have "exists_page_loop n t tag (ih_next_item (hd_of (cell_at (td_segment t) x))) =
        Inr (case find (\<lambda>h. tag_of (td_segment t) h = tag) ys of None \<Rightarrow> 0 | Some h \<Rightarrow> h)"
      by (rule Suc.IH) (use Suc.prems Cons in simp_all)
    then show ?thesis using get_head_at(1) [OF assms(1) x(2-4)] x(1) Cons by simp
  qed
qed simp

lemma bucket_length:
  assumes ok: "struct_ok key cs hash f H S B" and k: "k < LOG_INDEX_MEM_TBL_HASH_NUM"
  shows "length (B k) < Suc LOG_INDEX_MEM_TBL_SEG_NUM"
proof -
  note D = struct_okD [OF ok]
  have "set (B k) \<subseteq> {1..<f}"
  proof
    fix h assume "h \<in> set (B k)"
    then have "h \<in> H" using D(13) [OF k] by simp
    then show "h \<in> {1..<f}" using item_cells [OF ok, of h h] by simp
  qed
  from card_mono [OF _ this] have "length (B k) \<le> f - 1" using distinct_card [OF D(12) [OF k]] by simp
  then show ?thesis using D(3,4) by linarith
qed

lemma exists_page_struct:
  assumes ok: "struct_ok key (td_segment t) (td_hash t) f H S B" and k: "key tag < LOG_INDEX_MEM_TBL_HASH_NUM"
  shows "h \<in> H \<Longrightarrow> tag_of (td_segment t) h = tag \<Longrightarrow> log_index_mem_tbl_exists_page tag t (key tag) = Inr h"
    "\<forall>h \<in> H. tag_of (td_segment t) h \<noteq> tag \<Longrightarrow> log_index_mem_tbl_exists_page tag t (key tag) = Inr 0"
proof -
  note D = struct_okD [OF ok]
  let ?P = "\<lambda>h. tag_of (td_segment t) h = tag"
  note len = bucket_length [OF ok k]
  have "exists_page_loop (Suc LOG_INDEX_MEM_TBL_SEG_NUM) t tag (td_hash t ! key tag) =
      Inr (case find ?P (B (key tag)) of None \<Rightarrow> 0 | Some h \<Rightarrow> h)"
  proof (rule exists_page_loop_bucket [OF D(1) D(11) [OF k] len])
    fix h assume "h \<in> set (B (key tag))"
    then have "h \<in> H" using D(13) [OF k] by simp
    then show "h \<le> LOG_INDEX_MEM_TBL_SEG_NUM \<and> is_head (cell_at (td_segment t) h)"
      using item_cells(3) [OF ok, of h h] item_okD(1) [OF D(8)] by simp
  qed
  then have e: "log_index_mem_tbl_exists_page tag t (key tag) = Inr (case find ?P (B (key tag)) of None \<Rightarrow> 0 | Some h \<Rightarrow> h)"
    using D(2) k by (simp add: log_index_mem_tbl_exists_page_def)
  show "log_index_mem_tbl_exists_page tag t (key tag) = Inr h" if h: "h \<in> H" "?P h"
  proof -
    have "h \<in> set (B (key tag))" using D(13) [OF k] h by simp
    then obtain g where g: "find ?P (B (key tag)) = Some g" using h(2) find_None_iff [of ?P] by (cases "find ?P (B (key tag))") auto
    from find_SomeD [OF g] have "g \<in> H" "?P g" using D(13) [OF k] by simp_all
    then have "g = h" using inj_onD [OF D(10), of g h] h by simp
    then show ?thesis using e g by simp
  qed
  show "log_index_mem_tbl_exists_page tag t (key tag) = Inr 0" if "\<forall>h \<in> H. \<not> ?P h"
  proof -
    have "find ?P (B (key tag)) = None" using that D(13) [OF k] by (auto simp: find_None_iff)
    then show ?thesis using e by simp
  qed
qed

section \<open>The operations on the structure\<close>

lemma mem_seg_full_struct:
  assumes "struct_ok key (td_segment t) (td_hash t) f H S B" "h \<in> H"
  shows "log_index_mem_seg_full t h = Inr (tail_full (td_segment t) h (S h))"
proof -
  note D = struct_okD [OF assms(1)] and ok = struct_okD(8) [OF assms]
  note c = item_cells [OF assms]
  have h: "get_head t h = Inr (hd_of (cell_at (td_segment t) h))"
    using get_head_at(2) [OF D(1) c(1,3) item_okD(1) [OF ok]] by simp
  show ?thesis
  proof (cases "S h = []")
    case True
    then show ?thesis using h item_okD(3) [OF ok] by (simp add: log_index_mem_seg_full_def tail_full_def)
  next
    case False
    note g = last_seg_ok [OF ok False]
    have t: "last (S h) \<in> set (h # S h)" using False by simp
    have "last (S h) \<noteq> h" using D(7) [OF assms(2)] last_in_set [OF False] by auto
    then show ?thesis using h item_okD(3) [OF ok] False
        get_seg_at(1) [OF D(1) c(1,3) [OF t] seg_okD(1) [OF g(1), unfolded g(2)]]
      by (simp add: log_index_mem_seg_full_def tail_full_def)
  qed
qed

lemma append_lsn_struct:
  assumes "struct_ok key (td_segment t) (td_hash t) f H S B" "h \<in> H" "\<not> tail_full (td_segment t) h (S h)"
  defines "p \<equiv> last (h # S h)"
  shows "log_index_append_lsn t h info = Inr (length (sfx (cell_at (td_segment t) p)),
      t\<lparr>td_segment := cell_put (td_segment t) p (append_cell (cell_at (td_segment t) p) (LOG_INDEX_SUFFIX_LSN (li_lsn info)))\<rparr>)"
proof -
  note D = struct_okD [OF assms(1)] and ok = struct_okD(8) [OF assms(1,2)]
  note c = item_cells [OF assms(1,2)]
  have ch: "0 < h" "h \<le> LOG_INDEX_MEM_TBL_SEG_NUM" using c [of h] by simp_all
  have h: "get_head t h = Inr (hd_of (cell_at (td_segment t) h))"
    using get_head_at(2) [OF D(1) c(1,3) item_okD(1) [OF ok]] by simp
  show ?thesis
  proof (cases "S h = []")
    case True
    have "cell_at (td_segment t) h = ItemHead (hd_of (cell_at (td_segment t) h))" by (rule is_headD [OF item_okD(1) [OF ok]])
    then show ?thesis using h item_okD(3-6) [OF ok] sfx_len(1) [OF ok] assms(3) True get_cell_at(3) [OF D(1) ch]
      by (cases "cell_at (td_segment t) h") (simp_all add: log_index_append_lsn_def tail_full_def p_def Let_def)
  next
    case False
    note g = last_seg_ok [OF ok False]
    note sg = seg_okD [OF g(1), unfolded g(2)]
    have t: "last (S h) \<in> set (h # S h)" using False by simp
    have "last (S h) \<noteq> h" using D(7) [OF assms(2)] last_in_set [OF False] by auto
    moreover have "length (sfx (cell_at (td_segment t) (last (S h)))) = is_number (sg_of (cell_at (td_segment t) (last (S h))))"
      using sfx_len(2) [OF ok, of "length (S h) - 1", unfolded g(2)] False by simp
    ultimately show ?thesis using h item_okD(3) [OF ok] False assms(3) sg(4-6)
        get_seg_at(1) [OF D(1) c(1,3) [OF t] sg(1)] get_cell_at(3) [OF D(1) c(1,3) [OF t]] is_segD [OF sg(1)]
      by (cases "cell_at (td_segment t) (last (S h))") (simp_all add: log_index_append_lsn_def tail_full_def p_def Let_def)
  qed
qed

lemma insert_new_seg_struct:
  assumes "struct_ok key (td_segment t) (td_hash t) f H S B" "h \<in> H" "f < LOG_INDEX_MEM_TBL_SEG_NUM"
  shows "log_index_insert_new_seg t h f info =
    Inr (t\<lparr>td_segment := new_seg_cells (td_segment t) h (S h) f (LOG_INDEX_SUFFIX_LSN (li_lsn info))\<rparr>)"
proof -
  note D = struct_okD [OF assms(1)] and ok = struct_okD(8) [OF assms(1,2)]
  note c = item_cells [OF assms(1,2)]
  have h: "get_head t h = Inr (hd_of (cell_at (td_segment t) h))"
    using get_head_at(2) [OF D(1) c(1,3) item_okD(1) [OF ok]] by simp
  have f: "get_seg t f = Inr item_seg_zero" using get_zero_at(2) [OF D(1,3) D(4) D(5)] D(4) by simp
  have put: "put_cell u i x = Inr (u\<lparr>td_segment := cell_put (td_segment u) i x\<rparr>)"
    if "length (td_segment u) = LOG_INDEX_MEM_TBL_SEG_NUM" "i = f \<or> i \<in> set (h # S h)" for u i x
    using get_cell_at(3) [OF that(1)] c [of i] D(3,4) that(2) by blast
  have len: "length (is_suffix_lsn item_seg_zero) = LOG_INDEX_ITEM_SEG_LSN_NUM" by (simp add: item_seg_zero_def)
  show ?thesis
  proof (cases "S h = []")
    case True
    then show ?thesis using h f item_okD(3) [OF ok] len D(1)
      by (simp add: log_index_insert_new_seg_def put new_seg_cells_def head_link_def seg_num Let_def item_seg_zero_def new_seg_def)
  next
    case False
    note g = last_seg_ok [OF ok False]
    note sg = seg_okD [OF g(1), unfolded g(2)]
    have t: "last (S h) \<in> set (h # S h)" using False by simp
    have "last (S h) \<noteq> h" using D(7) [OF assms(2)] last_in_set [OF False] by auto
    then show ?thesis using h f item_okD(3) [OF ok] len D(1) False
        get_seg_at(2) [OF D(1) c(1,3) [OF t] sg(1)] get_cell_at(1) [OF D(1) c(1,3) [OF t]]
      by (simp add: log_index_insert_new_seg_def put new_seg_cells_def head_link_def seg_num Let_def item_seg_zero_def new_seg_def)
  qed
qed

definition new_head :: "nat \<Rightarrow> nat \<Rightarrow> log_index_lsn \<Rightarrow> log_item_head" where
  "new_head f next info = \<lparr>ih_head_seg = f, ih_next_item = next, ih_next_seg = 0, ih_tail_seg = f, ih_tag = li_tag info,
     ih_number = 1, ih_prev_page_lsn = li_prev_lsn info,
     ih_suffix_lsn = (replicate LOG_INDEX_ITEM_HEAD_LSN_NUM 0)[0 := LOG_INDEX_SUFFIX_LSN (li_lsn info)]\<rparr>"

lemma insert_new_item_struct:
  assumes "struct_ok key (td_segment t) (td_hash t) f H S B" "k < LOG_INDEX_MEM_TBL_HASH_NUM"
  shows "log_index_insert_new_item info t k f =
    Inr (t\<lparr>td_segment := cell_put (td_segment t) f (ItemHead (new_head f (td_hash t ! k) info)),
           td_hash := (td_hash t)[k := f]\<rparr>)"
proof -
  note D = struct_okD [OF assms(1)]
  have "get_head t f = Inr item_head_zero" using get_zero_at(1) [OF D(1,3) D(4) D(5)] D(4) by simp
  then show ?thesis using D(2) assms(2) get_cell_at(3) [OF D(1,3,4)]
    by (simp add: log_index_insert_new_item_def Let_def new_head_def item_head_zero_def seg_num)
qed

section \<open>The content of a table\<close>

text \<open>The records of a page in a list of records.\<close>

definition page_log :: "BufferTag \<Rightarrow> log_index_lsn list \<Rightarrow> log_index_lsn list" where
  "page_log tag A = filter (\<lambda>a. li_tag a = tag) A"

text \<open>An entry of the order array names the place of the LSN number \<open>k\<close>.\<close>

definition order_ok ::
  "log_tbl_seg list \<Rightarrow> nat set \<Rightarrow> (nat \<Rightarrow> nat list) \<Rightarrow> log_index_lsn list \<Rightarrow> uint16 \<Rightarrow> nat \<Rightarrow> bool" where
  "order_ok cs H S A w k \<longleftrightarrow>
     (\<exists>h \<in> H. \<exists>j < length (h # S h). tag_of cs h = li_tag (A ! k) \<and> LOG_INDEX_SEG_ORDER w = (h # S h) ! j
       \<and> LOG_INDEX_ID_ORDER w < length (sfx (cell_at cs ((h # S h) ! j)))
       \<and> off j + LOG_INDEX_ID_ORDER w = length (page_log (li_tag (A ! k)) (take k A)))"

definition content :: "log_idx_table_data \<Rightarrow> nat set \<Rightarrow> (nat \<Rightarrow> nat list) \<Rightarrow> log_index_lsn list \<Rightarrow> bool" where
  "content t H S A \<longleftrightarrow>
     td_last_order t = length A \<and> length (td_idx_order t) = LOG_INDEX_MAX_ORDER_NUM
     \<and> (\<forall>a \<in> set A. LOG_INDEX_SAME_TABLE_LSN_PREFIX t (li_lsn a) \<and> (\<exists>h \<in> H. tag_of (td_segment t) h = li_tag a))
     \<and> (\<forall>h \<in> H. item_sfx (td_segment t) (h # S h) =
            map (\<lambda>a. LOG_INDEX_SUFFIX_LSN (li_lsn a)) (page_log (tag_of (td_segment t) h) A)
          \<and> ih_prev_page_lsn (hd_of (cell_at (td_segment t) h)) = li_prev_lsn (hd (page_log (tag_of (td_segment t) h) A)))
     \<and> (\<forall>k < length A. order_ok (td_segment t) H S A (td_idx_order t ! k) k)"

lemma contentD:
  assumes "content t H S A"
  shows "td_last_order t = length A" "length (td_idx_order t) = LOG_INDEX_MAX_ORDER_NUM"
    "a \<in> set A \<Longrightarrow> LOG_INDEX_SAME_TABLE_LSN_PREFIX t (li_lsn a)"
    "a \<in> set A \<Longrightarrow> \<exists>h \<in> H. tag_of (td_segment t) h = li_tag a"
    "h \<in> H \<Longrightarrow> item_sfx (td_segment t) (h # S h) =
       map (\<lambda>a. LOG_INDEX_SUFFIX_LSN (li_lsn a)) (page_log (tag_of (td_segment t) h) A)"
    "h \<in> H \<Longrightarrow> ih_prev_page_lsn (hd_of (cell_at (td_segment t) h)) = li_prev_lsn (hd (page_log (tag_of (td_segment t) h) A))"
    "k < length A \<Longrightarrow> order_ok (td_segment t) H S A (td_idx_order t ! k) k"
  using assms unfolding content_def by blast+

lemma length_page_log: "finite T \<Longrightarrow> li_tag ` set A \<subseteq> T \<Longrightarrow> length A = (\<Sum>x \<in> T. length (page_log x A))"
proof (induction A)
  case (Cons a A)
  have "(\<Sum>x \<in> T. length (page_log x (a # A))) = (\<Sum>x \<in> T. (if x = li_tag a then 1 else 0) + length (page_log x A))"
    by (rule sum.cong) (simp_all add: page_log_def)
  also have "\<dots> = 1 + length A" using Cons by (simp add: sum.distrib)
  finally show ?case by simp
qed (simp add: page_log_def)

text \<open>The order array has room for every LSN that the cells can hold.\<close>

lemma log_content_length:
  assumes ok: "struct_ok key (td_segment t) (td_hash t) f H S B" and c: "content t H S A"
  shows "length A \<le> LOG_INDEX_ITEM_SEG_LSN_NUM * (f - 1)"
proof -
  note D = struct_okD [OF ok] and C = contentD [OF c]
  let ?cs = "td_segment t"
  have "H \<subseteq> {1..<f}" unfolding D(6) [symmetric] by auto
  then have fin: "finite H" by (rule finite_subset) simp
  have cell: "length (sfx (cell_at ?cs i)) \<le> LOG_INDEX_ITEM_SEG_LSN_NUM" if h: "h \<in> H" and i: "i \<in> set (h # S h)" for h i
  proof (cases "i = h")
    case True then show ?thesis using sfx_len(1) [OF D(8) [OF h]] item_okD(6) [OF D(8) [OF h]] by (simp add: seg_num)
  next
    case False
    then obtain j where j: "j < length (S h)" "i = S h ! j" using i by (auto simp: in_set_conv_nth)
    show ?thesis using sfx_len(2) [OF D(8) [OF h] j(1)] seg_okD(6) [OF item_okD(8) [OF D(8) [OF h] j(1)]] j(2) by simp
  qed
  have item: "length (item_sfx ?cs (h # S h)) \<le> LOG_INDEX_ITEM_SEG_LSN_NUM * card (set (h # S h))" if "h \<in> H" for h
  proof -
    have "length (item_sfx ?cs xs) \<le> LOG_INDEX_ITEM_SEG_LSN_NUM * length xs" if "set xs \<subseteq> set (h # S h)" for xs
      using that by (induction xs) (use cell [OF \<open>h \<in> H\<close>] in \<open>simp_all add: add_mono\<close>)
    from this [of "h # S h"] distinct_card [OF D(7) [OF that]] show ?thesis by simp
  qed
  have u: "card (\<Union>h \<in> H. set (h # S h)) = (\<Sum>h \<in> H. card (set (h # S h)))"
    by (rule card_UN_disjoint [OF fin]) (simp, use D(9) in blast)
  have "length A = (\<Sum>x \<in> tag_of ?cs ` H. length (page_log x A))"
    by (rule length_page_log) (use fin C(4) in \<open>auto simp: image_iff eq_commute\<close>)
  also have "\<dots> = (\<Sum>h \<in> H. length (item_sfx ?cs (h # S h)))"
    using sum.reindex [OF D(10), of "\<lambda>x. length (page_log x A)"] C(5) by simp
  also have "\<dots> \<le> (\<Sum>h \<in> H. LOG_INDEX_ITEM_SEG_LSN_NUM * card (set (h # S h)))" by (rule sum_mono) (rule item)
  also have "\<dots> = LOG_INDEX_ITEM_SEG_LSN_NUM * card (\<Union>h \<in> H. set (h # S h))"
    by (simp only: u sum_distrib_left)
  finally show ?thesis unfolding D(6) by simp
qed

section \<open>Adding to the content\<close>

lemma page_log_append: "page_log tag (A @ [a]) = page_log tag A @ (if li_tag a = tag then [a] else [])"
  by (simp add: page_log_def)

lemma order_ok_mono:
  assumes "order_ok cs H S A w k" "k < length A"
    and "\<And>g. g \<in> H \<Longrightarrow> tag_of cs' g = tag_of cs g" "\<And>g. g \<in> H \<Longrightarrow> \<exists>zs. S' g = S g @ zs"
    and "\<And>g i. g \<in> H \<Longrightarrow> i \<in> set (g # S g) \<Longrightarrow> length (sfx (cell_at cs i)) \<le> length (sfx (cell_at cs' i))"
  shows "order_ok cs' (insert h H) S' (A @ [a]) w k"
proof -
  from assms(1) obtain g j where g: "g \<in> H" "j < length (g # S g)" "tag_of cs g = li_tag (A ! k)" "LOG_INDEX_SEG_ORDER w = (g # S g) ! j"
    "LOG_INDEX_ID_ORDER w < length (sfx (cell_at cs ((g # S g) ! j)))"
    "off j + LOG_INDEX_ID_ORDER w = length (page_log (li_tag (A ! k)) (take k A))"
    unfolding order_ok_def by blast
  obtain zs where "S' g = S g @ zs" using assms(4) [OF g(1)] by blast
  then have j: "j < length (g # S' g)" "(g # S' g) ! j = (g # S g) ! j" using g(2) by (auto simp: nth_append nth_Cons split: nat.splits)
  have "(g # S g) ! j \<in> set (g # S g)" using g(2) by (rule nth_mem)
  from assms(5) [OF g(1) this] g(5) have "LOG_INDEX_ID_ORDER w < length (sfx (cell_at cs' ((g # S' g) ! j)))" unfolding j(2) by simp
  moreover have "(A @ [a]) ! k = A ! k" "take k (A @ [a]) = take k A" using assms(2) by (simp_all add: nth_append)
  ultimately show ?thesis unfolding order_ok_def using g j assms(3) [OF g(1)]
    by (intro bexI [of _ g] exI [of _ j]) simp_all
qed

lemma content_page:
  assumes "struct_ok key (td_segment t) (td_hash t) f H S B" "content t H S A" "h \<in> H"
  shows "page_log (tag_of (td_segment t) h) A \<noteq> []"
proof -
  note i = struct_okD(8) [OF assms(1,3)]
  have "item_sfx (td_segment t) (h # S h) \<noteq> []" using sfx_len(1) [OF i] item_okD(5) [OF i] by auto
  then show ?thesis using contentD(5) [OF assms(2,3)] by auto
qed

lemma content_no_page:
  assumes "content t H S A" "\<And>g. g \<in> H \<Longrightarrow> tag_of (td_segment t) g \<noteq> tag"
  shows "page_log tag A = []"
proof -
  have "li_tag b \<noteq> tag" if "b \<in> set A" for b using contentD(4) [OF assms(1) that] assms(2) by auto
  then show ?thesis by (simp add: page_log_def)
qed

lemma last_order_ok:
  assumes ok: "struct_ok key cs hash f H S B" and h: "h \<in> H" "tag_of cs h = li_tag a"
    and log: "item_sfx cs (h # S h) = map g (page_log (li_tag a) (A @ [a]))"
    and p: "p = last (h # S h)" and idx: "Suc idx = length (sfx (cell_at cs p))"
  shows "order_ok cs H S (A @ [a]) (LOG_INDEX_ORDER p idx) (length A)"
proof -
  note i = struct_okD(8) [OF ok h(1)]
  let ?j = "length (S h)"
  have pj: "p = (h # S h) ! ?j" unfolding p by (cases "S h" rule: rev_cases) (simp_all add: nth_append)
  have "p < f" using item_cells(2) [OF ok h(1), of p] unfolding p by (metis last_in_set list.distinct(1))
  then have b: "p < 4096" using struct_okD(4) [OF ok] by (simp add: seg_num)
  have "item_sfx cs (take (Suc ?j) (h # S h)) = item_sfx cs (take ?j (h # S h)) @ sfx (cell_at cs p)"
    unfolding pj by (subst take_Suc_conv_app_nth) (simp, simp only: item_sfx_simps append_Nil2)
  then have "item_sfx cs (h # S h) = item_sfx cs (take ?j (h # S h)) @ sfx (cell_at cs p)" by simp
  then have o: "off ?j + idx = length (page_log (li_tag a) A)"
    using length_item_sfx_take [OF i, of ?j] idx arg_cong [OF log, of length] by (simp add: page_log_append)
  have "idx < 16"
  proof (cases "S h = []")
    case True then show ?thesis using sfx_len(1) [OF i] item_okD(6) [OF i] idx p by (simp add: seg_num)
  next
    case False
    then show ?thesis using sfx_len(2) [OF i, of "?j - 1"] seg_okD(6) [OF last_seg_ok(1) [OF i False]] last_seg_ok(2) [OF i False] idx p
      by (simp add: seg_num)
  qed
  then show ?thesis unfolding order_ok_def using o h pj idx order_roundtrip [OF b, of idx]
    by (intro bexI [of _ h] exI [of _ ?j]) simp_all
qed

lemma content_step:
  assumes ok0: "struct_ok key (td_segment t) (td_hash t) f H S B" and c: "content t H S A"
    and ok: "struct_ok key cs' hash' f' (insert h H) S' B'" and len: "length A < LOG_INDEX_MAX_ORDER_NUM"
    and pre: "LOG_INDEX_SAME_TABLE_LSN_PREFIX t (li_lsn a)" and tag: "tag_of cs' h = li_tag a"
    and keep: "\<And>g. g \<in> H \<Longrightarrow> tag_of cs' g = tag_of (td_segment t) g"
      "\<And>g. g \<in> H \<Longrightarrow> ih_prev_page_lsn (hd_of (cell_at cs' g)) = ih_prev_page_lsn (hd_of (cell_at (td_segment t) g))"
    and S: "\<And>g. g \<in> H \<Longrightarrow> \<exists>zs. S' g = S g @ zs"
      "\<And>g i. g \<in> H \<Longrightarrow> i \<in> set (g # S g) \<Longrightarrow> length (sfx (cell_at (td_segment t) i)) \<le> length (sfx (cell_at cs' i))"
    and frame: "\<And>g. g \<in> H \<Longrightarrow> g \<noteq> h \<Longrightarrow> item_sfx cs' (g # S' g) = item_sfx (td_segment t) (g # S g)"
    and old: "h \<in> H \<Longrightarrow> item_sfx cs' (h # S' h) = item_sfx (td_segment t) (h # S h) @ [LOG_INDEX_SUFFIX_LSN (li_lsn a)]"
    and new: "h \<notin> H \<Longrightarrow> item_sfx cs' (h # S' h) = [LOG_INDEX_SUFFIX_LSN (li_lsn a)]
        \<and> ih_prev_page_lsn (hd_of (cell_at cs' h)) = li_prev_lsn a"
    and p: "p = last (h # S' h)" and idx: "Suc idx = length (sfx (cell_at cs' p))"
  shows "content (t\<lparr>td_segment := cs', td_hash := hash', td_idx_order := (td_idx_order t)[length A := LOG_INDEX_ORDER p idx],
      td_last_order := length A + 1\<rparr>) (insert h H) S' (A @ [a])"
    (is "content ?t _ _ _")
proof -
  note C = contentD [OF c] and D = struct_okD [OF ok]
  have tags: "tag_of cs' g \<noteq> li_tag a" if "g \<in> H" "g \<noteq> h" for g
    using inj_onD [OF D(10), of g h] that tag by auto
  have hl: "item_sfx cs' (h # S' h) = map (\<lambda>a. LOG_INDEX_SUFFIX_LSN (li_lsn a)) (page_log (li_tag a) (A @ [a])) \<and>
    ih_prev_page_lsn (hd_of (cell_at cs' h)) = li_prev_lsn (hd (page_log (li_tag a) (A @ [a])))"
  proof (cases "h \<in> H")
    case True
    have t: "tag_of (td_segment t) h = li_tag a" using keep(1) [OF True] tag by simp
    then have "page_log (li_tag a) A \<noteq> []" using content_page [OF ok0 c True] by simp
    then show ?thesis using old [OF True] C(5,6) [OF True] t keep(2) [OF True] by (simp add: page_log_append)
  next
    case False
    have "tag_of (td_segment t) g \<noteq> li_tag a" if "g \<in> H" for g using tags [of g] keep(1) [of g] that False by auto
    then have "page_log (li_tag a) A = []" by (rule content_no_page [OF c])
    then show ?thesis using new [OF False] by (simp add: page_log_append)
  qed
  note hlog = conjunct1 [OF hl] conjunct2 [OF hl]
  have comb: "LOG_INDEX_SAME_TABLE_LSN_PREFIX ?t = LOG_INDEX_SAME_TABLE_LSN_PREFIX t"
    by (simp add: LOG_INDEX_SAME_TABLE_LSN_PREFIX_def fun_eq_iff)
  show ?thesis unfolding content_def
  proof (intro conjI ballI allI impI)
    show "td_last_order ?t = length (A @ [a])" "length (td_idx_order ?t) = LOG_INDEX_MAX_ORDER_NUM" using C(1,2) by simp_all
    show "LOG_INDEX_SAME_TABLE_LSN_PREFIX ?t (li_lsn b)" if "b \<in> set (A @ [a])" for b
      unfolding comb using that pre C(3) by auto
    show "\<exists>g \<in> insert h H. tag_of (td_segment ?t) g = li_tag b" if "b \<in> set (A @ [a])" for b
      using that tag C(4) [of b] keep(1) by auto
    have g: "page_log (tag_of cs' g) (A @ [a]) = page_log (tag_of (td_segment t) g) A" if "g \<in> H" "g \<noteq> h" for g
      using tags [OF that] keep(1) [OF that(1)] by (auto simp: page_log_append)
    show "item_sfx (td_segment ?t) (g # S' g) =
        map (\<lambda>a. LOG_INDEX_SUFFIX_LSN (li_lsn a)) (page_log (tag_of (td_segment ?t) g) (A @ [a]))" if "g \<in> insert h H" for g
      using that hlog(1) tag frame [of g] g [of g] C(5) [of g] by (cases "g = h") simp_all
    show "ih_prev_page_lsn (hd_of (cell_at (td_segment ?t) g)) = li_prev_lsn (hd (page_log (tag_of (td_segment ?t) g) (A @ [a])))"
      if "g \<in> insert h H" for g using that hlog(2) tag keep(2) [of g] g [of g] C(6) [of g] by (cases "g = h") simp_all
    fix k assume k: "k < length (A @ [a])"
    show "order_ok (td_segment ?t) (insert h H) S' (A @ [a]) (td_idx_order ?t ! k) k"
    proof (cases "k = length A")
      case True
      then show ?thesis using last_order_ok [OF ok _ tag hlog(1) p idx] C(2) len by simp
    next
      case False
      then have k: "k < length A" using k by simp
      show ?thesis using order_ok_mono [OF C(7) [OF k] k keep(1) S] False by simp
    qed
  qed
qed

text \<open>
  The table \<open>t\<close> with first free cell \<open>f\<close> holds the records \<open>A\<close>; and two tables that differ
  in their content only.
\<close>

definition tbl_log :: "(BufferTag \<Rightarrow> nat) \<Rightarrow> log_idx_table_data \<Rightarrow> nat \<Rightarrow> log_index_lsn list \<Rightarrow> bool" where
  "tbl_log key t f A \<longleftrightarrow> (\<exists>H S B. struct_ok key (td_segment t) (td_hash t) f H S B \<and> content t H S A)"

definition tbl_frame :: "log_idx_table_data \<Rightarrow> log_idx_table_data \<Rightarrow> bool" where
  "tbl_frame t t' \<longleftrightarrow> td_idx_table_id t' = td_idx_table_id t \<and> td_min_lsn t' = td_min_lsn t \<and> td_max_lsn t' = td_max_lsn t
     \<and> td_prefix_lsn t' = td_prefix_lsn t \<and> td_crc t' = td_crc t"

lemma tbl_logI: "content t H S A \<Longrightarrow> struct_ok key (td_segment t) (td_hash t) f H S B \<Longrightarrow> tbl_log key t f A"
  unfolding tbl_log_def by blast

lemma tbl_log_order:
  assumes "tbl_log key t f A"
  shows "length A < LOG_INDEX_MAX_ORDER_NUM" "td_last_order t = length A" "length (td_idx_order t) = LOG_INDEX_MAX_ORDER_NUM"
    "0 < f" "f \<le> LOG_INDEX_MEM_TBL_SEG_NUM"
proof -
  obtain H S B where ok: "struct_ok key (td_segment t) (td_hash t) f H S B" and c: "content t H S A"
    using assms unfolding tbl_log_def by blast
  show "length A < LOG_INDEX_MAX_ORDER_NUM"
    using log_content_length [OF ok c] struct_okD(4) [OF ok] unfolding seg_num by linarith
  show "td_last_order t = length A" "length (td_idx_order t) = LOG_INDEX_MAX_ORDER_NUM" using contentD(1,2) [OF c] .
  show "0 < f" "f \<le> LOG_INDEX_MEM_TBL_SEG_NUM" using struct_okD(3,4) [OF ok] .
qed

lemma tbl_log_exists:
  assumes "tbl_log key t f A" "key tag < LOG_INDEX_MEM_TBL_HASH_NUM"
  obtains h where "log_index_mem_tbl_exists_page tag t (key tag) = Inr h" "h = 0 \<longleftrightarrow> page_log tag A = []"
proof -
  obtain H S B where ok: "struct_ok key (td_segment t) (td_hash t) f H S B" and c: "content t H S A"
    using assms(1) unfolding tbl_log_def by blast
  show ?thesis
  proof (cases "\<exists>h \<in> H. tag_of (td_segment t) h = tag")
    case True
    then obtain h where h: "h \<in> H" "tag_of (td_segment t) h = tag" by blast
    have "0 < h" using item_cells(1) [OF ok h(1), of h] by simp
    then show ?thesis using that [OF exists_page_struct(1) [OF ok assms(2) h]] content_page [OF ok c h(1)] h(2) by simp
  next
    case False
    then show ?thesis using that [OF exists_page_struct(2) [OF ok assms(2)]] content_no_page [OF c] by blast
  qed
qed

lemma exists_page_head:
  assumes "struct_ok key (td_segment t) (td_hash t) f H S B" "key tag < LOG_INDEX_MEM_TBL_HASH_NUM"
    and "log_index_mem_tbl_exists_page tag t (key tag) = Inr h" "h \<noteq> 0"
  shows "h \<in> H" "tag_of (td_segment t) h = tag"
proof -
  obtain g where "g \<in> H" "tag_of (td_segment t) g = tag" using exists_page_struct(2) [OF assms(1,2)] assms(3,4) by force
  with exists_page_struct(1) [OF assms(1,2) this] assms(3) show "h \<in> H" "tag_of (td_segment t) h = tag" by simp_all
qed

lemma item_sfx_last:
  assumes "distinct xs" "xs \<noteq> []" "\<And>i. i \<in> set xs \<Longrightarrow> sfx (cell_at cs' i) = sfx (cell_at cs i) @ (if i = last xs then [x] else [])"
  shows "item_sfx cs' xs = item_sfx cs xs @ [x]"
  using assms
proof (induction xs)
  case (Cons a xs)
  show ?case
  proof (cases "xs = []")
    case True then show ?thesis using Cons.prems(3) [of a] by simp
  next
    case False
    have "item_sfx cs' xs = item_sfx cs xs @ [x]"
      by (rule Cons.IH) (use Cons.prems(1) Cons.prems(3) False in simp_all)
    moreover have "a \<noteq> last xs" using Cons.prems(1) last_in_set [OF False] by auto
    ultimately show ?thesis using Cons.prems(3) [of a] False by simp
  qed
qed simp

lemma first_lsn:
  "take (Suc 0) ((replicate LOG_INDEX_ITEM_SEG_LSN_NUM 0)[0 := x]) = [x]"
  "take (Suc 0) ((replicate LOG_INDEX_ITEM_HEAD_LSN_NUM 0)[0 := x]) = [x]"
  by (simp_all add: seg_num numeral_eq_Suc)

text \<open>The ghost effect of the three changes.\<close>

lemma append_ghost:
  assumes ok: "struct_ok key cs hash f H S B" and h: "h \<in> H" and nf: "\<not> tail_full cs h (S h)"
    and p_def: "p = last (h # S h)" and cs'_def: "cs' = cell_put cs p (append_cell (cell_at cs p) x)"
  shows "struct_ok key cs' hash f H S B"
    "0 < g \<Longrightarrow> tag_of cs' g = tag_of cs g"
    "0 < g \<Longrightarrow> ih_prev_page_lsn (hd_of (cell_at cs' g)) = ih_prev_page_lsn (hd_of (cell_at cs g))"
    "0 < i \<Longrightarrow> sfx (cell_at cs' i) = sfx (cell_at cs i) @ (if i = p then [x] else [])"
proof -
  note D = struct_okD [OF ok] and cells = item_cells [OF ok h]
  have pin: "p \<in> set (h # S h)" unfolding p_def by (rule last_in_set) simp
  have b: "0 < i \<and> i \<le> length cs" if "i \<in> set (h # S h)" for i using cells [OF that] D(1) by simp
  have put: "cell_at cs' i = (if i = p then append_cell (cell_at cs p) x else cell_at cs i)" if "0 < i" for i
    unfolding cs'_def by (rule cell_at_put) (use that b [OF pin] in simp_all)
  have same: "cell_at cs' i = cell_at cs i" if "0 < i" "i \<notin> set (h # S h)" for i using put [OF that(1)] that(2) pin by auto
  have item': "item_ok cs' h (S h)" unfolding cs'_def p_def by (rule item_ok_append [OF D(8) [OF h] D(7) [OF h] nf b])
  show tag: "tag_of cs' g = tag_of cs g" if "0 < g" for g
    using put [OF that] by (cases "g = p"; cases "cell_at cs g") simp_all
  have nxt: "ih_next_item (hd_of (cell_at cs' g)) = ih_next_item (hd_of (cell_at cs g))" if "0 < g" for g
    using put [OF that] by (cases "g = p"; cases "cell_at cs g") simp_all
  show "ih_prev_page_lsn (hd_of (cell_at cs' g)) = ih_prev_page_lsn (hd_of (cell_at cs g))" if "0 < g" for g
    using put [OF that] by (cases "g = p"; cases "cell_at cs g") simp_all
  show "sfx (cell_at cs' i) = sfx (cell_at cs i) @ (if i = p then [x] else [])" if "0 < i"
    using put [OF that] sfx_append [OF D(8) [OF h] nf p_def, of x] by simp
  have "struct_ok key cs' hash f H (S(h := S h)) B"
  proof (rule struct_update_item [OF ok h])
    show "length cs' = length cs" by (simp add: cs'_def)
    show "tag_of cs' h = tag_of cs h" "ih_next_item (hd_of (cell_at cs' h)) = ih_next_item (hd_of (cell_at cs h))"
      using tag [of h] nxt [of h] b [of h] by simp_all
  qed (use D(4) D(7) [OF h] same item' in simp_all)
  then show "struct_ok key cs' hash f H S B" by simp
qed

lemma new_seg_ghost:
  assumes ok: "struct_ok key cs hash f H S B" and h: "h \<in> H" and full: "tail_full cs h (S h)" and f: "f < LOG_INDEX_MEM_TBL_SEG_NUM"
    and cs'_def: "cs' = new_seg_cells cs h (S h) f x"
  shows "struct_ok key cs' hash (Suc f) H (S(h := S h @ [f])) B"
    "g \<in> H \<Longrightarrow> tag_of cs' g = tag_of cs g"
    "g \<in> H \<Longrightarrow> ih_prev_page_lsn (hd_of (cell_at cs' g)) = ih_prev_page_lsn (hd_of (cell_at cs g))"
    "0 < i \<Longrightarrow> i < f \<Longrightarrow> sfx (cell_at cs' i) = sfx (cell_at cs i)"
    "sfx (cell_at cs' f) = [x]"
proof -
  note D = struct_okD [OF ok] and cells = item_cells [OF ok h] and item = struct_okD(8) [OF ok h]
  have b: "0 < i \<and> i \<le> length cs" if "i \<in> set (h # S h)" for i using cells [OF that] D(1) by simp
  have fl: "f \<le> length cs" using D(1,4) by simp
  note at = new_seg_at [OF b D(3) fl, of h "S h"]
  have fnew: "f \<notin> set (h # S h)" using cells(2) [of f] by blast
  have hf: "h \<noteq> f" "0 < h" using fnew cells(1) [of h] by auto
  have hdc: "cell_at cs' h = ItemHead (head_link (hd_of (cell_at cs h)) (S h) f)" unfolding cs'_def using at [of h] hf by simp
  have pin: "last (h # S h) \<in> set (h # S h)" by (rule last_in_set) simp
  have same: "cell_at cs' i = cell_at cs i" if "0 < i" "i \<notin> set (h # S h @ [f])" for i
    using at [of i] that pin unfolding cs'_def by auto
  have item': "item_ok cs' h (S h @ [f])" unfolding cs'_def
    by (rule item_ok_new_seg [OF item _ full b D(3) fl]) (use D(7) [OF h] fnew in auto)
  have hd: "tag_of cs' h = tag_of cs h" "ih_next_item (hd_of (cell_at cs' h)) = ih_next_item (hd_of (cell_at cs h))"
    "ih_prev_page_lsn (hd_of (cell_at cs' h)) = ih_prev_page_lsn (hd_of (cell_at cs h))"
    unfolding hdc by (simp_all add: head_link_def)
  have other: "cell_at cs' g = cell_at cs g" if "g \<in> H" "g \<noteq> h" for g
    using same [of g] item_cells [OF ok that(1), of g] D(9) [OF that(1) h that(2)] that(2) by auto
  show "tag_of cs' g = tag_of cs g" if "g \<in> H" using hd(1) other [OF that] by (cases "g = h") simp_all
  show "ih_prev_page_lsn (hd_of (cell_at cs' g)) = ih_prev_page_lsn (hd_of (cell_at cs g))" if "g \<in> H"
    using hd(3) other [OF that] by (cases "g = h") simp_all
  show "struct_ok key cs' hash (Suc f) H (S(h := S h @ [f])) B"
  proof (rule struct_update_item [OF ok h])
    show "length cs' = length cs" by (simp add: cs'_def)
    show "set (h # S h @ [f]) = set (h # S h) \<union> {f..<Suc f}" by auto
  qed (use f D(7) [OF h] same item' hd fnew in auto)
  show "sfx (cell_at cs' f) = [x]" unfolding cs'_def using at [of f] D(3) first_lsn by (simp add: new_seg_def)
  show "sfx (cell_at cs' i) = sfx (cell_at cs i)" if i: "0 < i" "i < f"
  proof (cases "i = h")
    case True
    then show ?thesis using hdc is_headD [OF item_okD(1) [OF item]]
      by (cases "cell_at cs h") (simp_all add: head_link_def)
  next
    case ih: False
    show ?thesis
    proof (cases "i = last (h # S h)")
      case True
      then have ne: "S h \<noteq> []" using ih by auto
      have "is_seg (cell_at cs i)" using seg_okD(1) [OF last_seg_ok(1) [OF item ne]] last_seg_ok(2) [OF item ne] True ne by simp
      then show ?thesis using at [of i] i ih True unfolding cs'_def by (cases "cell_at cs i") simp_all
    qed (use at [of i] i ih in \<open>simp add: cs'_def\<close>)
  qed
qed

lemma new_item_ghost:
  assumes ok: "struct_ok key cs hash f H S B" and new: "\<And>h. h \<in> H \<Longrightarrow> tag_of cs h \<noteq> li_tag a"
    and f: "f < LOG_INDEX_MEM_TBL_SEG_NUM" and k: "k = key (li_tag a)" "k < LOG_INDEX_MEM_TBL_HASH_NUM"
    and cs'_def: "cs' = cell_put cs f (ItemHead (new_head f (hash ! k) a))"
  shows "struct_ok key cs' (hash[k := f]) (Suc f) (insert f H) (S(f := [])) (B(k := f # B k))"
    "cell_at cs' f = ItemHead (new_head f (hash ! k) a)" "0 < i \<Longrightarrow> i < f \<Longrightarrow> cell_at cs' i = cell_at cs i"
    "sfx (cell_at cs' f) = [LOG_INDEX_SUFFIX_LSN (li_lsn a)]"
proof -
  note D = struct_okD [OF ok]
  have put: "cell_at cs' i = (if i = f then ItemHead (new_head f (hash ! k) a) else cell_at cs i)" if "0 < i" for i
    unfolding cs'_def by (rule cell_at_put) (use that D(1,3,4) in simp_all)
  show c: "cell_at cs' f = ItemHead (new_head f (hash ! k) a)" using put [of f] D(3) by simp
  show "cell_at cs' i = cell_at cs i" if "0 < i" "i < f" using put [of i] that by simp
  show "sfx (cell_at cs' f) = [LOG_INDEX_SUFFIX_LSN (li_lsn a)]" unfolding c by (simp add: new_head_def first_lsn)
  have "item_ok cs' f []" unfolding item_ok_def c by (simp add: new_head_def seg_num)
  then show "struct_ok key cs' (hash[k := f]) (Suc f) (insert f H) (S(f := [])) (B(k := f # B k))"
    unfolding cs'_def by (intro struct_new_item [OF ok f]) (use new k in \<open>simp_all add: new_head_def\<close>)
qed

lemma add_order_eq:
  assumes "td_last_order t = n" "n < length (td_idx_order t)"
  shows "LOG_INDEX_MEM_TBL_ADD_ORDER t p idx =
    Inr (t\<lparr>td_idx_order := (td_idx_order t)[n := LOG_INDEX_ORDER p idx], td_last_order := n + 1\<rparr>)"
  using assms by (simp add: LOG_INDEX_MEM_TBL_ADD_ORDER_def)

lemma tbl_log_append:
  assumes log: "tbl_log key t f A" and k: "key (li_tag a) < LOG_INDEX_MEM_TBL_HASH_NUM"
    and h: "log_index_mem_tbl_exists_page (li_tag a) t (key (li_tag a)) = Inr h" "h \<noteq> 0"
    and full: "log_index_mem_seg_full t h = Inr False" and pre: "LOG_INDEX_SAME_TABLE_LSN_PREFIX t (li_lsn a)"
  obtains t' where "insert_lsn_append t h a = Inr t'" "tbl_log key t' f (A @ [a])" "tbl_frame t t'"
proof -
  obtain H S B where ok: "struct_ok key (td_segment t) (td_hash t) f H S B" and c: "content t H S A"
    using log unfolding tbl_log_def by blast
  note hH = exists_page_head [OF ok k h] and D = struct_okD [OF ok] and len = tbl_log_order [OF log]
  let ?cs = "td_segment t" and ?p = "last (h # S h)" and ?x = "LOG_INDEX_SUFFIX_LSN (li_lsn a)"
  let ?cs' = "cell_put ?cs ?p (append_cell (cell_at ?cs ?p) ?x)" and ?idx = "length (sfx (cell_at ?cs ?p))"
  have nf: "\<not> tail_full ?cs h (S h)" using mem_seg_full_struct [OF ok hH(1)] full by simp
  note G = append_ghost [OF ok hH(1) nf refl refl, where x = ?x]
  have pos: "0 < i" if "g \<in> H" "i \<in> set (g # S g)" for g i using item_cells(1) [OF ok that] .
  have pin: "?p \<in> set (h # S h)" by (rule last_in_set) simp
  have ins: "insert h H = H" using hH(1) by (rule insert_absorb)
  let ?t = "t\<lparr>td_segment := ?cs', td_hash := td_hash t, td_idx_order := (td_idx_order t)[length A := LOG_INDEX_ORDER ?p ?idx],
    td_last_order := length A + 1\<rparr>"
  have "content ?t (insert h H) S (A @ [a])"
  proof (rule content_step [OF ok c _ len(1) pre])
    show "struct_ok key ?cs' (td_hash t) f (insert h H) S B" unfolding ins by (rule G(1))
    show "item_sfx ?cs' (g # S g) = item_sfx ?cs (g # S g)" if g: "g \<in> H" "g \<noteq> h" for g
    proof (rule item_sfx_cong)
      fix i assume i: "i \<in> set (g # S g)"
      then have "i \<noteq> ?p" using D(9) [OF g(1) hH(1) g(2)] pin by blast
      then show "sfx (cell_at ?cs' i) = sfx (cell_at ?cs i)" using G(4) [OF pos [OF g(1) i]] by simp
    qed
    show "item_sfx ?cs' (h # S h) = item_sfx ?cs (h # S h) @ [?x]"
      by (rule item_sfx_last [OF D(7) [OF hH(1)]]) (simp, rule G(4) [OF pos [OF hH(1)]])
    show "Suc ?idx = length (sfx (cell_at ?cs' ?p))" using G(4) [OF pos [OF hH(1) pin]] by simp
  qed (use G(2,3) G(4) pos hH in auto)
  then have "tbl_log key ?t f (A @ [a])" unfolding ins by (rule tbl_logI) (use G(1) in simp)
  moreover have "get_head (t\<lparr>td_segment := ?cs'\<rparr>) h = Inr (hd_of (cell_at ?cs' h))"
    using get_head_at(2) [of "t\<lparr>td_segment := ?cs'\<rparr>" h] struct_okD(1) [OF G(1)] item_cells [OF ok hH(1), of h]
      item_okD(1) [OF struct_okD(8) [OF G(1) hH(1)]] by simp
  then have "insert_lsn_append t h a = Inr ?t"
    using append_lsn_struct [OF ok hH(1) nf, of a] item_okD(3) [OF struct_okD(8) [OF G(1) hH(1)]] len
    by (simp add: insert_lsn_append_def add_order_eq [where n = "length A"])
  moreover have "tbl_frame t ?t" by (simp add: tbl_frame_def)
  ultimately show ?thesis using that by blast
qed

lemma tbl_log_new_seg:
  assumes log: "tbl_log key t f A" and k: "key (li_tag a) < LOG_INDEX_MEM_TBL_HASH_NUM"
    and h: "log_index_mem_tbl_exists_page (li_tag a) t (key (li_tag a)) = Inr h" "h \<noteq> 0"
    and full: "log_index_mem_seg_full t h = Inr True" and pre: "LOG_INDEX_SAME_TABLE_LSN_PREFIX t (li_lsn a)"
    and f: "f < LOG_INDEX_MEM_TBL_SEG_NUM"
  obtains t' where "insert_lsn_new t (key (li_tag a)) False h f a = Inr t'" "tbl_log key t' (Suc f) (A @ [a])" "tbl_frame t t'"
proof -
  obtain H S B where ok: "struct_ok key (td_segment t) (td_hash t) f H S B" and c: "content t H S A"
    using log unfolding tbl_log_def by blast
  note hH = exists_page_head [OF ok k h] and D = struct_okD [OF ok] and len = tbl_log_order [OF log]
  let ?cs = "td_segment t" and ?x = "LOG_INDEX_SUFFIX_LSN (li_lsn a)"
  let ?cs' = "new_seg_cells ?cs h (S h) f ?x" and ?S = "S(h := S h @ [f])"
  have fl: "tail_full ?cs h (S h)" using mem_seg_full_struct [OF ok hH(1)] full by simp
  note G = new_seg_ghost [OF ok hH(1) fl f refl, where x = ?x]
  have sf: "sfx (cell_at ?cs' i) = sfx (cell_at ?cs i)" if "g \<in> H" "i \<in> set (g # S g)" for g i
    using G(4) item_cells [OF ok that] by simp
  have ins: "insert h H = H" using hH(1) by (rule insert_absorb)
  let ?t = "t\<lparr>td_segment := ?cs', td_hash := td_hash t, td_idx_order := (td_idx_order t)[length A := LOG_INDEX_ORDER f 0],
    td_last_order := length A + 1\<rparr>"
  have "content ?t (insert h H) ?S (A @ [a])"
  proof (rule content_step [OF ok c _ len(1) pre])
    show "struct_ok key ?cs' (td_hash t) (Suc f) (insert h H) ?S B" unfolding ins by (rule G(1))
    show "item_sfx ?cs' (g # ?S g) = item_sfx ?cs (g # S g)" if g: "g \<in> H" "g \<noteq> h" for g
      using item_sfx_cong [of "g # S g" ?cs' ?cs, OF sf [OF g(1)]] g(2) by simp
    have "item_sfx ?cs' (h # S h) = item_sfx ?cs (h # S h)" by (rule item_sfx_cong) (rule sf [OF hH(1)])
    then show "item_sfx ?cs' (h # ?S h) = item_sfx ?cs (h # S h) @ [?x]" using G(5) by simp
    show "Suc 0 = length (sfx (cell_at ?cs' f))" using G(5) by simp
    show "length (sfx (cell_at ?cs i)) \<le> length (sfx (cell_at ?cs' i))" if "g \<in> H" "i \<in> set (g # S g)" for g i
      using sf [OF that] by simp
  qed (use G(2,3) hH in auto)
  then have "tbl_log key ?t (Suc f) (A @ [a])" unfolding ins by (rule tbl_logI) (use G(1) in simp)
  moreover have "insert_lsn_new t (key (li_tag a)) False h f a = Inr ?t"
    using insert_new_seg_struct [OF ok hH(1) f, of a] len by (simp add: insert_lsn_new_def add_order_eq [where n = "length A"])
  moreover have "tbl_frame t ?t" by (simp add: tbl_frame_def)
  ultimately show ?thesis using that by blast
qed

lemma tbl_log_new_item:
  assumes log: "tbl_log key t f A" and k: "key (li_tag a) < LOG_INDEX_MEM_TBL_HASH_NUM"
    and new: "page_log (li_tag a) A = []" and pre: "LOG_INDEX_SAME_TABLE_LSN_PREFIX t (li_lsn a)"
    and f: "f < LOG_INDEX_MEM_TBL_SEG_NUM"
  obtains t' where "insert_lsn_new t (key (li_tag a)) True h f a = Inr t'" "tbl_log key t' (Suc f) (A @ [a])" "tbl_frame t t'"
proof -
  obtain H S B where ok: "struct_ok key (td_segment t) (td_hash t) f H S B" and c: "content t H S A"
    using log unfolding tbl_log_def by blast
  note D = struct_okD [OF ok] and len = tbl_log_order [OF log]
  let ?k = "key (li_tag a)"
  let ?cs = "td_segment t" and ?x = "LOG_INDEX_SUFFIX_LSN (li_lsn a)"
  let ?cs' = "cell_put ?cs f (ItemHead (new_head f (td_hash t ! ?k) a))" and ?S = "S(f := [])"
  have nt: "tag_of ?cs g \<noteq> li_tag a" if "g \<in> H" for g using content_page [OF ok c that] new by auto
  note G = new_item_ghost [OF ok nt f refl k refl]
  have sf: "cell_at ?cs' i = cell_at ?cs i" "i \<noteq> f" if "g \<in> H" "i \<in> set (g # S g)" for g i
    using G(3) [of i] item_cells [OF ok that] by simp_all
  have gH: "cell_at ?cs' g = cell_at ?cs g" "g \<noteq> f" if "g \<in> H" for g using sf [OF that, of g] by simp_all
  let ?t = "t\<lparr>td_segment := ?cs', td_hash := (td_hash t)[?k := f], td_idx_order := (td_idx_order t)[length A := LOG_INDEX_ORDER f 0],
    td_last_order := length A + 1\<rparr>"
  have "content ?t (insert f H) ?S (A @ [a])"
  proof (rule content_step [OF ok c G(1) len(1) pre])
    show "item_sfx ?cs' (g # ?S g) = item_sfx ?cs (g # S g)" if g: "g \<in> H" "g \<noteq> f" for g
      using item_sfx_cong [of "g # S g" ?cs' ?cs] sf(1) [OF g(1)] g(2) by simp
    show "item_sfx ?cs' (f # ?S f) = [?x] \<and> ih_prev_page_lsn (hd_of (cell_at ?cs' f)) = li_prev_lsn a"
      using G(2,4) by (simp add: new_head_def)
    show "f = last (f # ?S f)" by simp
    show "\<exists>zs. ?S g = S g @ zs" if "g \<in> H" for g using gH(2) [OF that] by simp
    show "length (sfx (cell_at ?cs i)) \<le> length (sfx (cell_at ?cs' i))" if "g \<in> H" "i \<in> set (g # S g)" for g i
      using sf(1) [OF that] by simp
  qed (use G(2,4) gH in \<open>auto simp: new_head_def\<close>)
  then have "tbl_log key ?t (Suc f) (A @ [a])" by (rule tbl_logI) (use G(1) in simp)
  moreover have "insert_lsn_new t ?k True h f a = Inr ?t"
    using insert_new_item_struct [OF ok k, of a] len by (simp add: insert_lsn_new_def add_order_eq [where n = "length A"])
  moreover have "tbl_frame t ?t" by (simp add: tbl_frame_def)
  ultimately show ?thesis using that by blast
qed

section \<open>Reading\<close>

lemma page_log_nth:
  assumes "k < length A" "li_tag (A ! k) = tag"
  shows "length (page_log tag (take k A)) < length (page_log tag A)"
    "page_log tag A ! length (page_log tag (take k A)) = A ! k"
    "take (length (page_log tag (take k A))) (page_log tag A) = page_log tag (take k A)"
proof -
  have "A = take k A @ A ! k # drop (Suc k) A" using assms(1) by (rule id_take_nth_drop)
  then have "page_log tag A = page_log tag (take k A) @ A ! k # page_log tag (drop (Suc k) A)"
    unfolding page_log_def using assms(2) by (metis (mono_tags, lifting) filter.simps(2) filter_append)
  then show "length (page_log tag (take k A)) < length (page_log tag A)"
    "page_log tag A ! length (page_log tag (take k A)) = A ! k"
    "take (length (page_log tag (take k A))) (page_log tag A) = page_log tag (take k A)" by simp_all
qed

text \<open>The cells of an item, read as the code reads them.\<close>

lemma item_cell:
  assumes ok: "struct_ok key (td_segment t) (td_hash t) f H S B" and h: "h \<in> H" and j: "j < length (h # S h)"
  defines "c \<equiv> cell_at (td_segment t) ((h # S h) ! j)"
  shows "get_cell t ((h # S h) ! j) = Inr c" "cell_head_seg c = h" "(h # S h) ! j = h \<longleftrightarrow> j = 0"
    "j = 0 \<Longrightarrow> get_head t h = Inr (hd_of c) \<and> sfx c = take (ih_number (hd_of c)) (ih_suffix_lsn (hd_of c))
       \<and> length (sfx c) = ih_number (hd_of c)"
    "j \<noteq> 0 \<Longrightarrow> as_seg c = Inr (sg_of c) \<and> sfx c = take (is_number (sg_of c)) (is_suffix_lsn (sg_of c))
       \<and> length (sfx c) = is_number (sg_of c) \<and> is_head_seg (sg_of c) = h \<and> is_prev_seg (sg_of c) = (h # S h) ! (j - 1)"
proof -
  note D = struct_okD [OF ok] and item = struct_okD(8) [OF ok h]
  have mem: "(h # S h) ! j \<in> set (h # S h)" using j by (rule nth_mem)
  note cell = item_cells [OF ok h mem]
  show "get_cell t ((h # S h) ! j) = Inr c" unfolding c_def by (rule get_cell_at(2) [OF D(1) cell(1,3)])
  show "(h # S h) ! j = h \<longleftrightarrow> j = 0" using nth_eq_iff_index_eq [OF D(7) [OF h] j, of 0] by simp
  have hd: "get_head t h = Inr (hd_of c) \<and> sfx c = take (ih_number (hd_of c)) (ih_suffix_lsn (hd_of c))
      \<and> length (sfx c) = ih_number (hd_of c) \<and> cell_head_seg c = h" if "j = 0"
    using that get_head_at(2) [OF D(1) cell(1,3)] item_okD(1,2) [OF item] sfx_len(1) [OF item]
    by (cases c) (simp_all add: c_def)
  then show "j = 0 \<Longrightarrow> get_head t h = Inr (hd_of c) \<and> sfx c = take (ih_number (hd_of c)) (ih_suffix_lsn (hd_of c))
      \<and> length (sfx c) = ih_number (hd_of c)" by blast
  have sg: "as_seg c = Inr (sg_of c) \<and> sfx c = take (is_number (sg_of c)) (is_suffix_lsn (sg_of c))
      \<and> length (sfx c) = is_number (sg_of c) \<and> is_head_seg (sg_of c) = h \<and> is_prev_seg (sg_of c) = (h # S h) ! (j - 1)
      \<and> cell_head_seg c = h" if "j \<noteq> 0"
  proof -
    from that j obtain i where i: "j = Suc i" "i < length (S h)" by (cases j) auto
    note g = item_okD(8) [OF item i(2)]
    show ?thesis using seg_okD [OF g] sfx_len(2) [OF item i(2)] i by (cases c) (simp_all add: c_def)
  qed
  then show "j \<noteq> 0 \<Longrightarrow> as_seg c = Inr (sg_of c) \<and> sfx c = take (is_number (sg_of c)) (is_suffix_lsn (sg_of c))
      \<and> length (sfx c) = is_number (sg_of c) \<and> is_head_seg (sg_of c) = h \<and> is_prev_seg (sg_of c) = (h # S h) ! (j - 1)" by blast
  show "cell_head_seg c = h" using hd sg by blast
qed

lemma seg_max_take:
  assumes "0 < length ys" "ys = take n xs" "length ys = n"
  shows "LOG_INDEX_SEG_MAX_LSN t xs n = Inr (LOG_INDEX_COMBINE_LSN t (ys ! (length ys - 1)))"
  using assms by (auto simp: LOG_INDEX_SEG_MAX_LSN_def)

text \<open>The \<open>m\<close>-th LSN of an item is the \<open>m\<close>-th LSN of its page.\<close>

lemma item_lsn:
  assumes c: "content t H S A" and h: "h \<in> H" and m: "m < length (item_sfx (td_segment t) (h # S h))"
  shows "LOG_INDEX_COMBINE_LSN t (item_sfx (td_segment t) (h # S h) ! m) = li_lsn (page_log (tag_of (td_segment t) h) A ! m)"
    "length (item_sfx (td_segment t) (h # S h)) = length (page_log (tag_of (td_segment t) h) A)"
proof -
  let ?P = "page_log (tag_of (td_segment t) h) A"
  show len: "length (item_sfx (td_segment t) (h # S h)) = length ?P" using contentD(5) [OF c h] by simp
  then have "?P ! m \<in> set ?P" using m by (intro nth_mem) simp
  then have "?P ! m \<in> set A" by (simp add: page_log_def)
  then have "LOG_INDEX_SAME_TABLE_LSN_PREFIX t (li_lsn (?P ! m))" by (rule contentD(3) [OF c])
  from combine_suffix [OF this] show "LOG_INDEX_COMBINE_LSN t (item_sfx (td_segment t) (h # S h) ! m) = li_lsn (?P ! m)"
    using contentD(5) [OF c h] m len by simp
qed

lemma order_lsn_log:
  assumes log: "tbl_log key t f A" and k: "k < length A"
  shows "log_index_get_order_lsn t k = Inr (li_lsn (A ! k))"
proof -
  obtain H S B where ok: "struct_ok key (td_segment t) (td_hash t) f H S B" and c: "content t H S A"
    using log unfolding tbl_log_def by blast
  note len = tbl_log_order [OF log]
  define w where "w = td_idx_order t ! k"
  obtain h j where h: "h \<in> H" and j: "j < length (h # S h)" and tag: "tag_of (td_segment t) h = li_tag (A ! k)"
    and w: "LOG_INDEX_SEG_ORDER w = (h # S h) ! j" "LOG_INDEX_ID_ORDER w < length (sfx (cell_at (td_segment t) ((h # S h) ! j)))"
      "off j + LOG_INDEX_ID_ORDER w = length (page_log (li_tag (A ! k)) (take k A))"
    using contentD(7) [OF c k] unfolding order_ok_def w_def by blast
  note cell = item_cell [OF ok h j] and nth = item_sfx_nth [OF struct_okD(8) [OF ok h] j w(2)]
  have val: "LOG_INDEX_COMBINE_LSN t (sfx (cell_at (td_segment t) ((h # S h) ! j)) ! LOG_INDEX_ID_ORDER w) = li_lsn (A ! k)"
    using item_lsn(1) [OF c h nth(1)] nth(2) page_log_nth(2) [OF k refl] tag w(3) by simp
  show ?thesis
  proof (cases "j = 0")
    case True
    then show ?thesis using cell(1-3) cell(4) [OF True] val w(1,2) len k
      by (simp add: log_index_get_order_lsn_def lsn_at_def w_def [symmetric])
  next
    case False
    then show ?thesis using cell(1-3) cell(5) [OF False] val w(1,2) len k
      by (simp add: log_index_get_order_lsn_def lsn_at_def w_def [symmetric])
  qed
qed

text \<open>The LSN of the same page that came before: the last one of the same table if there is one.\<close>

definition prev_lsn :: "log_index_lsn list \<Rightarrow> nat \<Rightarrow> XLogRecPtr" where
  "prev_lsn A k = (let P = page_log (li_tag (A ! k)) (take k A) in if P = [] then li_prev_lsn (A ! k) else li_lsn (last P))"

lemma prev_cell_full:
  assumes "item_ok cs h ss" "0 < j" "j < length (h # ss)"
  shows "off (j - 1) + length (sfx (cell_at cs ((h # ss) ! (j - 1)))) = off j"
    "0 < length (sfx (cell_at cs ((h # ss) ! (j - 1))))"
proof -
  have "take j (h # ss) = take (j - 1) (h # ss) @ [(h # ss) ! (j - 1)]"
    using assms(2,3) take_Suc_conv_app_nth [of "j - 1" "h # ss"] by simp
  then have "length (item_sfx cs (take j (h # ss))) = length (item_sfx cs (take (j - 1) (h # ss))) + length (sfx (cell_at cs ((h # ss) ! (j - 1))))"
    by (simp only: item_sfx_simps append_Nil2 length_append)
  then show e: "off (j - 1) + length (sfx (cell_at cs ((h # ss) ! (j - 1)))) = off j"
    using length_item_sfx_take [OF assms(1), of j] length_item_sfx_take [OF assms(1), of "j - 1"] assms(2,3) by simp
  have "off (j - 1) < off j" using assms(2) by (cases j) (auto simp: off_def seg_num split: nat.splits)
  then show "0 < length (sfx (cell_at cs ((h # ss) ! (j - 1))))" using e by linarith
qed

lemma seg_prev_lsn_log:
  assumes ok: "struct_ok key (td_segment t) (td_hash t) f H S B" and c: "content t H S A" and h: "h \<in> H"
    and j: "j < length (h # S h)" and i: "i < length (sfx (cell_at (td_segment t) ((h # S h) ! j)))"
  shows "log_index_get_seg_prev_lsn t ((h # S h) ! j) i =
    Inr (if off j + i = 0 then ih_prev_page_lsn (hd_of (cell_at (td_segment t) h))
         else LOG_INDEX_COMBINE_LSN t (item_sfx (td_segment t) (h # S h) ! (off j + i - 1)))"
proof -
  note cell = item_cell [OF ok h j] and item = struct_okD(8) [OF ok h]
  show ?thesis
  proof (cases "i = 0")
    case False
    then have i1: "i - 1 < length (sfx (cell_at (td_segment t) ((h # S h) ! j)))" using i by simp
    have n: "item_sfx (td_segment t) (h # S h) ! (off j + i - 1) = sfx (cell_at (td_segment t) ((h # S h) ! j)) ! (i - 1)"
      using item_sfx_nth(2) [OF item j i1] False by simp
    show ?thesis
      by (cases "j = 0") (use cell n i1 False in \<open>auto simp: log_index_get_seg_prev_lsn_def lsn_at_def\<close>)
  next
    case True
    show ?thesis
    proof (cases "j = 0")
      case j0: True
      then show ?thesis using cell True by (auto simp: log_index_get_seg_prev_lsn_def off_def)
    next
      case jn: False
      let ?c = "cell_at (td_segment t) ((h # S h) ! (j - 1))"
      have j1: "j - 1 < length (h # S h)" using j by simp
      have jp: "0 < j" using jn by simp
      note full = prev_cell_full [OF item jp j] and pc = item_cell [OF ok h j1]
      have n: "item_sfx (td_segment t) (h # S h) ! (off j + i - 1) = sfx ?c ! (length (sfx ?c) - 1)"
        using item_sfx_nth(2) [OF item j1, of "length (sfx ?c) - 1"] full jn True by (simp add: algebra_simps)
      have "0 < off j" using full by linarith
      have "log_index_get_seg_prev_lsn t ((h # S h) ! j) 0 =
          (if (h # S h) ! (j - 1) = h
           then rbind (get_head t ((h # S h) ! (j - 1))) (\<lambda>x. LOG_INDEX_SEG_MAX_LSN t (ih_suffix_lsn x) (ih_number x))
           else rbind (get_seg t ((h # S h) ! (j - 1))) (\<lambda>x. LOG_INDEX_SEG_MAX_LSN t (is_suffix_lsn x) (is_number x)))"
        using cell(1-3) cell(5) [OF jn] jn by (simp add: log_index_get_seg_prev_lsn_def del: nth_Cons_pos)
      also have "\<dots> = Inr (LOG_INDEX_COMBINE_LSN t (sfx ?c ! (length (sfx ?c) - 1)))"
      proof (cases "j - 1 = 0")
        case True
        then have c: "(h # S h) ! (j - 1) = h" by simp
        from pc(4) [OF True] have v: "get_head t h = Inr (hd_of ?c)" "sfx ?c = take (ih_number (hd_of ?c)) (ih_suffix_lsn (hd_of ?c))"
          "length (sfx ?c) = ih_number (hd_of ?c)" by blast+
        show ?thesis using seg_max_take [OF full(2) v(2,3), of t] jn v(1) by (simp only: c simp_thms if_True rbind_simps)
      next
        case False
        then have c: "(h # S h) ! (j - 1) \<noteq> h" unfolding pc(3) .
        from pc(5) [OF False] have v: "as_seg ?c = Inr (sg_of ?c)" "sfx ?c = take (is_number (sg_of ?c)) (is_suffix_lsn (sg_of ?c))"
          "length (sfx ?c) = is_number (sg_of ?c)" by blast+
        show ?thesis using seg_max_take [OF full(2) v(2,3), of t] jn v(1) c pc(1) by (simp only: simp_thms if_False rbind_simps)
      qed
      finally show ?thesis using n True full jn \<open>0 < off j\<close> by simp
    qed
  qed
qed

lemma order_info_log:
  assumes log: "tbl_log key t f A" and k: "k < length A"
  shows "log_index_order_lsn_info t k = Inr (Some ((A ! k)\<lparr>li_prev_lsn := prev_lsn A k\<rparr>))"
proof -
  obtain H S B where ok: "struct_ok key (td_segment t) (td_hash t) f H S B" and c: "content t H S A"
    using log unfolding tbl_log_def by blast
  note len = tbl_log_order [OF log]
  define w where "w = td_idx_order t ! k"
  let ?P = "page_log (li_tag (A ! k)) (take k A)"
  obtain h j where h: "h \<in> H" and j: "j < length (h # S h)" and tag: "tag_of (td_segment t) h = li_tag (A ! k)"
    and w: "LOG_INDEX_SEG_ORDER w = (h # S h) ! j" "LOG_INDEX_ID_ORDER w < length (sfx (cell_at (td_segment t) ((h # S h) ! j)))"
      "off j + LOG_INDEX_ID_ORDER w = length ?P"
    using contentD(7) [OF c k] unfolding order_ok_def w_def by blast
  note cell = item_cell [OF ok h j] and pg = page_log_nth [OF k refl]
  have "get_head t h = Inr (hd_of (cell_at (td_segment t) h))" using item_cell(4) [OF ok h, of 0] by simp
  then have page: "log_index_get_seg_page_tag t (LOG_INDEX_SEG_ORDER w) = Inr (li_tag (A ! k))"
    using cell(1,2) tag by (simp add: log_index_get_seg_page_tag_def w(1))
  have "log_index_get_seg_prev_lsn t (LOG_INDEX_SEG_ORDER w) (LOG_INDEX_ID_ORDER w) = Inr (prev_lsn A k)"
  proof (cases "?P = []")
    case True
    then have "hd (page_log (li_tag (A ! k)) A) = A ! k" using pg(1,2) by (cases "page_log (li_tag (A ! k)) A") simp_all
    then show ?thesis using seg_prev_lsn_log [OF ok c h j w(2)] w(1,3) True contentD(6) [OF c h] tag by (simp add: prev_lsn_def)
  next
    case False
    have m: "length ?P - 1 < length (item_sfx (td_segment t) (h # S h))"
      using contentD(5) [OF c h] pg(1) tag by simp
    have "last ?P = page_log (li_tag (A ! k)) A ! (length ?P - 1)"
      using False pg(3) by (metis last_conv_nth nth_take diff_less length_greater_0_conv zero_less_one)
    then have "LOG_INDEX_COMBINE_LSN t (item_sfx (td_segment t) (h # S h) ! (length ?P - 1)) = li_lsn (last ?P)"
      using item_lsn(1) [OF c h m] tag by simp
    then show ?thesis using seg_prev_lsn_log [OF ok c h j w(2)] w(1,3) False by (simp add: prev_lsn_def)
  qed
  then show ?thesis using page order_lsn_log [OF log k] len k
    by (simp add: log_index_order_lsn_info_def w_def [symmetric])
qed

lemma item_min_max:
  assumes ok: "struct_ok key (td_segment t) (td_hash t) f H S B" and c: "content t H S A" and h: "h \<in> H"
  defines "P \<equiv> page_log (tag_of (td_segment t) h) A" and "i \<equiv> hd_of (cell_at (td_segment t) h)"
  shows "LOG_INDEX_SEG_MIN_LSN t (ih_suffix_lsn i) = Inr (li_lsn (hd P))" "log_index_item_max_lsn t i = Inr (li_lsn (last P))"
proof -
  let ?n = "length (S h)"
  let ?c = "cell_at (td_segment t) ((h # S h) ! ?n)"
  note item = struct_okD(8) [OF ok h]
  have n: "?n < length (h # S h)" and n0: "0 < length (h # S h)" by simp_all
  note cn = item_cell [OF ok h n] and c0 = item_cell [OF ok h n0]
  have P: "P \<noteq> []" unfolding P_def by (rule content_page [OF ok c h])
  have tail: "ih_tail_seg i = (h # S h) ! ?n" "ih_head_seg i = h" using item_okD(2,3) [OF item]
    unfolding i_def by (cases "S h" rule: rev_cases; simp add: nth_append)+
  have z: "0 < length (sfx (cell_at (td_segment t) ((h # S h) ! 0)))" using sfx_len(1) [OF item] item_okD(5) [OF item] by simp
  note nth0 = item_sfx_nth [OF item n0 z]
  have "li_lsn (hd P) = LOG_INDEX_COMBINE_LSN t (sfx (cell_at (td_segment t) h) ! 0)"
    using item_lsn(1) [OF c h nth0(1)] nth0(2) P by (simp add: off_def hd_conv_nth P_def)
  then show "LOG_INDEX_SEG_MIN_LSN t (ih_suffix_lsn i) = Inr (li_lsn (hd P))"
    using c0(4) z by (auto simp: LOG_INDEX_SEG_MIN_LSN_def i_def)
  have ne: "0 < length (sfx ?c)"
  proof (cases "S h = []")
    case False
    then show ?thesis using sfx_len(2) [OF item, of "?n - 1"] seg_okD(5) [OF item_okD(8) [OF item, of "?n - 1"]] by simp
  qed (use z in simp)
  have "item_sfx (td_segment t) (take (Suc ?n) (h # S h)) = item_sfx (td_segment t) (take ?n (h # S h)) @ sfx ?c"
    by (subst take_Suc_conv_app_nth [OF n]) (simp only: item_sfx_simps append_Nil2)
  then have "length (item_sfx (td_segment t) (h # S h)) = off ?n + length (sfx ?c)"
    using length_item_sfx_take [OF item, of ?n] by simp
  then have e: "off ?n + (length (sfx ?c) - 1) = length P - 1"
    using arg_cong [OF contentD(5) [OF c h], of length] ne unfolding P_def length_map by linarith
  have l: "length (sfx ?c) - 1 < length (sfx ?c)" using ne by simp
  note nth = item_sfx_nth [OF item n l]
  have mx: "LOG_INDEX_COMBINE_LSN t (sfx ?c ! (length (sfx ?c) - 1)) = li_lsn (last P)"
    using item_lsn(1) [OF c h nth(1)] nth(2) e P by (simp add: last_conv_nth P_def)
  show "log_index_item_max_lsn t i = Inr (li_lsn (last P))"
  proof (cases "?n = 0")
    case True
    then have "hd_of ?c = i" by (simp add: i_def)
    with cn(4) [OF True] have v: "sfx ?c = take (ih_number i) (ih_suffix_lsn i)" "length (sfx ?c) = ih_number i" by metis+
    show ?thesis using seg_max_take [OF ne v] mx tail True by (simp add: log_index_item_max_lsn_def)
  next
    case False
    from cn(5) [OF False] have v: "as_seg ?c = Inr (sg_of ?c)" "sfx ?c = take (is_number (sg_of ?c)) (is_suffix_lsn (sg_of ?c))"
      "length (sfx ?c) = is_number (sg_of ?c)" by blast+
    have "ih_head_seg i \<noteq> ih_tail_seg i" unfolding tail eq_commute [of h] cn(3) by (rule False)
    then show ?thesis using seg_max_take [OF ne v(2,3)] mx tail(1) v(1) cn(1) by (simp only: log_index_item_max_lsn_def if_False rbind_simps)
  qed
qed

lemma tbl_find_log:
  assumes log: "tbl_log key t f A" and k: "key tag < LOG_INDEX_MEM_TBL_HASH_NUM"
  shows "page_log tag A = [] \<Longrightarrow> log_index_tbl_find tag t (key tag) = Inr None"
    "page_log tag A \<noteq> [] \<Longrightarrow> \<exists>i. log_index_tbl_find tag t (key tag) = Inr (Some i) \<and> ih_tag i = tag
       \<and> ih_prev_page_lsn i = li_prev_lsn (hd (page_log tag A))
       \<and> LOG_INDEX_SEG_MIN_LSN t (ih_suffix_lsn i) = Inr (li_lsn (hd (page_log tag A)))
       \<and> log_index_item_max_lsn t i = Inr (li_lsn (last (page_log tag A)))"
proof -
  obtain H S B where ok: "struct_ok key (td_segment t) (td_hash t) f H S B" and c: "content t H S A"
    using log unfolding tbl_log_def by blast
  obtain h where h: "log_index_mem_tbl_exists_page tag t (key tag) = Inr h" "h = 0 \<longleftrightarrow> page_log tag A = []"
    using tbl_log_exists [OF log k] by blast
  show "log_index_tbl_find tag t (key tag) = Inr None" if "page_log tag A = []"
    using h that by (simp add: log_index_tbl_find_def log_index_item_head_def)
  assume P: "page_log tag A \<noteq> []"
  have hH: "h \<in> H" "tag_of (td_segment t) h = tag" using exists_page_head [OF ok k h(1)] h(2) P by simp_all
  have "0 < h" "h \<le> LOG_INDEX_MEM_TBL_SEG_NUM" using item_cells [OF ok hH(1), of h] by simp_all
  then have "log_index_tbl_find tag t (key tag) = Inr (Some (hd_of (cell_at (td_segment t) h)))"
    using get_head_at(1) [OF struct_okD(1) [OF ok] _ _ item_okD(1) [OF struct_okD(8) [OF ok hH(1)]]] h(1)
    by (simp add: log_index_tbl_find_def)
  then show "\<exists>i. log_index_tbl_find tag t (key tag) = Inr (Some i) \<and> ih_tag i = tag
       \<and> ih_prev_page_lsn i = li_prev_lsn (hd (page_log tag A))
       \<and> LOG_INDEX_SEG_MIN_LSN t (ih_suffix_lsn i) = Inr (li_lsn (hd (page_log tag A)))
       \<and> log_index_item_max_lsn t i = Inr (li_lsn (last (page_log tag A)))"
    using item_min_max [OF ok c hH(1)] contentD(6) [OF c hH(1)] hH(2) by blast
qed

end
