(* ===== verification/Bloomfilter.thy ===== *)
theory Bloomfilter
  imports Polar_Prelude
begin

text \<open>
  The Bloom filter (\<open>lib/bloomfilter.c\<close>) that is saved with each logindex table. A filter is
  made in fresh memory or in a buffer of the caller, elements are added and looked up. The
  64-bit hash of an element and the floating point expression of \<open>optimal_k\<close> are parameters.
\<close>

lemma unat_drop: "unat (drop_bit n w) = unat w div 2 ^ n"
  by (subst unat_drop_bit_eq) (simp add: drop_bit_eq_div)

lemma unat_of_nat64: "n < 2 ^ 64 \<Longrightarrow> unat (of_nat n :: uint64) = n"
  by (simp add: unat_of_nat)

section \<open>The filter\<close>

definition MAX_HASH_FUNCS :: nat where "MAX_HASH_FUNCS = 10"

record bloom_filter =
  bf_k_hash_funcs :: nat
  bf_seed :: uint64
  bf_m :: uint64
  bf_bitset :: "uint8 list"

text \<open>\<open>offsetof(bloom_filter, bitset)\<close>\<close>

definition BLOOM_FILTER_BITSET :: nat where "BLOOM_FILTER_BITSET = 24"

function bloom_power_loop :: "uint64 \<Rightarrow> int \<Rightarrow> int" where
  "bloom_power_loop target_bitset_bits bloom_power =
     (if target_bitset_bits > 0 \<and> bloom_power < 32
      then bloom_power_loop (drop_bit 1 target_bitset_bits) (bloom_power + 1) else bloom_power)"
  by pat_completeness auto
termination
proof (relation "measure (\<lambda>(t, _). unat t)", simp, clarsimp)
  fix t :: uint64 assume "0 < t"
  then have "0 < unat t" by (simp add: word_less_nat_alt)
  then show "unat (drop_bit (Suc 0) t) < unat t" by (simp add: unat_drop)
qed

declare bloom_power_loop.simps [simp del]

definition my_bloom_power :: "uint64 \<Rightarrow> int" where
  "my_bloom_power target_bitset_bits = bloom_power_loop target_bitset_bits (- 1)"

text \<open>\<open>rint_k\<close> is the number \<open>rint(log(2.0) * bitset_bits / total_elems)\<close>.\<close>

definition optimal_k :: "(uint64 \<Rightarrow> int \<Rightarrow> int) \<Rightarrow> uint64 \<Rightarrow> int \<Rightarrow> nat" where
  "optimal_k rint_k bitset_bits total_elems =
     nat (max 1 (min (rint_k bitset_bits total_elems) (int MAX_HASH_FUNCS)))"

definition bloom_create :: "(uint64 \<Rightarrow> int \<Rightarrow> int) \<Rightarrow> int \<Rightarrow> nat \<Rightarrow> uint64 \<Rightarrow> bloom_filter" where
  "bloom_create rint_k total_elems bloom_work_mem seed =
     (let bitset_bytes = max (1024 * 1024) (min (of_nat bloom_work_mem * 1024) (of_int total_elems * 2 :: uint64));
          bloom_power = my_bloom_power (bitset_bytes * 8);
          bitset_bits = push_bit (nat bloom_power) 1;
          bitset_bytes = unat (bitset_bits div 8)
      in \<lparr>bf_k_hash_funcs = optimal_k rint_k bitset_bits total_elems, bf_seed = seed, bf_m = bitset_bits,
          bf_bitset = replicate bitset_bytes 0\<rparr>)"

text \<open>\<open>bloom_buf\<close> has the bytes of the buffer from the bitset on.\<close>

definition bloom_init_struct ::
  "(uint64 \<Rightarrow> int \<Rightarrow> int) \<Rightarrow> uint8 list \<Rightarrow> nat \<Rightarrow> int \<Rightarrow> uint64 \<Rightarrow> bloom_filter" where
  "bloom_init_struct rint_k bloom_buf bloom_buf_size total_elems seed =
     (let bitset_bytes = of_nat (bloom_buf_size - BLOOM_FILTER_BITSET) :: uint64;
          bloom_power = my_bloom_power (bitset_bytes * 8);
          bitset_bits = push_bit (nat bloom_power) 1
      in \<lparr>bf_k_hash_funcs = optimal_k rint_k bitset_bits total_elems, bf_seed = seed, bf_m = bitset_bits,
          bf_bitset = bloom_buf\<rparr>)"

section \<open>Elements\<close>

definition mod_m :: "uint32 \<Rightarrow> uint64 \<Rightarrow> uint32" where
  "mod_m val m = ucast (ucast val AND (m - 1))"

text \<open>The loop of \<open>k_hashes\<close> from index \<open>i\<close> on, for \<open>n\<close> more values.\<close>

fun k_hashes_loop :: "uint64 \<Rightarrow> nat \<Rightarrow> nat \<Rightarrow> uint32 \<Rightarrow> uint32 \<Rightarrow> uint32 list" where
  "k_hashes_loop m 0 i x y = []"
| "k_hashes_loop m (Suc n) i x y =
     (let x = mod_m (x + y) m; y = mod_m (y + of_nat i) m in x # k_hashes_loop m n (Suc i) x y)"

definition k_hashes :: "('e \<Rightarrow> uint64 \<Rightarrow> uint64) \<Rightarrow> bloom_filter \<Rightarrow> 'e \<Rightarrow> uint32 list" where
  "k_hashes hash_any flt elem =
     (let hash = hash_any elem (bf_seed flt); m = bf_m flt;
          x = mod_m (ucast hash) m; y = mod_m (ucast (drop_bit 32 hash)) m
      in x # k_hashes_loop m (bf_k_hash_funcs flt - 1) 1 x y)"

definition byte_of :: "uint32 \<Rightarrow> nat" where "byte_of h = unat (drop_bit 3 h)"

definition bit_of :: "uint32 \<Rightarrow> nat" where "bit_of h = unat (h AND 7)"

fun bloom_set_bits :: "uint32 list \<Rightarrow> uint8 list \<Rightarrow> uint8 list result" where
  "bloom_set_bits [] bitset = Inr bitset"
| "bloom_set_bits (h # hs) bitset =
     rbind (aget bitset (byte_of h)) (\<lambda>b.
     rbind (aset bitset (byte_of h) (b OR push_bit (bit_of h) 1)) (bloom_set_bits hs))"

definition bloom_add_element :: "('e \<Rightarrow> uint64 \<Rightarrow> uint64) \<Rightarrow> bloom_filter \<Rightarrow> 'e \<Rightarrow> bloom_filter result" where
  "bloom_add_element hash_any flt elem =
     rbind (bloom_set_bits (k_hashes hash_any flt elem) (bf_bitset flt)) (\<lambda>bitset.
     Inr (flt\<lparr>bf_bitset := bitset\<rparr>))"

fun bloom_test_bits :: "uint32 list \<Rightarrow> uint8 list \<Rightarrow> bool result" where
  "bloom_test_bits [] bitset = Inr False"
| "bloom_test_bits (h # hs) bitset =
     rbind (aget bitset (byte_of h)) (\<lambda>b.
     if b AND push_bit (bit_of h) 1 = 0 then Inr True else bloom_test_bits hs bitset)"

definition bloom_lacks_element :: "('e \<Rightarrow> uint64 \<Rightarrow> uint64) \<Rightarrow> bloom_filter \<Rightarrow> 'e \<Rightarrow> bool result" where
  "bloom_lacks_element hash_any flt elem = bloom_test_bits (k_hashes hash_any flt elem) (bf_bitset flt)"

text \<open>A sequence of \<open>bloom_add_element\<close>.\<close>

fun bloom_add_all :: "('e \<Rightarrow> uint64 \<Rightarrow> uint64) \<Rightarrow> bloom_filter \<Rightarrow> 'e list \<Rightarrow> bloom_filter result" where
  "bloom_add_all hash_any flt [] = Inr flt"
| "bloom_add_all hash_any flt (e # es) =
     rbind (bloom_add_element hash_any flt e) (\<lambda>flt. bloom_add_all hash_any flt es)"

section \<open>The size of the bitset\<close>

lemma bloom_power_loop_bounds:
  assumes "- 1 \<le> p" "p \<le> 32" "t = drop_bit (nat (p + 1)) t0" "0 \<le> p \<Longrightarrow> 2 ^ nat p \<le> unat t0" "0 < unat t0"
  shows "0 \<le> bloom_power_loop t p" "bloom_power_loop t p \<le> 32" "2 ^ nat (bloom_power_loop t p) \<le> unat t0"
    "bloom_power_loop t p < 32 \<Longrightarrow> unat t0 < 2 ^ nat (bloom_power_loop t p + 1)"
proof -
  have "0 \<le> bloom_power_loop t p \<and> bloom_power_loop t p \<le> 32 \<and> 2 ^ nat (bloom_power_loop t p) \<le> unat t0
    \<and> (bloom_power_loop t p < 32 \<longrightarrow> unat t0 < 2 ^ nat (bloom_power_loop t p + 1))"
    using assms
  proof (induction t p rule: bloom_power_loop.induct)
    case (1 t p)
    have div: "unat t = unat t0 div 2 ^ nat (p + 1)" using "1.prems"(3) by (simp add: unat_drop)
    show ?case
    proof (cases "0 < t \<and> p < 32")
      case True
      then have "0 < unat t" by (simp add: word_less_nat_alt)
      then have le: "2 ^ nat (p + 1) \<le> unat t0" using div by (metis div_less not_le_imp_less less_numeral_extra(3))
      have e: "nat (p + 1 + 1) = 1 + nat (p + 1)" using "1.prems"(1) by simp
      have "drop_bit 1 t = drop_bit (nat (p + 1 + 1)) t0" unfolding e "1.prems"(3) by (simp add: drop_bit_drop_bit)
      from "1.IH" [OF True _ _ this le \<open>0 < unat t0\<close>] "1.prems"(1) True show ?thesis
        using bloom_power_loop.simps [of t p] by simp
    next
      case False
      have p0: "0 \<le> p"
      proof (rule ccontr)
        assume "\<not> 0 \<le> p"
        then have "p = - 1" using "1.prems"(1) by simp
        then have "t = t0" using "1.prems"(3) by simp
        then show False using False "1.prems"(5) \<open>p = - 1\<close> by (simp add: word_less_nat_alt)
      qed
      have "unat t0 < 2 ^ nat (p + 1)" if "p < 32"
      proof -
        have "unat t = 0" using False that by (simp add: word_less_nat_alt)
        then show ?thesis using div by (simp add: div_eq_0_iff)
      qed
      moreover have "bloom_power_loop t p = p" by (subst bloom_power_loop.simps) (rule if_not_P [OF False])
      ultimately show ?thesis using p0 "1.prems" by simp
    qed
  qed
  then show "0 \<le> bloom_power_loop t p" "bloom_power_loop t p \<le> 32" "2 ^ nat (bloom_power_loop t p) \<le> unat t0"
    "bloom_power_loop t p < 32 \<Longrightarrow> unat t0 < 2 ^ nat (bloom_power_loop t p + 1)" by blast+
qed

lemma my_bloom_power_bounds:
  assumes "0 < unat t"
  shows "0 \<le> my_bloom_power t" "my_bloom_power t \<le> 32" "2 ^ nat (my_bloom_power t) \<le> unat t"
    "my_bloom_power t < 32 \<Longrightarrow> unat t < 2 ^ nat (my_bloom_power t + 1)"
  unfolding my_bloom_power_def using bloom_power_loop_bounds [of "- 1" t t] assms by simp_all

section \<open>No false negatives\<close>

text \<open>The bitset has at least \<open>m\<close> bits, and \<open>m\<close> is not zero.\<close>

definition bloom_ok :: "bloom_filter \<Rightarrow> bool" where
  "bloom_ok f \<longleftrightarrow> 0 < unat (bf_m f) \<and> unat (bf_m f) \<le> 8 * length (bf_bitset f)"

lemma mod_m_less:
  assumes "0 < unat m" shows "unat (mod_m val m) < unat m"
proof -
  have "unat (mod_m val m) \<le> unat ((ucast val :: uint64) AND (m - 1))"
    unfolding mod_m_def unsigned_ucast_eq by (rule take_bit_nat_less_eq_self)
  also have "\<dots> \<le> unat (m - 1)" by (rule word_le_nat_alt [THEN iffD1], rule word_and_le1)
  also have "\<dots> < unat m" using assms by (metis unat_eq_zero unat_minus_one diff_less zero_less_one less_not_refl)
  finally show ?thesis .
qed

lemma k_hashes_loop_less: "0 < unat m \<Longrightarrow> h \<in> set (k_hashes_loop m n i x y) \<Longrightarrow> unat h < unat m"
  by (induction n arbitrary: i x y) (auto simp: Let_def mod_m_less)

lemma k_hashes_byte:
  assumes "bloom_ok f" "h \<in> set (k_hashes hash_any f e)"
  shows "byte_of h < length (bf_bitset f)"
proof -
  have "unat h < unat (bf_m f)"
    using assms k_hashes_loop_less mod_m_less unfolding bloom_ok_def k_hashes_def by (auto simp: Let_def)
  then have "unat h < 8 * length (bf_bitset f)" using assms(1) unfolding bloom_ok_def by linarith
  then show ?thesis unfolding byte_of_def unat_drop by (simp add: less_mult_imp_div_less mult.commute)
qed

lemma bit_of_less: "bit_of h < 8"
proof -
  have "h AND 7 = take_bit 3 h" by (simp add: take_bit_eq_mask mask_eq_exp_minus_1)
  then show ?thesis unfolding bit_of_def using take_bit_nat_less_exp [of 3 "unat h"] by (simp add: unsigned_take_bit_eq)
qed

definition bits_set :: "uint32 list \<Rightarrow> uint8 list \<Rightarrow> bool" where
  "bits_set hs bs \<longleftrightarrow> (\<forall>h \<in> set hs. byte_of h < length bs \<and> bit (bs ! byte_of h) (bit_of h))"

lemma bloom_set_bits_ok:
  assumes "\<And>h. h \<in> set hs \<Longrightarrow> byte_of h < length bs"
  obtains bs' where "bloom_set_bits hs bs = Inr bs'" "length bs' = length bs" "bits_set hs bs'"
    "\<And>i n. bit (bs ! i) n \<Longrightarrow> i < length bs \<Longrightarrow> bit (bs' ! i) n"
proof -
  have "\<exists>bs'. bloom_set_bits hs bs = Inr bs' \<and> length bs' = length bs \<and> bits_set hs bs'
     \<and> (\<forall>i n. i < length bs \<longrightarrow> bit (bs ! i) n \<longrightarrow> bit (bs' ! i) n)" using assms
  proof (induction hs arbitrary: bs)
    case (Cons h hs)
    let ?b = "bs[byte_of h := bs ! byte_of h OR push_bit (bit_of h) 1]"
    have h: "byte_of h < length bs" using Cons.prems by simp
    have mono: "bit (?b ! i) n" if "i < length bs" "bit (bs ! i) n" for i n
      using that h by (cases "i = byte_of h") (simp_all add: bit_or_iff)
    have set: "bit (?b ! byte_of h) (bit_of h)" using h bit_of_less [of h] by (simp add: bit_simps)
    obtain bs' where bs': "bloom_set_bits hs ?b = Inr bs'" "length bs' = length ?b" "bits_set hs bs'"
      "\<forall>i n. i < length ?b \<longrightarrow> bit (?b ! i) n \<longrightarrow> bit (bs' ! i) n"
      using Cons.IH [of ?b] Cons.prems by auto
    have "bits_set (h # hs) bs'" using bs'(2,3,4) set h by (simp add: bits_set_def)
    then show ?case using bs' h mono by (intro exI [of _ bs']) simp
  qed (simp add: bits_set_def)
  then show ?thesis using that by blast
qed

lemma bloom_test_bits_ok: "bits_set hs bs \<Longrightarrow> bloom_test_bits hs bs = Inr False"
  by (induction hs) (simp_all add: bits_set_def push_bit_of_1 and_exp_eq_0_iff_not_bit)

lemma k_hashes_cong: "bf_m f' = bf_m f \<Longrightarrow> bf_seed f' = bf_seed f \<Longrightarrow> bf_k_hash_funcs f' = bf_k_hash_funcs f
    \<Longrightarrow> k_hashes hash_any f' = k_hashes hash_any f"
  by (simp add: k_hashes_def fun_eq_iff)

text \<open>A filter with the same parameters and at least the same bits.\<close>

definition bloom_le :: "bloom_filter \<Rightarrow> bloom_filter \<Rightarrow> bool" where
  "bloom_le f f' \<longleftrightarrow> bf_m f' = bf_m f \<and> bf_seed f' = bf_seed f \<and> bf_k_hash_funcs f' = bf_k_hash_funcs f
     \<and> length (bf_bitset f') = length (bf_bitset f)
     \<and> (\<forall>i n. i < length (bf_bitset f) \<longrightarrow> bit (bf_bitset f ! i) n \<longrightarrow> bit (bf_bitset f' ! i) n)"

lemma bloom_le_trans: "bloom_le f g \<Longrightarrow> bloom_le g h \<Longrightarrow> bloom_le f h"
  by (auto simp: bloom_le_def)

lemma bloom_le_ok: "bloom_le f f' \<Longrightarrow> bloom_ok f \<Longrightarrow> bloom_ok f'"
  by (simp add: bloom_le_def bloom_ok_def)

lemma bloom_le_bits: "bloom_le f f' \<Longrightarrow> bits_set hs (bf_bitset f) \<Longrightarrow> bits_set hs (bf_bitset f')"
  by (simp add: bloom_le_def bits_set_def)

lemma bloom_add_element_ok:
  assumes "bloom_ok f"
  obtains f' where "bloom_add_element hash_any f e = Inr f'" "bloom_le f f'" "bits_set (k_hashes hash_any f e) (bf_bitset f')"
proof -
  have bytes: "byte_of h < length (bf_bitset f)" if "h \<in> set (k_hashes hash_any f e)" for h by (rule k_hashes_byte [OF assms that])
  obtain bs where "bloom_set_bits (k_hashes hash_any f e) (bf_bitset f) = Inr bs" "length bs = length (bf_bitset f)"
    "bits_set (k_hashes hash_any f e) bs" "\<And>i n. bit (bf_bitset f ! i) n \<Longrightarrow> i < length (bf_bitset f) \<Longrightarrow> bit (bs ! i) n"
    using bloom_set_bits_ok [OF bytes] by blast
  then show ?thesis using that [of "f\<lparr>bf_bitset := bs\<rparr>"] by (simp add: bloom_add_element_def bloom_le_def)
qed

lemma bloom_add_all_ok:
  assumes "bloom_ok f"
  shows "\<exists>f'. bloom_add_all hash_any f es = Inr f' \<and> bloom_le f f'
     \<and> (\<forall>e \<in> set es. bloom_lacks_element hash_any f' e = Inr False)"
  using assms
proof (induction es arbitrary: f)
  case Nil then show ?case by (simp add: bloom_le_def)
next
  case (Cons e es)
  obtain g where g: "bloom_add_element hash_any f e = Inr g" "bloom_le f g" "bits_set (k_hashes hash_any f e) (bf_bitset g)"
    using bloom_add_element_ok [OF Cons.prems] by metis
  obtain f' where f': "bloom_add_all hash_any g es = Inr f'" "bloom_le g f'"
    "\<forall>e \<in> set es. bloom_lacks_element hash_any f' e = Inr False"
    using Cons.IH [OF bloom_le_ok [OF g(2) Cons.prems]] by blast
  have le: "bloom_le f f'" using bloom_le_trans [OF g(2) f'(2)] .
  then have "k_hashes hash_any f' = k_hashes hash_any f" unfolding bloom_le_def by (intro k_hashes_cong) simp_all
  then have "bloom_lacks_element hash_any f' e = Inr False"
    unfolding bloom_lacks_element_def using bloom_test_bits_ok [OF bloom_le_bits [OF f'(2) g(3)]] by simp
  then show ?case using g(1) f' le by simp
qed

text \<open>The bits of a filter that is sized for \<open>n\<close> bytes.\<close>

lemma bitset_bits:
  assumes "0 < n" "n < 2 ^ 60"
  shows "unat (push_bit (nat (my_bloom_power (of_nat n * 8))) (1 :: uint64)) = 2 ^ nat (my_bloom_power (of_nat n * 8))"
    "2 ^ nat (my_bloom_power (of_nat n * 8)) \<le> 8 * n"
proof -
  let ?t = "of_nat n * 8 :: uint64"
  have "?t = of_nat (n * 8)" by simp
  also have "unat \<dots> = n * 8" using assms(2) by (subst unat_of_nat64) simp_all
  finally have t: "unat ?t = n * 8" .
  then show "2 ^ nat (my_bloom_power ?t) \<le> 8 * n" using my_bloom_power_bounds(3) [of ?t] assms(1) by simp
  have "nat (my_bloom_power ?t) < 64" using my_bloom_power_bounds(1,2) [of ?t] t assms(1) by simp
  then have "(2 :: nat) ^ nat (my_bloom_power ?t) < 2 ^ 64" by (rule power_strict_increasing) simp
  then have "unat (of_nat (2 ^ nat (my_bloom_power ?t)) :: uint64) = 2 ^ nat (my_bloom_power ?t)"
    by (subst unat_of_nat64) simp_all
  then show "unat (push_bit (nat (my_bloom_power ?t)) (1 :: uint64)) = 2 ^ nat (my_bloom_power ?t)"
    by (simp add: push_bit_of_1)
qed

lemma bloom_init_struct_ok:
  assumes "BLOOM_FILTER_BITSET < sz" "sz < 2 ^ 32" "length buf = sz - BLOOM_FILTER_BITSET"
  shows "bloom_ok (bloom_init_struct rint_k buf sz total_elems seed)"
  using bitset_bits [of "sz - BLOOM_FILTER_BITSET"] assms by (simp add: bloom_ok_def bloom_init_struct_def Let_def)

lemma bloom_create_ok:
  assumes "bloom_work_mem < 2 ^ 31"
  shows "bloom_ok (bloom_create rint_k total_elems bloom_work_mem seed)"
proof -
  define b :: uint64 where "b = max (1024 * 1024) (min (of_nat bloom_work_mem * 1024) (of_int total_elems * 2))"
  have "unat (of_nat bloom_work_mem * 1024 :: uint64) = bloom_work_mem * 1024"
    using unat_of_nat64 [of "bloom_work_mem * 1024"] assms by simp
  then have "unat (min (of_nat bloom_work_mem * 1024) (of_int total_elems * 2) :: uint64) \<le> bloom_work_mem * 1024"
    by (simp add: min_def word_le_nat_alt)
  then have b: "1024 * 1024 \<le> unat b" "unat b < 2 ^ 60"
    using assms by (simp_all add: b_def max_def word_le_nat_alt)
  let ?p = "nat (my_bloom_power (b * 8))"
  have eq: "of_nat (unat b) * 8 = b * 8" by simp
  have bits: "unat (push_bit ?p (1 :: uint64)) = 2 ^ ?p" using bitset_bits(1) [of "unat b"] b unfolding eq by simp
  have t: "unat (b * 8) = unat b * 8" using unat_of_nat64 [of "unat b * 8"] b(2) by simp
  have "3 \<le> ?p"
  proof (rule ccontr)
    assume p: "\<not> 3 \<le> ?p"
    have "0 \<le> my_bloom_power (b * 8)" using my_bloom_power_bounds(1) [of "b * 8"] t b by simp
    then have "unat (b * 8) < 2 ^ nat (my_bloom_power (b * 8) + 1)" using my_bloom_power_bounds(4) [of "b * 8"] t b p by simp
    also have "\<dots> \<le> (2 :: nat) ^ 3" using p by (intro power_increasing) simp_all
    finally show False using t b by simp
  qed
  then have "(8 :: nat) dvd 2 ^ ?p" using le_imp_power_dvd [of 3 ?p "2 :: nat"] by simp
  then have "unat (push_bit ?p (1 :: uint64)) \<le> 8 * unat (push_bit ?p (1 :: uint64) div 8)"
    unfolding unat_div bits by simp
  then show ?thesis using bits by (simp add: bloom_ok_def bloom_create_def Let_def b_def)
qed

section \<open>Properties\<close>

text \<open>
  C29. The number of bits of a filter is the largest power of two that is not above the bits that
  are available, and at most \<open>2 ^ 32\<close>, so that 32-bit hashes address all of them.
\<close>

theorem bloom_power_largest:
  "target > 0 \<Longrightarrow>
     0 \<le> my_bloom_power target \<and> my_bloom_power target \<le> 32 \<and> 2 ^ nat (my_bloom_power target) \<le> unat target
     \<and> (my_bloom_power target = 32 \<or> unat target < 2 * 2 ^ nat (my_bloom_power target))"
  using my_bloom_power_bounds [of target]
  by (cases "my_bloom_power target < 32") (simp_all add: word_less_nat_alt nat_add_distrib)

theorem bloom_power_largest_witness: "0 \<le> my_bloom_power 1000 \<and> my_bloom_power 1000 = 9"
  using bloom_power_largest [of 1000] by (simp add: my_bloom_power_def bloom_power_loop.simps)

text \<open>
  C17. A Bloom filter has no false negatives: after a sequence of elements was added to a filter
  that \<open>bloom_create\<close> or \<open>bloom_init_struct\<close> made, no write and no lookup is outside the
  bitset and \<open>bloom_lacks_element\<close> is false for each of them.
\<close>

theorem bloom_no_false_negative:
  assumes "(flt = bloom_create rint_k total_elems bloom_work_mem seed \<and> bloom_work_mem < 2 ^ 31)
    \<or> (flt = bloom_init_struct rint_k buf buf_size total_elems seed \<and> BLOOM_FILTER_BITSET < buf_size
       \<and> buf_size < 2 ^ 32 \<and> length buf = buf_size - BLOOM_FILTER_BITSET)"
  shows "\<exists>flt'. bloom_add_all hash_any flt elems = Inr flt'
     \<and> (\<forall>e \<in> set elems. bloom_lacks_element hash_any flt' e = Inr False)"
proof -
  have "bloom_ok flt" using assms bloom_create_ok bloom_init_struct_ok by blast
  from bloom_add_all_ok [OF this, of hash_any elems] show ?thesis by blast
qed

theorem bloom_no_false_negative_witness:
  "\<exists>flt'. bloom_add_all (\<lambda>e s. of_nat e * 0x9E3779B97F4A7C15) (bloom_init_struct (\<lambda>b n. 6) (replicate 8 0) 32 10 0) [3, 5, 8] = Inr flt'
     \<and> bloom_lacks_element (\<lambda>e s. of_nat e * 0x9E3779B97F4A7C15) flt' 5 = Inr False"
  using bloom_no_false_negative [where rint_k = "\<lambda>b n. 6" and total_elems = 10 and seed = 0 and buf = "replicate 8 0"
      and buf_size = 32 and flt = "bloom_init_struct (\<lambda>b n. 6) (replicate 8 0) 32 10 0"
      and hash_any = "\<lambda>e s. of_nat e * 0x9E3779B97F4A7C15" and elems = "[3, 5, 8]"]
  by (auto simp: BLOOM_FILTER_BITSET_def)

end
