(* ===== verification/Logindex_Storage.thy ===== *)
theory Logindex_Storage
  imports Logindex_Log Bloomfilter
begin

text \<open>
  A logindex snapshot and its storage (\<open>access/logindex/polar_logindex.c\<close>): the ring of memory
  tables and the meta data in shared memory; the meta file, the segment files with
  \<open>LOG_INDEX_TABLE_NUM_PER_FILE\<close> tables each and the Bloom filters on shared storage; writing a
  table, reading it back, and truncation.

  A segment file is the list of the tables in it, the Bloom data of a table is found by the
  number of the table. Which I/O operation fails, if any, is part of the state, so that a
  statement for all states is one for all failures. Checksums, hash functions, the callback that
  tells whether a table may be written, and the server parameters are in a record of parameters.
  The cache of segment files on local disk is not there (\<open>segment_cache\<close> is \<open>NULL\<close>).
\<close>

section \<open>Types\<close>

text \<open>Table numbers start from 1; \<open>tid - 1\<close> of \<open>uint64\<close> wraps around at 0.\<close>

definition tid_pred :: "nat \<Rightarrow> nat" where
  "tid_pred tid = (if tid = 0 then 2 ^ 64 - 1 else tid - 1)"

definition LOG_INDEX_MAGIC :: uint32 where "LOG_INDEX_MAGIC = 0xFDFE"

definition LOG_INDEX_VERSION :: uint32 where "LOG_INDEX_VERSION = 2"

definition LOG_INDEX_FILE_TBL_BLOOM_SIZE :: nat where "LOG_INDEX_FILE_TBL_BLOOM_SIZE = 4096"

definition LOG_INDEX_BLOOM_ELEMS_NUM :: int where "LOG_INDEX_BLOOM_ELEMS_NUM = 819"

definition LOG_INDEX_TABLE_NUM_PER_FILE :: nat where "LOG_INDEX_TABLE_NUM_PER_FILE = 64"

definition LOG_INDEX_FILE_TABLE_SEGMENT_NO :: "nat \<Rightarrow> nat" where
  "LOG_INDEX_FILE_TABLE_SEGMENT_NO tid = tid_pred tid div LOG_INDEX_TABLE_NUM_PER_FILE"

text \<open>The position of a table in its segment file, in tables.\<close>

definition LOG_INDEX_FILE_TABLE_SEGMENT_OFFSET :: "nat \<Rightarrow> nat" where
  "LOG_INDEX_FILE_TABLE_SEGMENT_OFFSET tid = tid_pred tid mod LOG_INDEX_TABLE_NUM_PER_FILE"

datatype mem_tbl_state = STATE_FREE | STATE_ACTIVE | STATE_INACTIVE | STATE_FLUSHED

record log_mem_table =
  mt_free_head :: nat
  mt_state :: mem_tbl_state
  mt_data :: log_idx_table_data

record log_file_table_bloom =
  fb_idx_table_id :: nat
  fb_min_lsn :: XLogRecPtr
  fb_max_lsn :: XLogRecPtr
  fb_buf_size :: nat
  fb_crc :: uint32
  fb_filter :: bloom_filter

record log_index_file_segment =
  fs_segment_no :: nat
  fs_max_lsn :: XLogRecPtr
  fs_max_idx_table_id :: nat
  fs_min_idx_table_id :: nat

record log_index_meta =
  lm_magic :: uint32
  lm_version :: uint32
  lm_max_idx_table_id :: nat
  lm_min_segment_info :: log_index_file_segment
  lm_start_lsn :: XLogRecPtr
  lm_max_lsn :: XLogRecPtr
  lm_crc :: uint32

record log_index_promoted_info =
  pi_old_rw_saved_max_lsn :: XLogRecPtr
  pi_old_rw_saved_max_tid :: nat
  pi_old_rw_max_inserted_lsn :: XLogRecPtr
  pi_old_rw_max_tid :: nat

datatype log_index_io_err = LOG_INDEX_OPEN_FAILED | LOG_INDEX_SEEK_FAILED | LOG_INDEX_READ_FAILED
  | LOG_INDEX_WRITE_FAILED | LOG_INDEX_FSYNC_FAILED | LOG_INDEX_CLOSE_FAILED | LOG_INDEX_CRC_FAILED

text \<open>
  The snapshot. The last six members are not in \<open>log_index_snapshot_t\<close>: the files on shared
  storage, the I/O operation that fails, and the two static variables of the background writer.
\<close>

record log_index_snapshot =
  sn_dir :: string
  sn_mem_tbl_size :: nat
  sn_max_lsn :: XLogRecPtr
  sn_state :: uint32
  sn_active_table :: nat
  sn_max_idx_table_id :: nat
  sn_promoted_info :: log_index_promoted_info
  sn_meta :: log_index_meta
  sn_max_allocated_seg_no :: nat
  sn_mem_table :: "log_mem_table list"
  sn_meta_file :: "log_index_meta option"
  sn_files :: "nat \<Rightarrow> log_idx_table_data list option"
  sn_blooms :: "nat \<Rightarrow> log_file_table_bloom option"
  sn_fault :: "log_index_io_err option"
  sn_last_flush_max_lsn :: XLogRecPtr
  sn_last_max_table_id :: nat

record logindex_params =
  lp_tag_hash :: "BufferTag \<Rightarrow> uint32"
  lp_hash_any :: "BufferTag \<Rightarrow> uint64 \<Rightarrow> uint64"
  lp_rint_k :: "uint64 \<Rightarrow> int \<Rightarrow> int"
  lp_crc_meta :: "log_index_meta \<Rightarrow> uint32"
  lp_crc_table :: "log_idx_table_data \<Rightarrow> uint32"
  lp_crc_bloom :: "log_file_table_bloom \<Rightarrow> uint32"
  lp_table_flushable :: "log_mem_table \<Rightarrow> bool"
  lp_is_standby :: bool
  lp_rename_ok :: "nat \<Rightarrow> nat \<Rightarrow> bool"
  lp_max_logindex_files :: nat
  lp_table_batch_size :: nat

definition POLAR_LOGINDEX_STATE_INITIALIZED :: uint32 where "POLAR_LOGINDEX_STATE_INITIALIZED = 1"

definition POLAR_LOGINDEX_STATE_ADDING :: uint32 where "POLAR_LOGINDEX_STATE_ADDING = 2"

definition POLAR_LOGINDEX_STATE_WRITABLE :: uint32 where "POLAR_LOGINDEX_STATE_WRITABLE = 4"

definition polar_logindex_check_state :: "log_index_snapshot \<Rightarrow> uint32 \<Rightarrow> bool" where
  "polar_logindex_check_state s state \<longleftrightarrow> sn_state s AND state \<noteq> 0"

definition put_mem_table :: "log_index_snapshot \<Rightarrow> nat \<Rightarrow> log_mem_table \<Rightarrow> log_index_snapshot result" where
  "put_mem_table s mid t = rbind (aset (sn_mem_table s) mid t) (\<lambda>ts. Inr (s\<lparr>sn_mem_table := ts\<rparr>))"

abbreviation LOG_INDEX_MEM_TBL :: "log_index_snapshot \<Rightarrow> nat \<Rightarrow> log_mem_table result" where
  "LOG_INDEX_MEM_TBL s mid \<equiv> aget (sn_mem_table s) mid"

abbreviation LOG_INDEX_MEM_TBL_TID :: "log_mem_table \<Rightarrow> nat" where
  "LOG_INDEX_MEM_TBL_TID t \<equiv> td_idx_table_id (mt_data t)"

section \<open>The meta file\<close>

definition file_segment_zero :: log_index_file_segment where
  "file_segment_zero = \<lparr>fs_segment_no = 0, fs_max_lsn = 0, fs_max_idx_table_id = 0, fs_min_idx_table_id = 0\<rparr>"

definition meta_zero :: log_index_meta where
  "meta_zero = \<lparr>lm_magic = 0, lm_version = 0, lm_max_idx_table_id = 0, lm_min_segment_info = file_segment_zero,
     lm_start_lsn = 0, lm_max_lsn = 0, lm_crc = 0\<rparr>"

definition log_index_handle_update_v1_to_v2 :: "logindex_params \<Rightarrow> log_index_meta \<Rightarrow> bool" where
  "log_index_handle_update_v1_to_v2 lp meta = (if lp_is_standby lp then False else True)"

definition log_index_data_compatible :: "logindex_params \<Rightarrow> log_index_meta \<Rightarrow> bool" where
  "log_index_data_compatible lp meta =
     (if lm_version meta = 1 then log_index_handle_update_v1_to_v2 lp meta
      else if lm_version meta = LOG_INDEX_VERSION then True else False)"

text \<open>Whether the meta data is usable, and what is left in \<open>*meta\<close>.\<close>

definition log_index_get_meta :: "logindex_params \<Rightarrow> log_index_snapshot \<Rightarrow> bool \<times> log_index_meta" where
  "log_index_get_meta lp s =
     (case (if sn_fault s = Some LOG_INDEX_OPEN_FAILED then None else sn_meta_file s) of
        None \<Rightarrow> (False, meta_zero)
      | Some meta \<Rightarrow>
          if sn_fault s = Some LOG_INDEX_READ_FAILED then (False, meta_zero)
          else
            let crc = lm_crc meta
            in if lm_magic meta \<noteq> LOG_INDEX_MAGIC then (False, meta)
               else
                 let meta = meta\<lparr>lm_crc := lp_crc_meta lp (meta\<lparr>lm_crc := 0\<rparr>)\<rparr>
                 in if crc \<noteq> lm_crc meta then (False, meta)
                    else if lm_version meta \<noteq> LOG_INDEX_VERSION \<and> \<not> log_index_data_compatible lp meta then (False, meta)
                    else (True, meta))"

definition polar_log_index_write_meta ::
  "logindex_params \<Rightarrow> log_index_snapshot \<Rightarrow> log_index_meta \<Rightarrow> bool \<Rightarrow> log_index_snapshot result" where
  "polar_log_index_write_meta lp s meta update =
     (let meta = (if lm_max_lsn meta \<noteq> InvalidXLogRecPtr then meta\<lparr>lm_start_lsn := lm_max_lsn meta\<rparr> else meta);
          meta = meta\<lparr>lm_magic := LOG_INDEX_MAGIC, lm_version := LOG_INDEX_VERSION, lm_crc := 0\<rparr>;
          meta = meta\<lparr>lm_crc := lp_crc_meta lp meta\<rparr>
      in if sn_fault s = Some LOG_INDEX_OPEN_FAILED \<or> (update \<and> sn_meta_file s = None) then Inl (PANIC ''could not open file'')
         else if sn_fault s = Some LOG_INDEX_WRITE_FAILED then Inl (PANIC ''could not write file'')
         else if sn_fault s = Some LOG_INDEX_FSYNC_FAILED then Inl (PANIC ''could not flush file'')
         else Inr (s\<lparr>sn_meta := meta, sn_meta_file := Some meta\<rparr>))"

definition polar_logindex_start_lsn :: "log_index_snapshot option \<Rightarrow> XLogRecPtr" where
  "polar_logindex_start_lsn s = (case s of None \<Rightarrow> InvalidXLogRecPtr | Some s \<Rightarrow> lm_start_lsn (sn_meta s))"

definition polar_logindex_set_start_lsn :: "logindex_params \<Rightarrow> log_index_snapshot \<Rightarrow> XLogRecPtr \<Rightarrow> log_index_snapshot result" where
  "polar_logindex_set_start_lsn lp s start_lsn =
     polar_log_index_write_meta lp s ((sn_meta s)\<lparr>lm_start_lsn := start_lsn\<rparr>) False"

section \<open>Bloom data\<close>

text \<open>
  The walk over one hash chain: the bounds of the LSNs, and the pages added to the filter; \<open>n\<close>
  bounds the length of the chain.
\<close>

fun calc_bloom_chain ::
  "nat \<Rightarrow> logindex_params \<Rightarrow> log_idx_table_data \<Rightarrow> log_item_head option \<Rightarrow> log_file_table_bloom \<Rightarrow> log_file_table_bloom result" where
  "calc_bloom_chain 0 lp table item bloom = Inl NoReturn"
| "calc_bloom_chain (Suc n) lp table item bloom =
     (case item of None \<Rightarrow> Inr bloom
      | Some i \<Rightarrow>
          rbind (log_index_item_max_lsn table i) (\<lambda>mx.
          rbind (LOG_INDEX_SEG_MIN_LSN table (ih_suffix_lsn i)) (\<lambda>mn.
          rbind (bloom_add_element (lp_hash_any lp) (fb_filter bloom) (ih_tag i)) (\<lambda>flt.
          rbind (log_index_item_head table (ih_next_item i)) (\<lambda>item.
          calc_bloom_chain n lp table item (bloom\<lparr>fb_max_lsn := max (fb_max_lsn bloom) mx,
            fb_min_lsn := min (fb_min_lsn bloom) mn, fb_filter := flt\<rparr>))))))"

fun calc_bloom_slots ::
  "nat list \<Rightarrow> logindex_params \<Rightarrow> log_idx_table_data \<Rightarrow> log_file_table_bloom \<Rightarrow> log_file_table_bloom result" where
  "calc_bloom_slots [] lp table bloom = Inr bloom"
| "calc_bloom_slots (i # keys) lp table bloom =
     rbind (aget (td_hash table) i) (\<lambda>id.
     rbind (if id \<noteq> LOG_INDEX_TBL_INVALID_SEG
            then rbind (log_index_item_head table id) (\<lambda>item. calc_bloom_chain (Suc LOG_INDEX_MEM_TBL_SEG_NUM) lp table item bloom)
            else Inr bloom) (calc_bloom_slots keys lp table))"

definition log_index_calc_bloom ::
  "logindex_params \<Rightarrow> log_idx_table_data \<Rightarrow> log_file_table_bloom \<Rightarrow> log_file_table_bloom result" where
  "log_index_calc_bloom lp table bloom =
     calc_bloom_slots [0..<LOG_INDEX_MEM_TBL_HASH_NUM] lp table
       (bloom\<lparr>fb_filter := bloom_init_struct (lp_rint_k lp) (bf_bitset (fb_filter bloom)) (fb_buf_size bloom)
          LOG_INDEX_BLOOM_ELEMS_NUM 0\<rparr>)"

text \<open>\<open>bloom\<close> comes from \<open>palloc0\<close>; 32 is the offset of its bytes.\<close>

definition log_index_get_bloom_data :: "logindex_params \<Rightarrow> log_idx_table_data \<Rightarrow> nat \<Rightarrow> log_file_table_bloom result" where
  "log_index_get_bloom_data lp table tid =
     (let buf_size = LOG_INDEX_FILE_TBL_BLOOM_SIZE - 32
      in rbind (log_index_calc_bloom lp table
                 \<lparr>fb_idx_table_id = tid, fb_min_lsn = UINT64_MAX, fb_max_lsn = InvalidXLogRecPtr, fb_buf_size = buf_size,
                  fb_crc = 0, fb_filter = \<lparr>bf_k_hash_funcs = 0, bf_seed = 0, bf_m = 0,
                    bf_bitset = replicate (buf_size - BLOOM_FILTER_BITSET) 0\<rparr>\<rparr>) (\<lambda>bloom.
         Inr (bloom\<lparr>fb_crc := lp_crc_bloom lp (bloom\<lparr>fb_crc := 0\<rparr>)\<rparr>)))"

section \<open>Segment files\<close>

definition table_zero :: log_idx_table_data where
  "table_zero = \<lparr>td_idx_table_id = 0, td_min_lsn = 0, td_max_lsn = 0, td_prefix_lsn = 0, td_crc = 0, td_last_order = 0,
     td_idx_order = replicate LOG_INDEX_MAX_ORDER_NUM 0, td_hash = replicate LOG_INDEX_MEM_TBL_HASH_NUM 0,
     td_segment = replicate LOG_INDEX_MEM_TBL_SEG_NUM SegZero\<rparr>"

text \<open>A write at a position of a file; a gap before it reads as zeros.\<close>

definition pwrite_slot :: "log_idx_table_data list \<Rightarrow> nat \<Rightarrow> log_idx_table_data \<Rightarrow> log_idx_table_data list" where
  "pwrite_slot f i t = (if i < length f then f[i := t] else f @ replicate (i - length f) table_zero @ [t])"

text \<open>The content of the file that is opened; a missing file is created when its first table is written.\<close>

definition log_index_open_table_file ::
  "log_index_snapshot \<Rightarrow> nat \<Rightarrow> bool \<Rightarrow> log_index_io_err + log_idx_table_data list" where
  "log_index_open_table_file s tid readonly =
     (if sn_fault s = Some LOG_INDEX_OPEN_FAILED then Inl LOG_INDEX_OPEN_FAILED
      else
        case sn_files s (LOG_INDEX_FILE_TABLE_SEGMENT_NO tid) of
          Some f \<Rightarrow> Inr f
        | None \<Rightarrow> if \<not> readonly \<and> LOG_INDEX_FILE_TABLE_SEGMENT_OFFSET tid = 0 then Inr [] else Inl LOG_INDEX_OPEN_FAILED)"

definition log_index_read_table_data ::
  "logindex_params \<Rightarrow> log_index_snapshot \<Rightarrow> nat \<Rightarrow> log_index_io_err + log_idx_table_data" where
  "log_index_read_table_data lp s tid =
     (case log_index_open_table_file s tid True of
        Inl e \<Rightarrow> Inl e
      | Inr f \<Rightarrow>
          let offset = LOG_INDEX_FILE_TABLE_SEGMENT_OFFSET tid
          in if sn_fault s = Some LOG_INDEX_READ_FAILED \<or> length f \<le> offset then Inl LOG_INDEX_READ_FAILED
             else
               let table = f ! offset; crc = td_crc table;
                   table = table\<lparr>td_crc := lp_crc_table lp (table\<lparr>td_crc := 0\<rparr>)\<rparr>
               in if crc \<noteq> td_crc table then Inl LOG_INDEX_CRC_FAILED else Inr table)"

text \<open>
  The table as it is written and the snapshot with the new file. A failed write has no effect here; what it
  leaves in the file is in the place of a table that the meta data does not count as saved.
\<close>

definition log_index_save_table ::
  "logindex_params \<Rightarrow> log_index_snapshot \<Rightarrow> log_idx_table_data \<Rightarrow> log_idx_table_data list \<Rightarrow> log_file_table_bloom
     \<Rightarrow> log_index_io_err + (log_idx_table_data \<times> log_index_snapshot)" where
  "log_index_save_table lp s table f bloom =
     (let segno = LOG_INDEX_FILE_TABLE_SEGMENT_NO (td_idx_table_id table);
          offset = LOG_INDEX_FILE_TABLE_SEGMENT_OFFSET (td_idx_table_id table);
          table = table\<lparr>td_min_lsn := fb_min_lsn bloom, td_max_lsn := fb_max_lsn bloom, td_crc := 0\<rparr>;
          table = table\<lparr>td_crc := lp_crc_table lp table\<rparr>
      in if sn_fault s = Some LOG_INDEX_WRITE_FAILED then Inl LOG_INDEX_WRITE_FAILED
         else if sn_fault s = Some LOG_INDEX_FSYNC_FAILED then Inl LOG_INDEX_FSYNC_FAILED
         else Inr (table, s\<lparr>sn_files := (sn_files s)(segno \<mapsto> pwrite_slot f offset table)\<rparr>))"

definition log_index_save_bloom :: "log_index_snapshot \<Rightarrow> nat \<Rightarrow> log_file_table_bloom \<Rightarrow> log_index_snapshot" where
  "log_index_save_bloom s tid bloom = s\<lparr>sn_blooms := (sn_blooms s)(tid \<mapsto> bloom)\<rparr>"

text \<open>An I/O error ends the process.\<close>

fun log_index_report_io_error :: "log_index_io_err \<Rightarrow> pg_error" where
  "log_index_report_io_error LOG_INDEX_OPEN_FAILED = FATAL ''Could not open file''"
| "log_index_report_io_error LOG_INDEX_SEEK_FAILED = FATAL ''Could not seek in file''"
| "log_index_report_io_error LOG_INDEX_READ_FAILED = FATAL ''Could not read from file''"
| "log_index_report_io_error LOG_INDEX_WRITE_FAILED = FATAL ''Could not write to file''"
| "log_index_report_io_error LOG_INDEX_FSYNC_FAILED = FATAL ''Could not fsync file''"
| "log_index_report_io_error LOG_INDEX_CLOSE_FAILED = FATAL ''Could not close file''"
| "log_index_report_io_error LOG_INDEX_CRC_FAILED = FATAL ''The crc32 check failed in file''"

text \<open>The file is opened first, the Bloom data is saved before the table; an I/O error is the left case.\<close>

definition log_index_write_table_data ::
  "logindex_params \<Rightarrow> log_index_snapshot \<Rightarrow> log_idx_table_data
     \<Rightarrow> (log_index_io_err + (log_idx_table_data \<times> log_index_snapshot)) result" where
  "log_index_write_table_data lp s table =
     (let tid = td_idx_table_id table
      in case log_index_open_table_file s tid False of
           Inl e \<Rightarrow> Inr (Inl e)
         | Inr f \<Rightarrow>
             rbind (log_index_get_bloom_data lp table tid) (\<lambda>bloom.
             Inr (log_index_save_table lp (log_index_save_bloom s tid bloom) table f bloom)))"

definition meta_after_write :: "log_index_meta \<Rightarrow> nat \<Rightarrow> log_idx_table_data \<Rightarrow> log_index_meta" where
  "meta_after_write meta tid table =
     (let meta = meta\<lparr>lm_max_idx_table_id := max (lm_max_idx_table_id meta) tid, lm_max_lsn := max (lm_max_lsn meta) (td_max_lsn table)\<rparr>;
          segment_no = LOG_INDEX_FILE_TABLE_SEGMENT_NO tid;
          min_seg = lm_min_segment_info meta;
          min_seg = min_seg\<lparr>fs_segment_no := min (fs_segment_no min_seg) segment_no\<rparr>;
          min_seg = (if fs_segment_no min_seg = segment_no
             then min_seg\<lparr>fs_max_lsn := max (td_max_lsn table) (fs_max_lsn min_seg),
                    fs_max_idx_table_id := max tid (fs_max_idx_table_id min_seg),
                    fs_min_idx_table_id := fs_segment_no min_seg * LOG_INDEX_TABLE_NUM_PER_FILE + 1\<rparr>
             else min_seg)
      in meta\<lparr>lm_min_segment_info := min_seg\<rparr>)"

text \<open>Whether the table was written; the tables are written in the order of their numbers.\<close>

definition log_index_write_table :: "logindex_params \<Rightarrow> log_index_snapshot \<Rightarrow> nat \<Rightarrow> (bool \<times> log_index_snapshot) result" where
  "log_index_write_table lp s mid =
     rbind (LOG_INDEX_MEM_TBL s mid) (\<lambda>table.
     let tid = LOG_INDEX_MEM_TBL_TID table
     in if tid = lm_max_idx_table_id (sn_meta s) + 1
        then
          rbind (log_index_write_table_data lp s (mt_data table)) (\<lambda>r.
          case r of
            Inl e \<Rightarrow> Inl (log_index_report_io_error e)
          | Inr (data, s) \<Rightarrow>
              if mt_state table = STATE_ACTIVE
              then rbind (put_mem_table s mid (table\<lparr>mt_data := data\<rparr>)) (\<lambda>s. Inr (True, s))
              else
                rbind (polar_log_index_write_meta lp s (meta_after_write (sn_meta s) tid data) True) (\<lambda>s.
                rbind (put_mem_table s mid (table\<lparr>mt_data := data, mt_state := STATE_FLUSHED\<rparr>)) (\<lambda>s. Inr (True, s))))
        else Inr (False, s))"

section \<open>Reading tables\<close>

record log_table_cache =
  tc_name :: string
  tc_min_idx_table_id :: nat
  tc_max_idx_table_id :: nat
  tc_data :: "log_idx_table_data list"

text \<open>The search for the last table of the segment, from position \<open>i - 1\<close> down.\<close>

fun seg_file_max_tid :: "log_idx_table_data list \<Rightarrow> nat \<Rightarrow> nat \<Rightarrow> nat \<Rightarrow> nat" where
  "seg_file_max_tid f mn mx 0 = LOG_INDEX_TABLE_INVALID_ID"
| "seg_file_max_tid f mn mx (Suc i) =
     (let id = td_idx_table_id (f ! i) in if mn \<le> id \<and> id \<le> mx then id else seg_file_max_tid f mn mx i)"

text \<open>
  The cache after the file was read into it; without an error number when the content of the
  file is not what is expected. An error ends the process, and its cache with it.
\<close>

definition log_index_read_seg_file ::
  "log_index_snapshot \<Rightarrow> log_table_cache \<Rightarrow> nat \<Rightarrow> (log_index_io_err option) + log_table_cache" where
  "log_index_read_seg_file s cache segno =
     (case (if sn_fault s = Some LOG_INDEX_OPEN_FAILED then None else sn_files s segno) of
        None \<Rightarrow> Inl (Some LOG_INDEX_OPEN_FAILED)
      | Some f \<Rightarrow>
          if sn_fault s = Some LOG_INDEX_READ_FAILED \<or> f = [] then Inl (Some LOG_INDEX_READ_FAILED)
          else
            let mn = segno * LOG_INDEX_TABLE_NUM_PER_FILE + 1; mx = lm_max_idx_table_id (sn_meta s);
                data = take LOG_INDEX_TABLE_NUM_PER_FILE f
            in if td_idx_table_id (hd data) \<noteq> mn \<or> mn > mx then Inl None
               else Inr (cache\<lparr>tc_min_idx_table_id := mn, tc_max_idx_table_id := seg_file_max_tid data mn mx (length data), tc_data := data\<rparr>))"

definition mid_of_tid :: "log_index_snapshot \<Rightarrow> nat \<Rightarrow> nat" where
  "mid_of_tid s tid = tid_pred tid mod sn_mem_tbl_size s"

text \<open>
  The table, the memory table whose lock is held, the cache of the process and the snapshot. \<open>got1\<close> and
  \<open>got2\<close> tell whether the two conditional lock requests succeed; \<open>prev_err\<close> is the error that
  a file with unexpected content is reported with.
\<close>

definition log_index_read_table ::
  "log_index_snapshot \<Rightarrow> log_table_cache \<Rightarrow> bool \<Rightarrow> bool \<Rightarrow> log_index_io_err \<Rightarrow> nat
     \<Rightarrow> (log_idx_table_data \<times> nat option \<times> log_table_cache \<times> log_index_snapshot) result" where
  "log_index_read_table s cache got1 got2 prev_err tid =
     (let mid = mid_of_tid s tid
      in rbind (LOG_INDEX_MEM_TBL s mid) (\<lambda>table.
         if got1 \<and> mt_state table = STATE_FLUSHED \<and> tid = LOG_INDEX_MEM_TBL_TID table
         then Inr (mt_data table, Some mid, cache, s)
         else
           rbind (if tc_name cache \<noteq> sn_dir s \<or> tid < tc_min_idx_table_id cache \<or> tid > tc_max_idx_table_id cache
                  then case log_index_read_seg_file s cache (LOG_INDEX_FILE_TABLE_SEGMENT_NO tid) of
                         Inl e \<Rightarrow> Inl (log_index_report_io_error (case e of None \<Rightarrow> prev_err | Some e \<Rightarrow> e))
                       | Inr c \<Rightarrow> Inr (c\<lparr>tc_name := sn_dir s\<rparr>)
                  else Inr cache) (\<lambda>cache.
           if tid < tc_min_idx_table_id cache \<or> tid > tc_max_idx_table_id cache then Inl (PANIC ''Failed to read tid'')
           else
             rbind (aget (tc_data cache) (tid - tc_min_idx_table_id cache)) (\<lambda>data.
             rbind (if got2 \<and> mt_state table = STATE_FLUSHED \<and> tid \<noteq> LOG_INDEX_MEM_TBL_TID table
                    then put_mem_table s mid (table\<lparr>mt_data := data\<rparr>) else Inr s) (\<lambda>s.
             Inr (data, None, cache, s))))))"

section \<open>Truncation\<close>

definition log_index_update_min_segment :: "logindex_params \<Rightarrow> log_index_snapshot \<Rightarrow> log_index_snapshot result" where
  "log_index_update_min_segment lp s =
     (let meta = sn_meta s; min_seg = lm_min_segment_info meta;
          min_seg = min_seg\<lparr>fs_segment_no := fs_segment_no min_seg + 1\<rparr>;
          min_seg = min_seg\<lparr>fs_min_idx_table_id := fs_segment_no min_seg * LOG_INDEX_TABLE_NUM_PER_FILE + 1\<rparr>
      in rbind
           (if LOG_INDEX_FILE_TABLE_SEGMENT_NO (lm_max_idx_table_id meta) = fs_segment_no min_seg
            then Inr (min_seg\<lparr>fs_max_idx_table_id := lm_max_idx_table_id meta, fs_max_lsn := lm_max_lsn meta\<rparr>)
            else
              let max_tid = (fs_segment_no min_seg + 1) * LOG_INDEX_TABLE_NUM_PER_FILE
              in case log_index_read_table_data lp s max_tid of
                   Inl e \<Rightarrow> Inl (PANIC ''Failed to read log index when truncate logindex'')
                 | Inr table \<Rightarrow> Inr (min_seg\<lparr>fs_max_idx_table_id := max_tid, fs_max_lsn := td_max_lsn table\<rparr>)) (\<lambda>min_seg.
         polar_log_index_write_meta lp s (meta\<lparr>lm_min_segment_info := min_seg\<rparr>) True))"

definition log_index_rename_segment_file :: "logindex_params \<Rightarrow> log_index_snapshot \<Rightarrow> nat \<Rightarrow> bool \<times> log_index_snapshot" where
  "log_index_rename_segment_file lp s old_seg_no =
     (let max_seg_no = LOG_INDEX_FILE_TABLE_SEGMENT_NO (lm_max_idx_table_id (sn_meta s));
          max_seg_no = max max_seg_no (sn_max_allocated_seg_no s);
          new_seg_no = max_seg_no + 1
      in if lp_rename_ok lp old_seg_no new_seg_no \<and> sn_files s old_seg_no \<noteq> None
         then (True, s\<lparr>sn_files := (sn_files s)(old_seg_no := None, new_seg_no := sn_files s old_seg_no),
                       sn_max_allocated_seg_no := new_seg_no\<rparr>)
         else (False, s))"

text \<open>\<open>SimpleLruTruncate\<close> removes the Bloom data of the segments below that of \<open>tid\<close>.\<close>

definition bloom_truncate :: "log_index_snapshot \<Rightarrow> nat \<Rightarrow> log_index_snapshot" where
  "bloom_truncate s tid =
     s\<lparr>sn_blooms := (\<lambda>i. if LOG_INDEX_FILE_TABLE_SEGMENT_NO i < LOG_INDEX_FILE_TABLE_SEGMENT_NO tid then None else sn_blooms s i)\<rparr>"

definition log_index_truncate :: "logindex_params \<Rightarrow> log_index_snapshot \<Rightarrow> XLogRecPtr \<Rightarrow> (bool \<times> log_index_snapshot) result" where
  "log_index_truncate lp s lsn =
     (let meta = sn_meta s; min_seg = lm_min_segment_info meta;
          max_segment_no = LOG_INDEX_FILE_TABLE_SEGMENT_NO (lm_max_idx_table_id meta);
          min_segment_no = fs_segment_no min_seg
      in if lm_crc meta = 0 \<or> lm_max_lsn meta = InvalidXLogRecPtr \<or> fs_max_lsn min_seg = InvalidXLogRecPtr \<or> fs_max_lsn min_seg \<ge> lsn
         then Inr (False, s)
         else if max_segment_no = min_segment_no then Inr (False, s)
         else
           rbind (log_index_update_min_segment lp s) (\<lambda>s.
           let max_segment_no = max (sn_max_allocated_seg_no s) max_segment_no;
               s = bloom_truncate s (fs_max_idx_table_id min_seg)
           in if max_segment_no - min_segment_no < lp_max_logindex_files lp
              then let (renamed, s) = log_index_rename_segment_file lp s min_segment_no
                   in Inr (True, if renamed then s else s\<lparr>sn_files := (sn_files s)(min_segment_no := None)\<rparr>)
              else Inr (True, s\<lparr>sn_files := (sn_files s)(min_segment_no := None)\<rparr>)))"

text \<open>The loop of \<open>polar_logindex_truncate\<close>; \<open>n\<close> bounds the number of segment files that are removed.\<close>

fun truncate_loop :: "nat \<Rightarrow> logindex_params \<Rightarrow> log_index_snapshot \<Rightarrow> XLogRecPtr \<Rightarrow> log_index_snapshot result" where
  "truncate_loop 0 lp s lsn = Inl NoReturn"
| "truncate_loop (Suc n) lp s lsn =
     rbind (log_index_truncate lp s lsn) (\<lambda>(again, s). if again then truncate_loop n lp s lsn else Inr s)"

definition polar_logindex_truncate :: "logindex_params \<Rightarrow> log_index_snapshot \<Rightarrow> XLogRecPtr \<Rightarrow> log_index_snapshot result" where
  "polar_logindex_truncate lp s lsn =
     (if lsn \<noteq> InvalidXLogRecPtr
      then truncate_loop (Suc (LOG_INDEX_FILE_TABLE_SEGMENT_NO (lm_max_idx_table_id (sn_meta s)))) lp s lsn
      else Inr s)"

definition polar_get_logindex_snapshot_storage_min_lsn :: "logindex_params \<Rightarrow> log_index_snapshot \<Rightarrow> XLogRecPtr result" where
  "polar_get_logindex_snapshot_storage_min_lsn lp s =
     (let tid = fs_min_idx_table_id (lm_min_segment_info (sn_meta s))
      in if tid \<noteq> LOG_INDEX_TABLE_INVALID_ID
         then case log_index_read_table_data lp s tid of
                Inl e \<Rightarrow> Inl (PANIC ''Failed to read log index when truncate logindex'')
              | Inr table \<Rightarrow> Inr (td_min_lsn table)
         else Inr InvalidXLogRecPtr)"

end
