(* ===== verification/Logindex_Snapshot.thy ===== *)
theory Logindex_Snapshot
  imports Logindex_Storage
begin

text \<open>
  The operations on a logindex snapshot (\<open>access/logindex/polar_logindex.c\<close>): an LSN is added to
  the active table of the ring, a full table becomes inactive, is written by the background
  writer, or by the process that needs its slot, and is then free for reuse; starting from
  storage, promotion, and the state of a replica that follows the meta file.

  A process that waits for a table does so in rounds; \<open>other r\<close> is what the other processes do
  to the snapshot between round \<open>r\<close> and the next one. A loop that is not ended by then has the
  value \<open>NoReturn\<close>.
\<close>

section \<open>Memory tables\<close>

definition mem_table_zero :: log_mem_table where
  "mem_table_zero = \<lparr>mt_free_head = 0, mt_state = STATE_FREE, mt_data = table_zero\<rparr>"

definition LOG_INDEX_MEM_TBL_IS_NEW :: "log_mem_table \<Rightarrow> bool" where
  "LOG_INDEX_MEM_TBL_IS_NEW t \<longleftrightarrow> td_max_lsn (mt_data t) = InvalidXLogRecPtr \<and> td_min_lsn (mt_data t) = UINT64_MAX
     \<and> td_prefix_lsn (mt_data t) = 0 \<and> mt_free_head t = 1"

definition LOG_INDEX_MEM_TBL_FULL :: "log_mem_table \<Rightarrow> bool" where
  "LOG_INDEX_MEM_TBL_FULL t \<longleftrightarrow> mt_free_head t = LOG_INDEX_MEM_TBL_SEG_NUM"

definition LOG_INDEX_PREFIX_LSN :: "XLogRecPtr \<Rightarrow> uint32" where
  "LOG_INDEX_PREFIX_LSN lsn = ucast (drop_bit 32 lsn)"

definition LOG_INDEX_MEM_TBL_NEW_ACTIVE ::
  "log_index_snapshot \<Rightarrow> log_mem_table \<Rightarrow> XLogRecPtr \<Rightarrow> log_mem_table \<times> log_index_snapshot" where
  "LOG_INDEX_MEM_TBL_NEW_ACTIVE s t lsn =
     (let s = s\<lparr>sn_max_idx_table_id := sn_max_idx_table_id s + 1\<rparr>
      in (t\<lparr>mt_data := (mt_data t)\<lparr>td_idx_table_id := sn_max_idx_table_id s, td_max_lsn := InvalidXLogRecPtr,
              td_min_lsn := UINT64_MAX, td_prefix_lsn := LOG_INDEX_PREFIX_LSN lsn\<rparr>,
            mt_free_head := 1, mt_state := STATE_ACTIVE\<rparr>, s))"

definition log_index_table_saved_before_promote :: "log_index_snapshot \<Rightarrow> log_mem_table \<Rightarrow> bool result" where
  "log_index_table_saved_before_promote s table =
     (let info = sn_promoted_info s
      in if pi_old_rw_saved_max_tid info \<noteq> LOG_INDEX_TABLE_INVALID_ID
         then if LOG_INDEX_MEM_TBL_TID table = pi_old_rw_saved_max_tid info
                   \<and> td_max_lsn (mt_data table) \<noteq> pi_old_rw_saved_max_lsn info
              then Inl (PANIC ''promote last table max_lsn'')
              else Inr (LOG_INDEX_MEM_TBL_TID table \<le> pi_old_rw_saved_max_tid info)
         else Inr False)"

section \<open>Getting an active table\<close>

definition log_index_force_save_table :: "logindex_params \<Rightarrow> log_index_snapshot \<Rightarrow> nat \<Rightarrow> log_index_snapshot result" where
  "log_index_force_save_table lp s mid =
     rbind (LOG_INDEX_MEM_TBL s mid) (\<lambda>table.
     if \<not> polar_logindex_check_state s POLAR_LOGINDEX_STATE_WRITABLE
     then
       let (ok, meta) = log_index_get_meta lp s; s = s\<lparr>sn_meta := meta\<rparr>
       in if \<not> ok then Inl (FATAL ''Failed to get logindex meta from storage'')
          else if lm_max_idx_table_id meta \<ge> LOG_INDEX_MEM_TBL_TID table
          then put_mem_table s mid (table\<lparr>mt_state := STATE_FLUSHED\<rparr>)
          else Inr s
     else if lp_table_flushable lp table
     then
       rbind (log_index_table_saved_before_promote s table) (\<lambda>saved.
       if saved then put_mem_table s mid (table\<lparr>mt_state := STATE_FLUSHED\<rparr>)
       else
         rbind (log_index_write_table lp s mid) (\<lambda>(succeed, s).
         if \<not> succeed then Inl (FATAL ''Failed to save logindex table'') else Inr s))
     else Inr s)"

text \<open>One round of \<open>log_index_wait_active\<close>: whether the table can be used, and the snapshot.\<close>

definition wait_active_round :: "logindex_params \<Rightarrow> log_index_snapshot \<Rightarrow> nat \<Rightarrow> XLogRecPtr \<Rightarrow> (bool \<times> log_index_snapshot) result" where
  "wait_active_round lp s mid lsn =
     rbind (LOG_INDEX_MEM_TBL s mid) (\<lambda>table.
     rbind (if mt_state table = STATE_INACTIVE then log_index_force_save_table lp s mid else Inr s) (\<lambda>s.
     rbind (LOG_INDEX_MEM_TBL s mid) (\<lambda>table.
     let table = (if mt_state table = STATE_FLUSHED then mem_table_zero else table);
         (table, s) = (if mt_state table = STATE_FREE then LOG_INDEX_MEM_TBL_NEW_ACTIVE s table lsn else (table, s))
     in rbind (put_mem_table s mid table) (\<lambda>s.
        Inr (mt_state table = STATE_ACTIVE \<and> \<not> LOG_INDEX_MEM_TBL_FULL table, s)))))"

fun log_index_wait_active ::
  "nat \<Rightarrow> (nat \<Rightarrow> log_index_snapshot \<Rightarrow> log_index_snapshot) \<Rightarrow> logindex_params \<Rightarrow> log_index_snapshot \<Rightarrow> nat \<Rightarrow> XLogRecPtr
     \<Rightarrow> log_index_snapshot result" where
  "log_index_wait_active 0 other lp s mid lsn = Inl NoReturn"
| "log_index_wait_active (Suc r) other lp s mid lsn =
     rbind (wait_active_round lp s mid lsn) (\<lambda>(done, s).
     if done then Inr s else log_index_wait_active r other lp (other r s) mid lsn)"

text \<open>
  The loop of \<open>log_index_next_free_seg\<close>: the number of the free cell, the active table, the
  snapshot. \<open>next_mem_id\<close> and \<open>active_table\<close> are the local variable and the output of the code.
\<close>

fun next_free_seg_loop ::
  "nat \<Rightarrow> nat \<Rightarrow> (nat \<Rightarrow> log_index_snapshot \<Rightarrow> log_index_snapshot) \<Rightarrow> logindex_params \<Rightarrow> log_index_snapshot \<Rightarrow> XLogRecPtr
     \<Rightarrow> nat option \<Rightarrow> nat \<Rightarrow> (nat \<times> nat \<times> log_index_snapshot) result" where
  "next_free_seg_loop 0 r other lp s lsn next_mem_id active_table = Inl NoReturn"
| "next_free_seg_loop (Suc n) r other lp s lsn next_mem_id active_table =
     (let active = sn_active_table s
      in rbind (LOG_INDEX_MEM_TBL s active) (\<lambda>t.
         if mt_state t = STATE_ACTIVE \<and> LOG_INDEX_MEM_TBL_IS_NEW t
         then rbind (put_mem_table s active (t\<lparr>mt_data := (mt_data t)\<lparr>td_prefix_lsn := LOG_INDEX_PREFIX_LSN lsn\<rparr>,
                mt_free_head := mt_free_head t + 1\<rparr>)) (\<lambda>s. Inr (mt_free_head t, active_table, s))
         else if mt_state t = STATE_ACTIVE \<and> \<not> (LOG_INDEX_MEM_TBL_FULL t \<or> \<not> LOG_INDEX_SAME_TABLE_LSN_PREFIX (mt_data t) lsn)
         then rbind (put_mem_table s active (t\<lparr>mt_free_head := mt_free_head t + 1\<rparr>)) (\<lambda>s. Inr (mt_free_head t, active_table, s))
         else
           rbind (if mt_state t = STATE_ACTIVE
                  then rbind (put_mem_table s active (t\<lparr>mt_state := STATE_INACTIVE\<rparr>)) (\<lambda>s.
                       Inr (Some (LOOP_NEXT_VALUE active (sn_mem_tbl_size s)), s))
                  else Inr (next_mem_id, s)) (\<lambda>(next_mem_id, s).
           let (active, active_table) = (case next_mem_id of None \<Rightarrow> (active, active_table) | Some m \<Rightarrow> (m, m))
           in rbind (log_index_wait_active r other lp s active lsn) (\<lambda>s.
              let s = (case next_mem_id of None \<Rightarrow> s | Some m \<Rightarrow> s\<lparr>sn_active_table := m\<rparr>)
              in next_free_seg_loop n r other lp s lsn next_mem_id active_table))))"

definition log_index_next_free_seg ::
  "nat \<Rightarrow> (nat \<Rightarrow> log_index_snapshot \<Rightarrow> log_index_snapshot) \<Rightarrow> logindex_params \<Rightarrow> log_index_snapshot \<Rightarrow> XLogRecPtr \<Rightarrow> nat
     \<Rightarrow> (nat \<times> nat \<times> log_index_snapshot) result" where
  "log_index_next_free_seg r other lp s lsn active_table = next_free_seg_loop (Suc (Suc r)) r other lp s lsn None active_table"

section \<open>Adding an LSN\<close>

text \<open>The LSN bounds of the active table and of the snapshot after an LSN was added.\<close>

definition insert_lsn_bounds :: "log_index_snapshot \<Rightarrow> nat \<Rightarrow> log_mem_table \<Rightarrow> XLogRecPtr \<Rightarrow> log_index_snapshot result" where
  "insert_lsn_bounds s active t lsn =
     (let data = mt_data t;
          data = data\<lparr>td_max_lsn := max lsn (td_max_lsn data), td_min_lsn := min lsn (td_min_lsn data)\<rparr>
      in rbind (put_mem_table s active (t\<lparr>mt_data := data\<rparr>)) (\<lambda>s. Inr (s\<lparr>sn_max_lsn := td_max_lsn data\<rparr>)))"

definition log_index_insert_lsn ::
  "nat \<Rightarrow> (nat \<Rightarrow> log_index_snapshot \<Rightarrow> log_index_snapshot) \<Rightarrow> logindex_params \<Rightarrow> log_index_snapshot \<Rightarrow> log_index_lsn \<Rightarrow> nat
     \<Rightarrow> log_index_snapshot result" where
  "log_index_insert_lsn r other lp s lsn_info key =
     (let active = sn_active_table s
      in rbind (LOG_INDEX_MEM_TBL s active) (\<lambda>t.
         rbind (if mt_state t = STATE_ACTIVE \<and> LOG_INDEX_SAME_TABLE_LSN_PREFIX (mt_data t) (li_lsn lsn_info)
                then log_index_mem_tbl_exists_page (li_tag lsn_info) (mt_data t) key
                else Inr LOG_INDEX_TBL_INVALID_SEG) (\<lambda>head.
         let new_item = (head = LOG_INDEX_TBL_INVALID_SEG)
         in rbind (if new_item then Inr True else log_index_mem_seg_full (mt_data t) head) (\<lambda>full.
            if \<not> new_item \<and> \<not> full
            then rbind (insert_lsn_append (mt_data t) head lsn_info) (\<lambda>data.
                 insert_lsn_bounds s active (t\<lparr>mt_data := data\<rparr>) (li_lsn lsn_info))
            else
              let old_active = active
              in rbind (log_index_next_free_seg r other lp s (li_lsn lsn_info) active) (\<lambda>(dst, active, s).
                 rbind (LOG_INDEX_MEM_TBL s active) (\<lambda>t.
                 rbind (insert_lsn_new (mt_data t) key (new_item \<or> active \<noteq> old_active) head dst lsn_info) (\<lambda>data.
                 insert_lsn_bounds s active (t\<lparr>mt_data := data\<rparr>) (li_lsn lsn_info))))))))"

text \<open>The loop of \<open>log_index_exists_in_saved_table\<close>, from order \<open>i - 1\<close> down.\<close>

fun exists_in_saved_loop :: "log_idx_table_data \<Rightarrow> log_index_lsn \<Rightarrow> nat \<Rightarrow> bool result" where
  "exists_in_saved_loop table lsn_info 0 = Inr False"
| "exists_in_saved_loop table lsn_info (Suc i) =
     rbind (log_index_get_order_lsn table i) (\<lambda>lsn.
     rbind (log_index_order_lsn_info table i) (\<lambda>saved.
     if lsn \<noteq> li_lsn lsn_info then Inr False
     else if (case saved of None \<Rightarrow> tag_zeros | Some a \<Rightarrow> li_tag a) = li_tag lsn_info then Inr True
     else exists_in_saved_loop table lsn_info i))"

definition log_index_exists_in_saved_table :: "log_index_snapshot \<Rightarrow> log_index_lsn \<Rightarrow> bool result" where
  "log_index_exists_in_saved_table s lsn_info =
     rbind (LOG_INDEX_MEM_TBL s (LOOP_PREV_VALUE (sn_active_table s) (sn_mem_tbl_size s))) (\<lambda>table.
     if mt_state table \<noteq> STATE_FLUSHED then Inr False
     else exists_in_saved_loop (mt_data table) lsn_info (td_last_order (mt_data table)))"

definition polar_logindex_add_lsn ::
  "nat \<Rightarrow> (nat \<Rightarrow> log_index_snapshot \<Rightarrow> log_index_snapshot) \<Rightarrow> logindex_params \<Rightarrow> log_index_snapshot \<Rightarrow> BufferTag
     \<Rightarrow> XLogRecPtr \<Rightarrow> XLogRecPtr \<Rightarrow> log_index_snapshot result" where
  "polar_logindex_add_lsn r other lp s tag prev lsn =
     (let key = LOG_INDEX_MEM_TBL_HASH_PAGE (lp_tag_hash lp) tag; meta = sn_meta s;
          lsn_info = \<lparr>li_tag = tag, li_lsn = lsn, li_prev_lsn = prev\<rparr>
      in if polar_logindex_check_state s POLAR_LOGINDEX_STATE_ADDING then log_index_insert_lsn r other lp s lsn_info key
         else if lsn < lm_start_lsn meta then Inr s
         else if lsn < lm_max_lsn meta then Inr s
         else
           rbind (if lm_max_lsn meta = lsn then log_index_exists_in_saved_table s lsn_info else Inr False) (\<lambda>exists.
           if exists then Inr s
           else log_index_insert_lsn r other lp (s\<lparr>sn_state := sn_state s OR POLAR_LOGINDEX_STATE_ADDING\<rparr>) lsn_info key))"

section \<open>Flushing\<close>

text \<open>
  One round of \<open>log_index_flush_table\<close> on the table \<open>mid\<close>: whether the loop is left because
  nothing changed, how many tables were flushed, the snapshot.
\<close>

definition flush_table_round ::
  "logindex_params \<Rightarrow> log_index_snapshot \<Rightarrow> bool \<Rightarrow> nat \<Rightarrow> nat \<Rightarrow> (bool \<times> nat \<times> log_index_snapshot) result" where
  "flush_table_round lp s flush_active mid flushed =
     rbind (LOG_INDEX_MEM_TBL s mid) (\<lambda>table.
     if mt_state table = STATE_INACTIVE
        \<or> (flush_active \<and> mt_state table = STATE_ACTIVE \<and> \<not> LOG_INDEX_MEM_TBL_IS_NEW table)
     then
       if flush_active \<and> mt_state table = STATE_ACTIVE \<and> sn_last_flush_max_lsn s = td_max_lsn (mt_data table)
          \<and> \<not> LOG_INDEX_MEM_TBL_IS_NEW table
       then Inr (True, flushed, s)
       else if lp_table_flushable lp table
       then
         rbind (log_index_table_saved_before_promote s table) (\<lambda>saved.
         rbind (if saved then Inr (True, s) else log_index_write_table lp s mid) (\<lambda>(succeed, s).
         if succeed
         then
           rbind (LOG_INDEX_MEM_TBL s mid) (\<lambda>table.
           rbind (if mt_state table = STATE_INACTIVE then put_mem_table s mid (table\<lparr>mt_state := STATE_FLUSHED\<rparr>) else Inr s) (\<lambda>s.
           Inr (False, flushed + 1,
                if flush_active then s\<lparr>sn_last_flush_max_lsn := td_max_lsn (mt_data table)\<rparr> else s)))
         else Inr (False, flushed, s)))
       else Inr (False, flushed, s)
     else Inr (False, flushed, s))"

text \<open>Whether there is more to flush, from the active table and the meta data.\<close>

definition flush_needed :: "logindex_params \<Rightarrow> log_index_snapshot \<Rightarrow> XLogRecPtr \<Rightarrow> nat \<Rightarrow> log_mem_table \<Rightarrow> bool" where
  "flush_needed lp s checkpoint_lsn flushed table \<longleftrightarrow>
     LOG_INDEX_MEM_TBL_TID table > lm_max_idx_table_id (sn_meta s) + 1
     \<and> (if checkpoint_lsn = InvalidXLogRecPtr then flushed < lp_table_batch_size lp
        else checkpoint_lsn > lm_max_lsn (sn_meta s)
             \<and> \<not> (checkpoint_lsn \<ge> td_min_lsn (mt_data table) \<and> checkpoint_lsn \<le> td_max_lsn (mt_data table)))"

fun flush_table_loop ::
  "nat \<Rightarrow> (nat \<Rightarrow> log_index_snapshot \<Rightarrow> log_index_snapshot) \<Rightarrow> logindex_params \<Rightarrow> log_index_snapshot \<Rightarrow> XLogRecPtr \<Rightarrow> bool \<Rightarrow> nat \<Rightarrow> nat
     \<Rightarrow> (bool \<times> log_index_snapshot) result" where
  "flush_table_loop 0 other lp s checkpoint_lsn flush_active mid flushed = Inl NoReturn"
| "flush_table_loop (Suc r) other lp s checkpoint_lsn flush_active mid flushed =
     rbind (flush_table_round lp s flush_active mid flushed) (\<lambda>(stop, flushed, s).
     if stop then Inr (True, s)
     else
       rbind (LOG_INDEX_MEM_TBL s (sn_active_table s)) (\<lambda>table.
       let mid = lm_max_idx_table_id (sn_meta s) mod sn_mem_tbl_size s
       in if flush_needed lp s checkpoint_lsn flushed table
          then flush_table_loop r other lp (other r s) checkpoint_lsn flush_active mid flushed
          else Inr (\<not> LOG_INDEX_MEM_TBL_TID table > lm_max_idx_table_id (sn_meta s) + 1, s)))"

definition log_index_flush_table ::
  "nat \<Rightarrow> (nat \<Rightarrow> log_index_snapshot \<Rightarrow> log_index_snapshot) \<Rightarrow> logindex_params \<Rightarrow> log_index_snapshot \<Rightarrow> XLogRecPtr \<Rightarrow> bool
     \<Rightarrow> (bool \<times> log_index_snapshot) result" where
  "log_index_flush_table r other lp s checkpoint_lsn flush_active =
     flush_table_loop r other lp s checkpoint_lsn flush_active (lm_max_idx_table_id (sn_meta s) mod sn_mem_tbl_size s) 0"

definition log_index_rw_bg_write ::
  "nat \<Rightarrow> (nat \<Rightarrow> log_index_snapshot \<Rightarrow> log_index_snapshot) \<Rightarrow> logindex_params \<Rightarrow> log_index_snapshot \<Rightarrow> (bool \<times> log_index_snapshot) result" where
  "log_index_rw_bg_write r other lp s = log_index_flush_table r other lp s InvalidXLogRecPtr False"

definition polar_logindex_flush_table ::
  "nat \<Rightarrow> (nat \<Rightarrow> log_index_snapshot \<Rightarrow> log_index_snapshot) \<Rightarrow> logindex_params \<Rightarrow> log_index_snapshot \<Rightarrow> XLogRecPtr
     \<Rightarrow> log_index_snapshot result" where
  "polar_logindex_flush_table r other lp s checkpoint_lsn =
     rbind (log_index_flush_table r other lp s checkpoint_lsn False) (\<lambda>(done, s). Inr s)"

definition polar_logindex_flush_active_table ::
  "nat \<Rightarrow> (nat \<Rightarrow> log_index_snapshot \<Rightarrow> log_index_snapshot) \<Rightarrow> logindex_params \<Rightarrow> log_index_snapshot \<Rightarrow> log_index_snapshot result" where
  "polar_logindex_flush_active_table r other lp s =
     rbind (log_index_flush_table r other lp s InvalidXLogRecPtr True) (\<lambda>(done, s). Inr s)"

section \<open>Replicas\<close>

fun update_ro_loop :: "nat \<Rightarrow> log_index_snapshot \<Rightarrow> nat \<Rightarrow> nat \<Rightarrow> log_index_snapshot result" where
  "update_ro_loop 0 s max_saved_tid mid = Inl NoReturn"
| "update_ro_loop (Suc n) s max_saved_tid mid =
     rbind (LOG_INDEX_MEM_TBL s mid) (\<lambda>table.
     if mt_state table = STATE_INACTIVE
     then
       rbind (if LOG_INDEX_MEM_TBL_TID table \<le> max_saved_tid then put_mem_table s mid (table\<lparr>mt_state := STATE_FLUSHED\<rparr>) else Inr s)
         (\<lambda>s. update_ro_loop n s max_saved_tid (LOOP_PREV_VALUE mid (sn_mem_tbl_size s)))
     else Inr s)"

definition log_index_update_ro_table_state :: "log_index_snapshot \<Rightarrow> nat \<Rightarrow> log_index_snapshot result" where
  "log_index_update_ro_table_state s max_saved_tid =
     (if max_saved_tid = LOG_INDEX_TABLE_INVALID_ID then Inr s
      else update_ro_loop (Suc (sn_mem_tbl_size s)) s max_saved_tid (mid_of_tid s max_saved_tid))"

definition log_index_ro_bg_write :: "logindex_params \<Rightarrow> log_index_snapshot \<Rightarrow> (bool \<times> log_index_snapshot) result" where
  "log_index_ro_bg_write lp s =
     (if sn_max_idx_table_id s = sn_last_max_table_id s then Inr (True, s)
      else
        let s = s\<lparr>sn_last_max_table_id := sn_max_idx_table_id s\<rparr>;
            (ok, meta) = log_index_get_meta lp s; s = s\<lparr>sn_meta := meta\<rparr>
        in rbind (log_index_update_ro_table_state s (if ok then lm_max_idx_table_id meta else LOG_INDEX_TABLE_INVALID_ID)) (\<lambda>s.
           Inr (True, s)))"

definition polar_logindex_bg_write ::
  "nat \<Rightarrow> (nat \<Rightarrow> log_index_snapshot \<Rightarrow> log_index_snapshot) \<Rightarrow> logindex_params \<Rightarrow> log_index_snapshot \<Rightarrow> (bool \<times> log_index_snapshot) result" where
  "polar_logindex_bg_write r other lp s =
     (if polar_logindex_check_state s POLAR_LOGINDEX_STATE_ADDING
      then if \<not> polar_logindex_check_state s POLAR_LOGINDEX_STATE_WRITABLE then log_index_ro_bg_write lp s
           else log_index_rw_bg_write r other lp s
      else Inr (True, s))"

definition polar_logindex_online_promote :: "logindex_params \<Rightarrow> log_index_snapshot \<Rightarrow> log_index_snapshot result" where
  "polar_logindex_online_promote lp s =
     (let (ok, meta) = log_index_get_meta lp s
      in if \<not> ok then Inl (FATAL ''Failed to read logindex meta from shared storage'')
         else log_index_update_ro_table_state
                (s\<lparr>sn_meta := meta,
                   sn_promoted_info := (sn_promoted_info s)\<lparr>pi_old_rw_saved_max_lsn := lm_max_lsn meta,
                     pi_old_rw_saved_max_tid := lm_max_idx_table_id meta, pi_old_rw_max_tid := lm_max_idx_table_id meta\<rparr>,
                   sn_state := sn_state s OR POLAR_LOGINDEX_STATE_WRITABLE\<rparr>) (lm_max_idx_table_id meta))"

definition polar_logindex_update_promoted_info :: "log_index_snapshot \<Rightarrow> XLogRecPtr \<Rightarrow> log_index_snapshot" where
  "polar_logindex_update_promoted_info s last_replayed_lsn =
     s\<lparr>sn_promoted_info := (sn_promoted_info s)\<lparr>pi_old_rw_max_inserted_lsn := last_replayed_lsn,
         pi_old_rw_max_tid := sn_max_idx_table_id s\<rparr>\<rparr>"

definition polar_logindex_check_valid_start_lsn ::
  "logindex_params \<Rightarrow> bool \<Rightarrow> log_index_snapshot \<Rightarrow> (XLogRecPtr \<times> log_index_snapshot) result" where
  "polar_logindex_check_valid_start_lsn lp recovery_consistent s =
     (if lm_start_lsn (sn_meta s) \<noteq> InvalidXLogRecPtr then Inr (lm_start_lsn (sn_meta s), s)
      else if recovery_consistent \<and> \<not> polar_logindex_check_state s POLAR_LOGINDEX_STATE_WRITABLE
      then let (ok, meta) = log_index_get_meta lp s
           in if ok then Inr (lm_start_lsn meta, s\<lparr>sn_meta := meta\<rparr>)
              else Inl (FATAL ''Failed to read logindex meta from shared storage'')
      else Inr (InvalidXLogRecPtr, s))"

definition polar_logindex_used_mem_tbl_size :: "log_index_snapshot option \<Rightarrow> uint64" where
  "polar_logindex_used_mem_tbl_size s =
     (case s of None \<Rightarrow> 0 | Some s \<Rightarrow> of_nat (sn_max_idx_table_id s) - of_nat (lm_max_idx_table_id (sn_meta s)))"

section \<open>Starting from storage\<close>

text \<open>The loop over the saved tables, from \<open>tid\<close> down to \<open>min_tid\<close>; \<open>table\<close> is the static buffer.\<close>

fun load_tables ::
  "nat \<Rightarrow> logindex_params \<Rightarrow> log_index_snapshot \<Rightarrow> XLogRecPtr \<Rightarrow> nat \<Rightarrow> nat \<Rightarrow> log_idx_table_data \<Rightarrow> (log_idx_table_data \<times> log_index_snapshot) result" where
  "load_tables 0 lp s start_lsn min_tid tid table = Inl NoReturn"
| "load_tables (Suc n) lp s start_lsn min_tid tid table =
     (if tid \<ge> min_tid
      then
        let mid = mid_of_tid s tid;
            table = (case log_index_read_table_data lp s tid of Inl e \<Rightarrow> table | Inr t \<Rightarrow> t)
        in rbind (put_mem_table s mid \<lparr>mt_free_head = LOG_INDEX_MEM_TBL_SEG_NUM, mt_state = STATE_FLUSHED, mt_data = table\<rparr>) (\<lambda>s.
           if start_lsn \<noteq> InvalidXLogRecPtr \<and> start_lsn \<ge> td_min_lsn table then Inr (table, s)
           else load_tables n lp s start_lsn min_tid (tid_pred tid) table)
      else Inr (table, s))"

text \<open>The loop that finds the first free cell of a table that was read from storage.\<close>

fun advance_free_head :: "nat \<Rightarrow> log_mem_table \<Rightarrow> log_mem_table result" where
  "advance_free_head 0 t = Inl NoReturn"
| "advance_free_head (Suc n) t =
     (if LOG_INDEX_MEM_TBL_FULL t then Inr t
      else
        rbind (log_index_item_seg (mt_data t) (mt_free_head t)) (\<lambda>item.
        case item of None \<Rightarrow> Inr t
        | Some c \<Rightarrow> if cell_head_seg c = LOG_INDEX_TBL_INVALID_SEG then Inr t
                    else advance_free_head n (t\<lparr>mt_free_head := mt_free_head t + 1\<rparr>)))"

text \<open>The tables to load: from the largest to the smallest number, and the snapshot.\<close>

definition load_range ::
  "nat \<Rightarrow> (nat \<Rightarrow> log_index_snapshot \<Rightarrow> log_index_snapshot) \<Rightarrow> logindex_params \<Rightarrow> log_index_snapshot \<Rightarrow> (nat \<times> nat \<times> log_index_snapshot) result" where
  "load_range r other lp s =
     (let new_max = lm_max_idx_table_id (sn_meta s); min_seg_tid = fs_min_idx_table_id (lm_min_segment_info (sn_meta s))
      in if \<not> polar_logindex_check_state s POLAR_LOGINDEX_STATE_INITIALIZED
         then
           let min_tid = (if new_max > sn_mem_tbl_size s then max (new_max - sn_mem_tbl_size s + 1) min_seg_tid else min_seg_tid)
           in Inr (new_max, if min_tid = LOG_INDEX_TABLE_INVALID_ID then new_max else min_tid, s)
         else
           rbind (LOG_INDEX_MEM_TBL s (sn_active_table s)) (\<lambda>active.
           rbind (if LOG_INDEX_MEM_TBL_TID active = LOG_INDEX_TABLE_INVALID_ID
                  then log_index_wait_active r other lp s (sn_active_table s) InvalidXLogRecPtr else Inr s) (\<lambda>s.
           rbind (LOG_INDEX_MEM_TBL s (sn_active_table s)) (\<lambda>active.
           let min_tid = LOG_INDEX_MEM_TBL_TID active
           in Inr (min new_max (min_tid + sn_mem_tbl_size s - 1), min_tid, s)))))"

text \<open>The end of loading: the active table is read again, and its first free cell is found.\<close>

definition load_active :: "logindex_params \<Rightarrow> log_index_snapshot \<Rightarrow> log_index_snapshot result" where
  "load_active lp s =
     rbind (LOG_INDEX_MEM_TBL s (sn_active_table s)) (\<lambda>active.
     case log_index_read_table_data lp s (LOG_INDEX_MEM_TBL_TID active) of
       Inl e \<Rightarrow> Inr s
     | Inr table \<Rightarrow>
         if td_idx_table_id table = LOG_INDEX_MEM_TBL_TID active
         then
           let active = (if td_max_lsn table > td_max_lsn (mt_data active) then active\<lparr>mt_data := table\<rparr> else active);
               s = s\<lparr>sn_max_idx_table_id := LOG_INDEX_MEM_TBL_TID active, sn_max_lsn := td_max_lsn (mt_data active)\<rparr>
           in rbind (advance_free_head (Suc (Suc LOG_INDEX_MEM_TBL_SEG_NUM)) active) (\<lambda>active.
              put_mem_table s (sn_active_table s) active)
         else Inr s)"

definition polar_load_logindex_snapshot_from_storage ::
  "nat \<Rightarrow> (nat \<Rightarrow> log_index_snapshot \<Rightarrow> log_index_snapshot) \<Rightarrow> logindex_params \<Rightarrow> log_idx_table_data \<Rightarrow> log_index_snapshot \<Rightarrow> XLogRecPtr
     \<Rightarrow> log_index_snapshot result" where
  "polar_load_logindex_snapshot_from_storage r other lp buffer s start_lsn =
     (let initialized = polar_logindex_check_state s POLAR_LOGINDEX_STATE_INITIALIZED;
          (ok, meta) = log_index_get_meta lp s; s = s\<lparr>sn_meta := meta\<rparr>
      in if \<not> ok \<or> lm_max_idx_table_id meta = LOG_INDEX_TABLE_INVALID_ID then Inr s
         else
           rbind (load_range r other lp s) (\<lambda>(new_max, min_tid, s).
           rbind (if new_max \<ge> min_tid
                  then
                    rbind (load_tables (Suc (Suc new_max)) lp s start_lsn min_tid new_max buffer) (\<lambda>(table, s).
                    rbind (LOG_INDEX_MEM_TBL s (mid_of_tid s new_max)) (\<lambda>old_active.
                    let s = s\<lparr>sn_max_idx_table_id := new_max, sn_max_lsn := td_max_lsn (mt_data old_active),
                              sn_active_table := new_max mod sn_mem_tbl_size s\<rparr>
                    in log_index_wait_active r other lp s (sn_active_table s) InvalidXLogRecPtr))
                  else Inr s) (\<lambda>s.
           if \<not> initialized then Inr s else load_active lp s)))"

definition logindex_snapshot_init_promoted_info :: log_index_promoted_info where
  "logindex_snapshot_init_promoted_info = \<lparr>pi_old_rw_saved_max_lsn = InvalidXLogRecPtr,
     pi_old_rw_saved_max_tid = LOG_INDEX_TABLE_INVALID_ID, pi_old_rw_max_inserted_lsn = InvalidXLogRecPtr,
     pi_old_rw_max_tid = LOG_INDEX_TABLE_INVALID_ID\<rparr>"

definition polar_logindex_snapshot_remove_data :: "log_index_snapshot \<Rightarrow> log_index_snapshot" where
  "polar_logindex_snapshot_remove_data s =
     (if \<not> polar_logindex_check_state s POLAR_LOGINDEX_STATE_WRITABLE then s
      else s\<lparr>sn_meta_file := None, sn_files := (\<lambda>_. None), sn_blooms := (\<lambda>_. None)\<rparr>)"

definition polar_logindex_snapshot_base_init ::
  "nat \<Rightarrow> (nat \<Rightarrow> log_index_snapshot \<Rightarrow> log_index_snapshot) \<Rightarrow> logindex_params \<Rightarrow> log_idx_table_data \<Rightarrow> log_index_snapshot \<Rightarrow> XLogRecPtr
     \<Rightarrow> (XLogRecPtr \<times> log_index_snapshot) result" where
  "polar_logindex_snapshot_base_init r other lp buffer s checkpoint_lsn =
     (let (ok, meta) = log_index_get_meta lp s;
          s = (if \<not> ok then polar_logindex_snapshot_remove_data s else s);
          meta = (if \<not> ok then meta_zero else meta);
          s = s\<lparr>sn_meta := meta, sn_promoted_info := logindex_snapshot_init_promoted_info,
                sn_max_idx_table_id := lm_max_idx_table_id meta,
                sn_active_table := lm_max_idx_table_id meta mod sn_mem_tbl_size s, sn_max_lsn := lm_max_lsn meta,
                sn_mem_table := replicate (sn_mem_tbl_size s) mem_table_zero\<rparr>;
          start_lsn = (if lm_start_lsn meta \<noteq> InvalidXLogRecPtr \<and> lm_start_lsn meta < checkpoint_lsn
                       then lm_start_lsn meta else checkpoint_lsn)
      in rbind (polar_load_logindex_snapshot_from_storage r other lp buffer s checkpoint_lsn) (\<lambda>s.
         Inr (start_lsn, s\<lparr>sn_state := sn_state s OR POLAR_LOGINDEX_STATE_INITIALIZED\<rparr>)))"

definition polar_logindex_snapshot_init ::
  "nat \<Rightarrow> (nat \<Rightarrow> log_index_snapshot \<Rightarrow> log_index_snapshot) \<Rightarrow> logindex_params \<Rightarrow> log_idx_table_data \<Rightarrow> log_index_snapshot \<Rightarrow> XLogRecPtr
     \<Rightarrow> bool \<Rightarrow> (XLogRecPtr \<times> log_index_snapshot) result" where
  "polar_logindex_snapshot_init r other lp buffer s checkpoint_lsn read_only =
     polar_logindex_snapshot_base_init r other lp buffer
       (if \<not> read_only then s\<lparr>sn_state := sn_state s OR POLAR_LOGINDEX_STATE_WRITABLE\<rparr> else s) checkpoint_lsn"

end
