(* ===== verification/Logindex_Bloom.thy ===== *)
theory Logindex_Bloom
  imports Logindex_Snapshot
begin

text \<open>
  The Bloom data that is computed when a logindex table is written: no page of the table is
  missing in the filter, and the LSN bounds are those of the table's records.
\<close>

section \<open>One step\<close>

text \<open>
  The filter and the bounds \<open>b'\<close> after the heads \<open>hs\<close> were added to \<open>b\<close>; \<open>mx\<close>, \<open>mn\<close> and \<open>tg\<close>
  are the largest LSN, the smallest LSN and the page of a head.
\<close>

definition bloom_step ::
  "(BufferTag \<Rightarrow> uint64 \<Rightarrow> uint64) \<Rightarrow> (nat \<Rightarrow> XLogRecPtr) \<Rightarrow> (nat \<Rightarrow> XLogRecPtr) \<Rightarrow> (nat \<Rightarrow> BufferTag) \<Rightarrow> nat set
     \<Rightarrow> log_file_table_bloom \<Rightarrow> log_file_table_bloom \<Rightarrow> bool" where
  "bloom_step hash mx mn tg hs b b' \<longleftrightarrow>
     fb_idx_table_id b' = fb_idx_table_id b \<and> fb_buf_size b' = fb_buf_size b
     \<and> bloom_le (fb_filter b) (fb_filter b')
     \<and> (\<forall>h \<in> hs. bits_set (k_hashes hash (fb_filter b) (tg h)) (bf_bitset (fb_filter b')))
     \<and> fb_max_lsn b \<le> fb_max_lsn b' \<and> (\<forall>h \<in> hs. mx h \<le> fb_max_lsn b')
     \<and> (fb_max_lsn b' = fb_max_lsn b \<or> fb_max_lsn b' \<in> mx ` hs)
     \<and> fb_min_lsn b' \<le> fb_min_lsn b \<and> (\<forall>h \<in> hs. fb_min_lsn b' \<le> mn h)
     \<and> (fb_min_lsn b' = fb_min_lsn b \<or> fb_min_lsn b' \<in> mn ` hs)"

lemma bloom_le_hashes: "bloom_le f f' \<Longrightarrow> k_hashes hash f' = k_hashes hash f"
  unfolding bloom_le_def by (intro k_hashes_cong) simp_all

lemma bloom_step_refl: "bloom_step hash mx mn tg {} b b"
  by (simp add: bloom_step_def bloom_le_def)

lemma bloom_step_trans:
  assumes "bloom_step hash mx mn tg A b c" "bloom_step hash mx mn tg B c d"
  shows "bloom_step hash mx mn tg (A \<union> B) b d"
proof -
  have 1: "bloom_le (fb_filter b) (fb_filter c)" "bloom_le (fb_filter c) (fb_filter d)"
    using assms unfolding bloom_step_def by blast+
  have "bits_set (k_hashes hash (fb_filter b) (tg h)) (bf_bitset (fb_filter d))" if "h \<in> A \<union> B" for h
    using that
  proof
    assume "h \<in> A"
    then have "bits_set (k_hashes hash (fb_filter b) (tg h)) (bf_bitset (fb_filter c))" using assms(1) unfolding bloom_step_def by blast
    then show ?thesis by (rule bloom_le_bits [OF 1(2)])
  next
    assume "h \<in> B"
    then show ?thesis using assms(2) bloom_le_hashes [OF 1(1), of hash] unfolding bloom_step_def by simp
  qed
  moreover have "bloom_le (fb_filter b) (fb_filter d)" using bloom_le_trans [OF 1] .
  moreover have "fb_max_lsn b \<le> fb_max_lsn d" "fb_min_lsn d \<le> fb_min_lsn b" using assms unfolding bloom_step_def by (meson order_trans)+
  moreover have "\<forall>h \<in> A \<union> B. mx h \<le> fb_max_lsn d" "\<forall>h \<in> A \<union> B. fb_min_lsn d \<le> mn h"
    using assms unfolding bloom_step_def by (meson Un_iff order_trans)+
  moreover have "fb_max_lsn d = fb_max_lsn b \<or> fb_max_lsn d \<in> mx ` (A \<union> B)" "fb_min_lsn d = fb_min_lsn b \<or> fb_min_lsn d \<in> mn ` (A \<union> B)"
    using assms unfolding bloom_step_def image_Un by (metis Un_iff)+
  ultimately show ?thesis using assms unfolding bloom_step_def by simp
qed

lemma bloom_step_ok: "bloom_step hash mx mn tg A b c \<Longrightarrow> bloom_ok (fb_filter b) \<Longrightarrow> bloom_ok (fb_filter c)"
  unfolding bloom_step_def using bloom_le_ok by blast

section \<open>Hash chains\<close>

lemma calc_bloom_chain_step:
  assumes "length (td_segment t) = LOG_INDEX_MEM_TBL_SEG_NUM"
    and "bucket (td_segment t) i xs" "length xs < n"
    and "\<And>h. h \<in> set xs \<Longrightarrow> h \<le> LOG_INDEX_MEM_TBL_SEG_NUM \<and> is_head (cell_at (td_segment t) h)
      \<and> log_index_item_max_lsn t (hd_of (cell_at (td_segment t) h)) = Inr (mx h)
      \<and> LOG_INDEX_SEG_MIN_LSN t (ih_suffix_lsn (hd_of (cell_at (td_segment t) h))) = Inr (mn h)"
    and "bloom_ok (fb_filter b)"
  shows "\<exists>b'. rbind (log_index_item_head t i) (\<lambda>item. calc_bloom_chain n lp t item b) = Inr b'
     \<and> bloom_step (lp_hash_any lp) mx mn (tag_of (td_segment t)) (set xs) b b'"
  using assms(2-5)
proof (induction n arbitrary: i xs b)
  case (Suc n)
  show ?case
  proof (cases xs)
    case Nil
    then show ?thesis using Suc.prems by (simp add: log_index_item_head_def bloom_step_refl)
  next
    case (Cons x ys)
    with Suc.prems have x: "i = x" "0 < x" "x \<le> LOG_INDEX_MEM_TBL_SEG_NUM" "is_head (cell_at (td_segment t) x)"
      "log_index_item_max_lsn t (hd_of (cell_at (td_segment t) x)) = Inr (mx x)"
      "LOG_INDEX_SEG_MIN_LSN t (ih_suffix_lsn (hd_of (cell_at (td_segment t) x))) = Inr (mn x)" by simp_all
    let ?i = "hd_of (cell_at (td_segment t) x)"
    obtain f where f: "bloom_add_element (lp_hash_any lp) (fb_filter b) (ih_tag ?i) = Inr f" "bloom_le (fb_filter b) f"
      "bits_set (k_hashes (lp_hash_any lp) (fb_filter b) (ih_tag ?i)) (bf_bitset f)"
      using bloom_add_element_ok [OF Suc.prems(4)] by metis
    let ?b = "b\<lparr>fb_max_lsn := max (fb_max_lsn b) (mx x), fb_min_lsn := min (fb_min_lsn b) (mn x), fb_filter := f\<rparr>"
    have s1: "bloom_step (lp_hash_any lp) mx mn (tag_of (td_segment t)) {x} b ?b"
      using f(2,3) by (auto simp: bloom_step_def max_def min_def)
    have "\<exists>b'. rbind (log_index_item_head t (ih_next_item ?i)) (\<lambda>item. calc_bloom_chain n lp t item ?b) = Inr b'
        \<and> bloom_step (lp_hash_any lp) mx mn (tag_of (td_segment t)) (set ys) ?b b'"
      by (rule Suc.IH) (use Suc.prems Cons bloom_step_ok [OF s1 Suc.prems(4)] in simp_all)
    then obtain b' where b': "rbind (log_index_item_head t (ih_next_item ?i)) (\<lambda>item. calc_bloom_chain n lp t item ?b) = Inr b'"
      "bloom_step (lp_hash_any lp) mx mn (tag_of (td_segment t)) (set ys) ?b b'" by blast
    from bloom_step_trans [OF s1 b'(2)] Cons have "bloom_step (lp_hash_any lp) mx mn (tag_of (td_segment t)) (set xs) b b'" by simp
    then show ?thesis using b'(1) get_head_at(1) [OF assms(1) x(2-4)] x(1,5,6) f(1) by simp
  qed
qed simp

lemma calc_bloom_slots_step:
  assumes ok: "struct_ok key (td_segment t) (td_hash t) f H S B"
    and bounds: "\<And>h. h \<in> H \<Longrightarrow> log_index_item_max_lsn t (hd_of (cell_at (td_segment t) h)) = Inr (mx h)
      \<and> LOG_INDEX_SEG_MIN_LSN t (ih_suffix_lsn (hd_of (cell_at (td_segment t) h))) = Inr (mn h)"
    and keys: "\<And>k. k \<in> set ks \<Longrightarrow> k < LOG_INDEX_MEM_TBL_HASH_NUM" and b: "bloom_ok (fb_filter b)"
  shows "\<exists>b'. calc_bloom_slots ks lp t b = Inr b'
     \<and> bloom_step (lp_hash_any lp) mx mn (tag_of (td_segment t)) (\<Union>k \<in> set ks. set (B k)) b b'"
  using keys b
proof (induction ks arbitrary: b)
  case Nil then show ?case by (simp add: bloom_step_refl)
next
  case (Cons k ks)
  note D = struct_okD [OF ok]
  have k: "k < LOG_INDEX_MEM_TBL_HASH_NUM" using Cons.prems(1) by simp
  have sub: "h \<in> H" if "h \<in> set (B k)" for h using D(13) [OF k] that by simp
  note len = bucket_length [OF ok k]
  have "\<exists>b'. rbind (log_index_item_head t (td_hash t ! k)) (\<lambda>item. calc_bloom_chain (Suc LOG_INDEX_MEM_TBL_SEG_NUM) lp t item b) = Inr b'
     \<and> bloom_step (lp_hash_any lp) mx mn (tag_of (td_segment t)) (set (B k)) b b'"
  proof (rule calc_bloom_chain_step [OF D(1) D(11) [OF k] len _ Cons.prems(2)])
    fix h assume "h \<in> set (B k)"
    then have h: "h \<in> H" by (rule sub)
    then show "h \<le> LOG_INDEX_MEM_TBL_SEG_NUM \<and> is_head (cell_at (td_segment t) h)
      \<and> log_index_item_max_lsn t (hd_of (cell_at (td_segment t) h)) = Inr (mx h)
      \<and> LOG_INDEX_SEG_MIN_LSN t (ih_suffix_lsn (hd_of (cell_at (td_segment t) h))) = Inr (mn h)"
      using item_cells(3) [OF ok h, of h] item_okD(1) [OF D(8) [OF h]] bounds [OF h] by simp
  qed
  then obtain c where c: "rbind (log_index_item_head t (td_hash t ! k)) (\<lambda>item. calc_bloom_chain (Suc LOG_INDEX_MEM_TBL_SEG_NUM) lp t item b) = Inr c"
    "bloom_step (lp_hash_any lp) mx mn (tag_of (td_segment t)) (set (B k)) b c" by blast
  have slot: "(if td_hash t ! k \<noteq> 0 then rbind (log_index_item_head t (td_hash t ! k)) (\<lambda>item. calc_bloom_chain (Suc LOG_INDEX_MEM_TBL_SEG_NUM) lp t item b)
      else Inr b) = Inr c"
  proof (cases "td_hash t ! k = 0")
    case True then show ?thesis using c(1) by (simp add: log_index_item_head_def)
  qed (use c(1) in simp)
  obtain d where d: "calc_bloom_slots ks lp t c = Inr d"
    "bloom_step (lp_hash_any lp) mx mn (tag_of (td_segment t)) (\<Union>k \<in> set ks. set (B k)) c d"
    using Cons.IH [of c] Cons.prems(1) bloom_step_ok [OF c(2) Cons.prems(2)] by auto
  from bloom_step_trans [OF c(2) d(2)] have
    "bloom_step (lp_hash_any lp) mx mn (tag_of (td_segment t)) (\<Union>k \<in> set (k # ks). set (B k)) b d" by simp
  then show ?case using slot d(1) D(2) k by simp
qed

section \<open>The Bloom data of a table\<close>

lemma bloom_data_log:
  assumes log: "tbl_log key t f A" and key: "\<And>tag. key tag < LOG_INDEX_MEM_TBL_HASH_NUM"
  obtains b where "log_index_get_bloom_data lp t tid = Inr b" "fb_idx_table_id b = tid"
    "\<And>a. a \<in> set A \<Longrightarrow> bloom_lacks_element (lp_hash_any lp) (fb_filter b) (li_tag a) = Inr False"
    "\<And>a. a \<in> set A \<Longrightarrow> li_lsn (last (page_log (li_tag a) A)) \<le> fb_max_lsn b"
    "\<And>a. a \<in> set A \<Longrightarrow> fb_min_lsn b \<le> li_lsn (hd (page_log (li_tag a) A))"
    "fb_max_lsn b = 0 \<or> fb_max_lsn b \<in> li_lsn ` set A" "fb_min_lsn b = UINT64_MAX \<or> fb_min_lsn b \<in> li_lsn ` set A"
    "fb_buf_size b = LOG_INDEX_FILE_TBL_BLOOM_SIZE - 32" "bloom_init_struct (lp_rint_k lp) (bf_bitset (fb_filter b)) (fb_buf_size b) LOG_INDEX_BLOOM_ELEMS_NUM 0 = fb_filter b"
proof -
  obtain H S B where ok: "struct_ok key (td_segment t) (td_hash t) f H S B" and c: "content t H S A"
    using log unfolding tbl_log_def by blast
  note D = struct_okD [OF ok]
  let ?P = "\<lambda>h. page_log (tag_of (td_segment t) h) A"
  let ?mx = "\<lambda>h. li_lsn (last (?P h))" and ?mn = "\<lambda>h. li_lsn (hd (?P h))"
  have P: "?P h \<noteq> []" "set (?P h) \<subseteq> set A" if "h \<in> H" for h using content_page [OF ok c that] by (auto simp: page_log_def)
  have bounds: "log_index_item_max_lsn t (hd_of (cell_at (td_segment t) h)) = Inr (?mx h)
      \<and> LOG_INDEX_SEG_MIN_LSN t (ih_suffix_lsn (hd_of (cell_at (td_segment t) h))) = Inr (?mn h)" if "h \<in> H" for h
    using item_min_max [OF ok c that] by simp
  have "(\<Union>k \<in> set [0..<LOG_INDEX_MEM_TBL_HASH_NUM]. set (B k)) = H" using D(13) key by auto
  define b0 where "b0 = \<lparr>fb_idx_table_id = tid, fb_min_lsn = UINT64_MAX, fb_max_lsn = InvalidXLogRecPtr,
    fb_buf_size = LOG_INDEX_FILE_TBL_BLOOM_SIZE - 32, fb_crc = 0,
    fb_filter = bloom_init_struct (lp_rint_k lp) (replicate (LOG_INDEX_FILE_TBL_BLOOM_SIZE - 32 - BLOOM_FILTER_BITSET) 0)
      (LOG_INDEX_FILE_TBL_BLOOM_SIZE - 32) LOG_INDEX_BLOOM_ELEMS_NUM 0\<rparr>"
  have ok0: "bloom_ok (fb_filter b0)" unfolding b0_def
    by (simp add: LOG_INDEX_FILE_TBL_BLOOM_SIZE_def BLOOM_FILTER_BITSET_def bloom_init_struct_ok)
  obtain b where b: "calc_bloom_slots [0..<LOG_INDEX_MEM_TBL_HASH_NUM] lp t b0 = Inr b"
    "bloom_step (lp_hash_any lp) ?mx ?mn (tag_of (td_segment t)) H b0 b"
    using calc_bloom_slots_step [OF ok bounds _ ok0, of "[0..<LOG_INDEX_MEM_TBL_HASH_NUM]" lp] 
      \<open>(\<Union>k \<in> set [0..<LOG_INDEX_MEM_TBL_HASH_NUM]. set (B k)) = H\<close> by auto
  let ?b = "b\<lparr>fb_crc := lp_crc_bloom lp (b\<lparr>fb_crc := 0\<rparr>)\<rparr>"
  have "log_index_get_bloom_data lp t tid = Inr ?b"
    using b(1) by (simp add: log_index_get_bloom_data_def log_index_calc_bloom_def b0_def Let_def)
  moreover have "\<exists>h \<in> H. tag_of (td_segment t) h = li_tag a" if "a \<in> set A" for a by (rule contentD(4) [OF c that])
  moreover have "bloom_lacks_element (lp_hash_any lp) (fb_filter ?b) (tag_of (td_segment t) h) = Inr False" if "h \<in> H" for h
  proof -
    have "bloom_le (fb_filter b0) (fb_filter b)"
      and bits: "bits_set (k_hashes (lp_hash_any lp) (fb_filter b0) (tag_of (td_segment t) h)) (bf_bitset (fb_filter b))"
      using b(2) that unfolding bloom_step_def by blast+
    from bloom_le_hashes [OF this(1), of "lp_hash_any lp"] bloom_test_bits_ok [OF bits] show ?thesis
      unfolding bloom_lacks_element_def by simp
  qed
  moreover have "?mx h \<le> fb_max_lsn ?b" "fb_min_lsn ?b \<le> ?mn h" if "h \<in> H" for h using b(2) that unfolding bloom_step_def by simp_all
  moreover have "fb_max_lsn ?b = 0 \<or> fb_max_lsn ?b \<in> li_lsn ` set A" "fb_min_lsn ?b = UINT64_MAX \<or> fb_min_lsn ?b \<in> li_lsn ` set A"
  proof -
    have "?mx ` H \<subseteq> li_lsn ` set A" "?mn ` H \<subseteq> li_lsn ` set A"
      using P last_in_set hd_in_set by (blast intro: image_eqI)+
    moreover have "fb_max_lsn b0 = 0" "fb_min_lsn b0 = UINT64_MAX" by (simp_all add: b0_def)
    ultimately show "fb_max_lsn ?b = 0 \<or> fb_max_lsn ?b \<in> li_lsn ` set A" "fb_min_lsn ?b = UINT64_MAX \<or> fb_min_lsn ?b \<in> li_lsn ` set A"
      using b(2) unfolding bloom_step_def by auto
  qed
  moreover have "fb_idx_table_id ?b = tid" "fb_buf_size ?b = LOG_INDEX_FILE_TBL_BLOOM_SIZE - 32"
    using b(2) unfolding bloom_step_def by (simp_all add: b0_def)
  moreover have "bloom_init_struct (lp_rint_k lp) (bf_bitset (fb_filter ?b)) (fb_buf_size ?b) LOG_INDEX_BLOOM_ELEMS_NUM 0 = fb_filter ?b"
    using b(2) unfolding bloom_step_def bloom_le_def by (simp add: b0_def bloom_init_struct_def Let_def)
  ultimately show ?thesis using that [of ?b] by metis
qed

end
