(* ===== verification/Logindex_Retention.thy ===== *)
theory Logindex_Retention
  imports Logindex_Bloom
begin

text \<open>
  What a logindex snapshot retains: every record that was added is in a table in memory or in a
  table on storage, whatever the background writer, waiting processes and truncation did. The
  records of each table number are given by a ghost function.
\<close>

section \<open>Table numbers\<close>

abbreviation lkey :: "logindex_params \<Rightarrow> BufferTag \<Rightarrow> nat" where
  "lkey lp \<equiv> LOG_INDEX_MEM_TBL_HASH_PAGE (lp_tag_hash lp)"

lemma lkey_less: "lkey lp tag < LOG_INDEX_MEM_TBL_HASH_NUM"
  by (simp add: LOG_INDEX_MEM_TBL_HASH_PAGE_def seg_num)

abbreviation segno :: "nat \<Rightarrow> nat" where "segno \<equiv> LOG_INDEX_FILE_TABLE_SEGMENT_NO"

abbreviation slotno :: "nat \<Rightarrow> nat" where "slotno \<equiv> LOG_INDEX_FILE_TABLE_SEGMENT_OFFSET"

lemma seg_slot:
  "0 < tid \<Longrightarrow> segno tid = (tid - 1) div 64" "0 < tid \<Longrightarrow> slotno tid = (tid - 1) mod 64"
  by (simp_all add: LOG_INDEX_FILE_TABLE_SEGMENT_NO_def LOG_INDEX_FILE_TABLE_SEGMENT_OFFSET_def tid_pred_def
      LOG_INDEX_TABLE_NUM_PER_FILE_def)

lemma seg_slot_inj: "0 < t \<Longrightarrow> 0 < u \<Longrightarrow> segno t = segno u \<Longrightarrow> slotno t = slotno u \<Longrightarrow> t = u"
  by (metis seg_slot div_mult_mod_eq Suc_pred' diff_Suc_1)

lemma segno_mono: "0 < t \<Longrightarrow> t \<le> u \<Longrightarrow> segno t \<le> segno u"
  by (simp add: seg_slot div_le_mono)

lemma segno_pred_slot: "0 < t \<Longrightarrow> slotno (Suc t) \<noteq> 0 \<Longrightarrow> segno (Suc t) = segno t \<and> slotno (Suc t) = Suc (slotno t)"
proof -
  assume "0 < t" "slotno (Suc t) \<noteq> 0"
  then obtain n where n: "t = Suc n" "Suc n mod 64 \<noteq> 0" by (cases t) (auto simp: seg_slot)
  then have "Suc n mod 64 = Suc (n mod 64)" using mod_Suc [of n 64] by presburger
  moreover have "Suc n div 64 = n div 64" using n(2) div_Suc [of n 64] by simp
  ultimately show ?thesis using n(1) by (simp add: seg_slot)
qed

lemma slotno_less: "slotno t < 64"
  by (simp add: LOG_INDEX_FILE_TABLE_SEGMENT_OFFSET_def LOG_INDEX_TABLE_NUM_PER_FILE_def)

section \<open>Tables on storage\<close>

lemma tbl_log_cong:
  assumes "td_prefix_lsn t' = td_prefix_lsn t" "td_last_order t' = td_last_order t" "td_idx_order t' = td_idx_order t"
    "td_hash t' = td_hash t" "td_segment t' = td_segment t"
  shows "tbl_log key t' f A = tbl_log key t f A"
  using assms by (simp add: tbl_log_def content_def LOG_INDEX_SAME_TABLE_LSN_PREFIX_def)

text \<open>The Bloom data \<open>b\<close> is right for the table \<open>tid\<close> with the records \<open>A\<close>.\<close>

definition bloom_good :: "logindex_params \<Rightarrow> log_file_table_bloom \<Rightarrow> nat \<Rightarrow> log_index_lsn list \<Rightarrow> bool" where
  "bloom_good lp b tid A \<longleftrightarrow> fb_idx_table_id b = tid
     \<and> (\<forall>a \<in> set A. bloom_lacks_element (lp_hash_any lp)
          (bloom_init_struct (lp_rint_k lp) (bf_bitset (fb_filter b)) (fb_buf_size b) LOG_INDEX_BLOOM_ELEMS_NUM 0) (li_tag a) = Inr False)
     \<and> (\<forall>a \<in> set A. li_lsn (last (page_log (li_tag a) A)) \<le> fb_max_lsn b)"

text \<open>A table whose LSN bounds were set when it was written.\<close>

definition lsn_bounds :: "log_idx_table_data \<Rightarrow> log_index_lsn list \<Rightarrow> bool" where
  "lsn_bounds t A \<longleftrightarrow> (\<forall>a \<in> set A. li_lsn (last (page_log (li_tag a) A)) \<le> td_max_lsn t \<and> td_min_lsn t \<le> li_lsn (hd (page_log (li_tag a) A)))
     \<and> (td_max_lsn t = 0 \<or> td_max_lsn t \<in> li_lsn ` set A) \<and> (td_min_lsn t = UINT64_MAX \<or> td_min_lsn t \<in> li_lsn ` set A)"

definition good_table :: "logindex_params \<Rightarrow> log_idx_table_data \<Rightarrow> nat \<Rightarrow> log_index_lsn list \<Rightarrow> bool" where
  "good_table lp t tid A \<longleftrightarrow> td_idx_table_id t = tid \<and> td_crc t = lp_crc_table lp (t\<lparr>td_crc := 0\<rparr>)
     \<and> (\<exists>f. tbl_log (lkey lp) t f A) \<and> lsn_bounds t A"

definition stored :: "logindex_params \<Rightarrow> log_index_snapshot \<Rightarrow> nat \<Rightarrow> log_index_lsn list \<Rightarrow> bool" where
  "stored lp s tid A \<longleftrightarrow>
     (\<exists>f. sn_files s (segno tid) = Some f \<and> slotno tid < length f \<and> good_table lp (f ! slotno tid) tid A)
     \<and> (\<exists>b. sn_blooms s tid = Some b \<and> bloom_good lp b tid A)"

lemma read_table_data_file:
  assumes "sn_files s (segno tid) = Some f" "slotno tid < length f" "td_crc (f ! slotno tid) = lp_crc_table lp ((f ! slotno tid)\<lparr>td_crc := 0\<rparr>)"
  shows "sn_fault s = None \<Longrightarrow> log_index_read_table_data lp s tid = Inr (f ! slotno tid)"
    "log_index_read_table_data lp s tid = Inr t \<Longrightarrow> t = f ! slotno tid"
proof -
  let ?t = "f ! slotno tid"
  have eq: "?t\<lparr>td_crc := lp_crc_table lp (?t\<lparr>td_crc := 0\<rparr>)\<rparr> = ?t" using assms(3) by (cases ?t) simp
  show "sn_fault s = None \<Longrightarrow> log_index_read_table_data lp s tid = Inr ?t"
    using assms eq by (simp add: log_index_read_table_data_def log_index_open_table_file_def Let_def)
  assume "log_index_read_table_data lp s tid = Inr t"
  then have "t = ?t\<lparr>td_crc := lp_crc_table lp (?t\<lparr>td_crc := 0\<rparr>)\<rparr>"
    using assms(1,2) by (simp add: log_index_read_table_data_def log_index_open_table_file_def Let_def split: if_splits)
  then show "t = ?t" using eq by simp
qed

lemma stored_read:
  assumes "stored lp s tid A" "sn_fault s = None"
  obtains t where "log_index_read_table_data lp s tid = Inr t" "good_table lp t tid A"
proof -
  obtain f where f: "sn_files s (segno tid) = Some f" "slotno tid < length f" "good_table lp (f ! slotno tid) tid A"
    using assms(1) unfolding stored_def by blast
  then show ?thesis using that read_table_data_file(1) [OF f(1,2)] assms(2) by (simp add: good_table_def)
qed

lemma read_stored:
  assumes "stored lp s tid A" "log_index_read_table_data lp s tid = Inr t"
  shows "good_table lp t tid A"
proof -
  obtain f where f: "sn_files s (segno tid) = Some f" "slotno tid < length f" "good_table lp (f ! slotno tid) tid A"
    using assms(1) unfolding stored_def by blast
  then show ?thesis using read_table_data_file(2) [OF f(1,2) _ assms(2)] by (simp add: good_table_def)
qed

lemma pwrite_slot_nth:
  "i < length f \<or> i = length f \<Longrightarrow> pwrite_slot f i t ! i = t" "j < length f \<Longrightarrow> j \<noteq> i \<Longrightarrow> pwrite_slot f i t ! j = f ! j"
  "length f \<le> length (pwrite_slot f i t)" "i < length (pwrite_slot f i t)"
  by (auto simp: pwrite_slot_def nth_append)

lemma pwrite_slot_at: "pwrite_slot f i t ! i = t"
  by (auto simp: pwrite_slot_def nth_append)

section \<open>Writing a table\<close>

lemma write_meta_ok:
  assumes "polar_log_index_write_meta lp s meta update = Inr s'"
  obtains m where "s' = s\<lparr>sn_meta := m, sn_meta_file := Some m\<rparr>" "lm_max_idx_table_id m = lm_max_idx_table_id meta"
    "lm_min_segment_info m = lm_min_segment_info meta" "lm_max_lsn m = lm_max_lsn meta"
    "lm_magic m = LOG_INDEX_MAGIC" "lm_version m = LOG_INDEX_VERSION" "lm_crc m = lp_crc_meta lp (m\<lparr>lm_crc := 0\<rparr>)"
    "lm_start_lsn m = (if lm_max_lsn meta \<noteq> 0 then lm_max_lsn meta else lm_start_lsn meta)"
proof -
  let ?m1 = "(if lm_max_lsn meta \<noteq> InvalidXLogRecPtr then meta\<lparr>lm_start_lsn := lm_max_lsn meta\<rparr> else meta)
    \<lparr>lm_magic := LOG_INDEX_MAGIC, lm_version := LOG_INDEX_VERSION, lm_crc := 0\<rparr>"
  let ?m = "?m1\<lparr>lm_crc := lp_crc_meta lp ?m1\<rparr>"
  have "?m\<lparr>lm_crc := 0\<rparr> = ?m1" by simp
  moreover have "s' = s\<lparr>sn_meta := ?m, sn_meta_file := Some ?m\<rparr>"
    using assms by (auto simp: polar_log_index_write_meta_def Let_def split: if_splits)
  ultimately show ?thesis using that [of ?m] by simp
qed

text \<open>A place in a segment file has the table that belongs there or one of an earlier segment.\<close>

definition file_slots :: "log_index_snapshot \<Rightarrow> bool" where
  "file_slots s \<longleftrightarrow> (\<forall>g f. sn_files s g = Some f \<longrightarrow> length f \<le> 64 \<and>
     (\<forall>j < length f. td_idx_table_id (f ! j) = 64 * g + Suc j \<or> td_idx_table_id (f ! j) \<le> 64 * g))"

lemma file_slots_cong: "sn_files s' = sn_files s \<Longrightarrow> file_slots s' = file_slots s"
  by (simp add: file_slots_def)

lemma pwrite_file_slots:
  assumes "\<forall>j < length f. td_idx_table_id (f ! j) = 64 * g + Suc j \<or> td_idx_table_id (f ! j) \<le> 64 * g" "td_idx_table_id t = 64 * g + Suc i"
    "j < length (pwrite_slot f i t)"
  shows "td_idx_table_id (pwrite_slot f i t ! j) = 64 * g + Suc j \<or> td_idx_table_id (pwrite_slot f i t ! j) \<le> 64 * g"
proof (cases "i < length f")
  case True
  then show ?thesis using assms by (cases "j = i") (auto simp: pwrite_slot_def)
next
  case False
  then consider "j < length f" | "length f \<le> j" "j < i" | "j = i" using assms(3) by (fastforce simp: pwrite_slot_def)
  then show ?thesis using False assms by cases (auto simp: pwrite_slot_def nth_append table_zero_def)
qed

lemma write_table_data_ok:
  assumes "log_index_write_table_data lp s t = Inr (Inr (d, s'))" and log: "tbl_log (lkey lp) t fh A"
    and tid: "td_idx_table_id t = tid"
  shows "good_table lp d tid A" "stored lp s' tid A" "tbl_log (lkey lp) d fh A"
    "\<And>u C. stored lp s u C \<Longrightarrow> 0 < u \<Longrightarrow> 0 < tid \<Longrightarrow> u \<noteq> tid \<Longrightarrow> stored lp s' u C"
    "\<exists>F bl. s' = s\<lparr>sn_files := F, sn_blooms := bl\<rparr>"
    "d = t\<lparr>td_min_lsn := td_min_lsn d, td_max_lsn := td_max_lsn d, td_crc := td_crc d\<rparr>"
    "file_slots s \<Longrightarrow> 0 < tid \<Longrightarrow> file_slots s'"
proof -
  obtain f where f: "log_index_open_table_file s tid False = Inr f" using assms(1) tid
    by (cases "log_index_open_table_file s tid False") (auto simp: log_index_write_table_data_def Let_def)
  obtain b where b: "log_index_get_bloom_data lp t tid = Inr b" "fb_idx_table_id b = tid"
    "\<And>a. a \<in> set A \<Longrightarrow> bloom_lacks_element (lp_hash_any lp) (fb_filter b) (li_tag a) = Inr False"
    "\<And>a. a \<in> set A \<Longrightarrow> li_lsn (last (page_log (li_tag a) A)) \<le> fb_max_lsn b"
    "\<And>a. a \<in> set A \<Longrightarrow> fb_min_lsn b \<le> li_lsn (hd (page_log (li_tag a) A))"
    "fb_max_lsn b = 0 \<or> fb_max_lsn b \<in> li_lsn ` set A" "fb_min_lsn b = UINT64_MAX \<or> fb_min_lsn b \<in> li_lsn ` set A"
    "bloom_init_struct (lp_rint_k lp) (bf_bitset (fb_filter b)) (fb_buf_size b) LOG_INDEX_BLOOM_ELEMS_NUM 0 = fb_filter b"
    using bloom_data_log [OF log lkey_less, of lp tid] by metis
  let ?t = "t\<lparr>td_min_lsn := fb_min_lsn b, td_max_lsn := fb_max_lsn b, td_crc := 0\<rparr>"
  have d: "d = ?t\<lparr>td_crc := lp_crc_table lp ?t\<rparr>"
    and s': "s' = s\<lparr>sn_files := (sn_files s)(segno tid \<mapsto> pwrite_slot f (slotno tid) d), sn_blooms := (sn_blooms s)(tid \<mapsto> b)\<rparr>"
    using assms(1) f b(1) tid
    by (auto simp: log_index_write_table_data_def log_index_save_table_def log_index_save_bloom_def Let_def split: if_splits)
  show "tbl_log (lkey lp) d fh A" using log tbl_log_cong [of d t] d by simp
  moreover have "d\<lparr>td_crc := 0\<rparr> = ?t" by (simp add: d)
  ultimately show good: "good_table lp d tid A" using b(4-7) tid unfolding good_table_def lsn_bounds_def by (auto simp: d)
  have "bloom_good lp b tid A" unfolding bloom_good_def using b(2-4,8) by simp
  then show "stored lp s' tid A" unfolding stored_def s' using good pwrite_slot_nth(4) pwrite_slot_at by auto
  show "\<exists>F bl. s' = s\<lparr>sn_files := F, sn_blooms := bl\<rparr>" unfolding s' by blast
  show "d = t\<lparr>td_min_lsn := td_min_lsn d, td_max_lsn := td_max_lsn d, td_crc := td_crc d\<rparr>" by (simp add: d)
  show "file_slots s'" if "file_slots s" "0 < tid"
  proof -
    have "f = [] \<or> sn_files s (segno tid) = Some f" using f by (auto simp: log_index_open_table_file_def split: if_splits option.splits)
    then have old: "length f \<le> 64" "\<forall>j < length f. td_idx_table_id (f ! j) = 64 * segno tid + Suc j \<or> td_idx_table_id (f ! j) \<le> 64 * segno tid"
      using that(1) unfolding file_slots_def by auto
    then have "length (pwrite_slot f (slotno tid) d) \<le> 64" using slotno_less [of tid] by (auto simp: pwrite_slot_def)
    moreover have "td_idx_table_id d = 64 * segno tid + Suc (slotno tid)" using that(2) tid by (simp add: d seg_slot)
    ultimately show ?thesis using that(1) pwrite_file_slots [OF old(2)] unfolding file_slots_def s' by auto
  qed
  fix u C assume u: "stored lp s u C" "0 < u" "0 < tid" "u \<noteq> tid"
  then obtain g where g: "sn_files s (segno u) = Some g" "slotno u < length g" "good_table lp (g ! slotno u) u C"
    and bl: "\<exists>b. sn_blooms s u = Some b \<and> bloom_good lp b u C" unfolding stored_def by blast
  have "\<exists>g'. sn_files s' (segno u) = Some g' \<and> slotno u < length g' \<and> good_table lp (g' ! slotno u) u C"
  proof (cases "segno u = segno tid")
    case True
    then have "f = g" using f g(1) by (auto simp: log_index_open_table_file_def split: if_splits)
    moreover have "slotno u \<noteq> slotno tid" using seg_slot_inj [OF u(2,3) True] u(4) by blast
    ultimately show ?thesis using g True pwrite_slot_nth(2,3) unfolding s' by (auto intro: less_le_trans)
  qed (use g in \<open>simp add: s'\<close>)
  moreover have "\<exists>b. sn_blooms s' u = Some b \<and> bloom_good lp b u C" using bl u(4) unfolding s' by simp
  ultimately show "stored lp s' u C" unfolding stored_def by blast
qed

section \<open>The ring of memory tables\<close>

text \<open>The table in slot \<open>mid\<close>, by its state.\<close>

definition slot_ok :: "logindex_params \<Rightarrow> (nat \<Rightarrow> log_index_lsn list) \<Rightarrow> nat \<Rightarrow> nat \<Rightarrow> nat \<Rightarrow> log_mem_table \<Rightarrow> bool" where
  "slot_ok lp L n D mid t \<longleftrightarrow>
     (let tid = LOG_INDEX_MEM_TBL_TID t
      in case mt_state t of
           STATE_FREE \<Rightarrow> t = mem_table_zero
         | STATE_FLUSHED \<Rightarrow> 0 < tid \<and> tid \<le> D \<and> (tid - 1) mod n = mid \<and> (\<exists>f. tbl_log (lkey lp) (mt_data t) f (L tid))
             \<and> lsn_bounds (mt_data t) (L tid)
         | _ \<Rightarrow> D < tid)"

text \<open>
  The slots \<open>ts\<close> when the tables up to \<open>D\<close> are saved and \<open>M\<close> is the last table; \<open>act\<close> tells
  whether that one is active.
\<close>

definition ring :: "logindex_params \<Rightarrow> (nat \<Rightarrow> log_index_lsn list) \<Rightarrow> bool \<Rightarrow> nat \<Rightarrow> log_mem_table list \<Rightarrow> nat \<Rightarrow> nat \<Rightarrow> bool" where
  "ring lp L act n ts D M \<longleftrightarrow>
     2 \<le> n \<and> length ts = n \<and> D \<le> M \<and> M \<le> D + n \<and> (act \<longrightarrow> D < M)
     \<and> (\<forall>mid < n. slot_ok lp L n D mid (ts ! mid))
     \<and> (\<forall>mid < n. D < LOG_INDEX_MEM_TBL_TID (ts ! mid) \<longrightarrow>
          LOG_INDEX_MEM_TBL_TID (ts ! mid) \<le> M \<and> (LOG_INDEX_MEM_TBL_TID (ts ! mid) - 1) mod n = mid)
     \<and> (\<forall>tid. D < tid \<and> tid \<le> M \<longrightarrow>
          (let t = ts ! ((tid - 1) mod n)
           in LOG_INDEX_MEM_TBL_TID t = tid \<and> tbl_log (lkey lp) (mt_data t) (mt_free_head t) (L tid)
              \<and> mt_state t = (if act \<and> tid = M then STATE_ACTIVE else STATE_INACTIVE)))
     \<and> (\<forall>tid. M < tid \<longrightarrow> L tid = [])"

lemma ringD:
  assumes "ring lp L act n ts D M"
  shows "2 \<le> n" "length ts = n" "D \<le> M" "M \<le> D + n" "act \<Longrightarrow> D < M" "mid < n \<Longrightarrow> slot_ok lp L n D mid (ts ! mid)"
    "mid < n \<Longrightarrow> D < LOG_INDEX_MEM_TBL_TID (ts ! mid) \<Longrightarrow>
       LOG_INDEX_MEM_TBL_TID (ts ! mid) \<le> M \<and> (LOG_INDEX_MEM_TBL_TID (ts ! mid) - 1) mod n = mid"
    "D < tid \<Longrightarrow> tid \<le> M \<Longrightarrow> LOG_INDEX_MEM_TBL_TID (ts ! ((tid - 1) mod n)) = tid"
    "D < tid \<Longrightarrow> tid \<le> M \<Longrightarrow> tbl_log (lkey lp) (mt_data (ts ! ((tid - 1) mod n))) (mt_free_head (ts ! ((tid - 1) mod n))) (L tid)"
    "D < tid \<Longrightarrow> tid \<le> M \<Longrightarrow> mt_state (ts ! ((tid - 1) mod n)) = (if act \<and> tid = M then STATE_ACTIVE else STATE_INACTIVE)"
    "M < tid \<Longrightarrow> L tid = []"
  using assms unfolding ring_def Let_def by blast+

lemma ringI:
  assumes "2 \<le> n" "length ts = n" "D \<le> M" "M \<le> D + n" "act \<Longrightarrow> D < M" "\<And>mid. mid < n \<Longrightarrow> slot_ok lp L n D mid (ts ! mid)"
    "\<And>mid. mid < n \<Longrightarrow> D < LOG_INDEX_MEM_TBL_TID (ts ! mid) \<Longrightarrow>
       LOG_INDEX_MEM_TBL_TID (ts ! mid) \<le> M \<and> (LOG_INDEX_MEM_TBL_TID (ts ! mid) - 1) mod n = mid"
    "\<And>tid. D < tid \<Longrightarrow> tid \<le> M \<Longrightarrow> LOG_INDEX_MEM_TBL_TID (ts ! ((tid - 1) mod n)) = tid
       \<and> tbl_log (lkey lp) (mt_data (ts ! ((tid - 1) mod n))) (mt_free_head (ts ! ((tid - 1) mod n))) (L tid)
       \<and> mt_state (ts ! ((tid - 1) mod n)) = (if act \<and> tid = M then STATE_ACTIVE else STATE_INACTIVE)"
    "\<And>tid. M < tid \<Longrightarrow> L tid = []"
  shows "ring lp L act n ts D M"
  using assms unfolding ring_def Let_def by blast

text \<open>Different unsaved tables are in different slots.\<close>

lemma slot_inj:
  assumes "D < t" "t \<le> D + n" "D < u" "u \<le> D + n" "(t - 1) mod n = (u - 1) mod n"
  shows "t = (u::nat)"
proof -
  have eq: "x = y" if "x \<le> y" "y < x + n" "x mod n = y mod n" for x y :: nat
  proof -
    have "n dvd y - x" using mod_eq_dvd_iff_nat [OF that(1), of n] that(3) by simp
    then have "y - x = 0" using nat_dvd_not_less [of "y - x" n] that(2) by linarith
    then show ?thesis using that(1) by simp
  qed
  have "t - 1 = u - 1"
  proof (cases "t \<le> u")
    case True then show ?thesis using eq [of "t - 1" "u - 1", OF _ _ assms(5)] assms(1-4) by linarith
  next
    case False then show ?thesis using eq [of "u - 1" "t - 1", OF _ _ assms(5) [symmetric]] assms(1-4) by linarith
  qed
  then show ?thesis using assms(1,3) by linarith
qed

lemma ring_slot_less: "ring lp L act n ts D M \<Longrightarrow> i mod n < n"
  using ringD(1) by (metis mod_less_divisor not_numeral_le_zero gr0I)

lemma slot_ok_simps:
  "mt_state t = STATE_FREE \<Longrightarrow> slot_ok lp L n D mid t = (t = mem_table_zero)"
  "mt_state t = STATE_FLUSHED \<Longrightarrow> slot_ok lp L n D mid t = (0 < LOG_INDEX_MEM_TBL_TID t \<and> LOG_INDEX_MEM_TBL_TID t \<le> D
     \<and> (LOG_INDEX_MEM_TBL_TID t - 1) mod n = mid \<and> (\<exists>f. tbl_log (lkey lp) (mt_data t) f (L (LOG_INDEX_MEM_TBL_TID t)))
     \<and> lsn_bounds (mt_data t) (L (LOG_INDEX_MEM_TBL_TID t)))"
  "mt_state t = STATE_ACTIVE \<Longrightarrow> slot_ok lp L n D mid t = (D < LOG_INDEX_MEM_TBL_TID t)"
  "mt_state t = STATE_INACTIVE \<Longrightarrow> slot_ok lp L n D mid t = (D < LOG_INDEX_MEM_TBL_TID t)"
  by (simp_all add: slot_ok_def Let_def)

text \<open>An active or inactive slot has the table that belongs there.\<close>

lemma ring_unsaved:
  assumes r: "ring lp L act n ts D M" and mid: "mid < n" and st: "mt_state (ts ! mid) = STATE_ACTIVE \<or> mt_state (ts ! mid) = STATE_INACTIVE"
  defines "tid \<equiv> LOG_INDEX_MEM_TBL_TID (ts ! mid)"
  shows "D < tid" "tid \<le> M" "(tid - 1) mod n = mid" "tbl_log (lkey lp) (mt_data (ts ! mid)) (mt_free_head (ts ! mid)) (L tid)"
    "mt_state (ts ! mid) = STATE_ACTIVE \<longleftrightarrow> act \<and> tid = M"
proof -
  show D: "D < tid" using ringD(6) [OF r mid] st by (auto simp: slot_ok_simps tid_def)
  then show "tid \<le> M" "(tid - 1) mod n = mid" using ringD(7) [OF r mid] by (simp_all add: tid_def)
  then show "tbl_log (lkey lp) (mt_data (ts ! mid)) (mt_free_head (ts ! mid)) (L tid)"
    "mt_state (ts ! mid) = STATE_ACTIVE \<longleftrightarrow> act \<and> tid = M"
    using ringD(9) [OF r D] ringD(10) [OF r D] by simp_all
qed

text \<open>Saving the oldest unsaved table.\<close>

lemma ring_save:
  assumes r: "ring lp L act n ts D M" and mid: "mid < n" "mt_state (ts ! mid) = STATE_INACTIVE"
    and tid: "LOG_INDEX_MEM_TBL_TID (ts ! mid) = Suc D"
    and t: "mt_state t = STATE_FLUSHED" "LOG_INDEX_MEM_TBL_TID t = Suc D" "tbl_log (lkey lp) (mt_data t) f (L (Suc D))"
      "lsn_bounds (mt_data t) (L (Suc D))"
  shows "ring lp L act n (ts[mid := t]) (Suc D) M"
proof -
  note R = ringD [OF r] and U = ring_unsaved [OF r mid(1) disjI2 [OF mid(2)]]
  have other: "(u - 1) mod n \<noteq> mid" if "Suc D < u" "u \<le> M" for u
    using slot_inj [of D u n "Suc D"] that R(1,4) U(3) tid by auto
  show ?thesis
  proof (rule ringI)
    show "act \<Longrightarrow> Suc D < M" using R(5) U(5) tid mid(2) by (metis Suc_lessI mem_tbl_state.distinct(7))
    fix u assume u: "Suc D < u" "u \<le> M"
    have Du: "D < u" using u(1) by simp
    show "LOG_INDEX_MEM_TBL_TID (ts[mid := t] ! ((u - 1) mod n)) = u
       \<and> tbl_log (lkey lp) (mt_data (ts[mid := t] ! ((u - 1) mod n))) (mt_free_head (ts[mid := t] ! ((u - 1) mod n))) (L u)
       \<and> mt_state (ts[mid := t] ! ((u - 1) mod n)) = (if act \<and> u = M then STATE_ACTIVE else STATE_INACTIVE)"
      using other [OF u] R(8-10) [OF Du u(2)] by simp
  next
    fix m assume m: "m < n"
    show "slot_ok lp L n (Suc D) m (ts[mid := t] ! m)"
    proof (cases "m = mid")
      case True then show ?thesis using t U(3) tid R(2) m by (auto simp: slot_ok_simps)
    next
      case False
      have "LOG_INDEX_MEM_TBL_TID (ts ! m) \<noteq> Suc D" if "D < LOG_INDEX_MEM_TBL_TID (ts ! m)"
        using R(7) [OF m that] U(3) tid False by auto
      then show ?thesis using R(6) [OF m] False by (cases "mt_state (ts ! m)") (auto simp: slot_ok_simps)
    qed
    assume "Suc D < LOG_INDEX_MEM_TBL_TID (ts[mid := t] ! m)"
    then show "LOG_INDEX_MEM_TBL_TID (ts[mid := t] ! m) \<le> M \<and> (LOG_INDEX_MEM_TBL_TID (ts[mid := t] ! m) - 1) mod n = m"
      using R(7) [OF m] t(2) R(2) m by (cases "m = mid") auto
  qed (use R(1-4,11) U(2) tid in simp_all)
qed

text \<open>The data of the last table change: records are added, its bounds are set, or it is closed.\<close>

lemma ring_last:
  assumes r: "ring lp L True n ts D M" and mid: "mid = (M - 1) mod n"
    and t: "LOG_INDEX_MEM_TBL_TID t = M" "tbl_log (lkey lp) (mt_data t) (mt_free_head t) X"
      "mt_state t = (if act then STATE_ACTIVE else STATE_INACTIVE)"
  shows "ring lp (L(M := X)) act n (ts[mid := t]) D M"
proof -
  note R = ringD [OF r]
  have M: "D < M" "mid < n" using R(5) ring_slot_less [OF r] mid by simp_all
  have at: "(ts[mid := t]) ! m = (if m = mid then t else ts ! m)" for m using M(2) R(2) by simp
  show ?thesis
  proof (rule ringI)
    fix u assume u: "D < u" "u \<le> M"
    have "(u - 1) mod n = mid \<longleftrightarrow> u = M" using slot_inj [OF u(1) _ M(1) R(4)] u(2) R(4) mid by auto
    then show "LOG_INDEX_MEM_TBL_TID (ts[mid := t] ! ((u - 1) mod n)) = u
       \<and> tbl_log (lkey lp) (mt_data (ts[mid := t] ! ((u - 1) mod n))) (mt_free_head (ts[mid := t] ! ((u - 1) mod n))) ((L(M := X)) u)
       \<and> mt_state (ts[mid := t] ! ((u - 1) mod n)) = (if act \<and> u = M then STATE_ACTIVE else STATE_INACTIVE)"
      using R(8-10) [OF u] t unfolding at by simp
  next
    fix m assume m: "m < n"
    show "slot_ok lp (L(M := X)) n D m (ts[mid := t] ! m)"
      using R(6) [OF m] t M(1) unfolding at by (cases "mt_state (ts ! m)"; cases act) (auto simp: slot_ok_simps)
    assume "D < LOG_INDEX_MEM_TBL_TID (ts[mid := t] ! m)"
    then show "LOG_INDEX_MEM_TBL_TID (ts[mid := t] ! m) \<le> M \<and> (LOG_INDEX_MEM_TBL_TID (ts[mid := t] ! m) - 1) mod n = m"
      using R(7) [OF m] t(1) mid unfolding at by auto
  qed (use R(1-4,11) M(1) in simp_all)
qed

text \<open>A free or saved slot is used for a new table.\<close>

lemma ring_new:
  assumes r: "ring lp L False n ts D M" and mid: "mid = M mod n" and st: "mt_state (ts ! mid) = STATE_FREE \<or> mt_state (ts ! mid) = STATE_FLUSHED"
    and t: "LOG_INDEX_MEM_TBL_TID t = Suc M" "tbl_log (lkey lp) (mt_data t) (mt_free_head t) []" "mt_state t = STATE_ACTIVE"
  shows "ring lp L True n (ts[mid := t]) D (Suc M)"
proof -
  note R = ringD [OF r]
  have mid_n: "mid < n" using ring_slot_less [OF r] mid by simp
  have at: "(ts[mid := t]) ! m = (if m = mid then t else ts ! m)" for m using mid_n R(2) by simp
  have free: "(u - 1) mod n \<noteq> mid" if "D < u" "u \<le> M" for u
    using R(10) [OF that] st by (auto split: if_splits)
  have "M < D + n"
  proof (rule ccontr)
    assume "\<not> M < D + n"
    then have "M = D + n" using R(4) by simp
    then show False using free [of "Suc D"] mid R(1) by simp
  qed
  then show ?thesis
  proof (intro ringI)
    fix u assume u: "D < u" "u \<le> Suc M"
    show "LOG_INDEX_MEM_TBL_TID (ts[mid := t] ! ((u - 1) mod n)) = u
       \<and> tbl_log (lkey lp) (mt_data (ts[mid := t] ! ((u - 1) mod n))) (mt_free_head (ts[mid := t] ! ((u - 1) mod n))) (L u)
       \<and> mt_state (ts[mid := t] ! ((u - 1) mod n)) = (if True \<and> u = Suc M then STATE_ACTIVE else STATE_INACTIVE)"
    proof (cases "u = Suc M")
      case True then show ?thesis using t mid R(11) [of u] unfolding at by simp
    next
      case False then show ?thesis using u R(8-10) [OF u(1)] free [OF u(1)] unfolding at by simp
    qed
  next
    fix m assume m: "m < n"
    show "slot_ok lp L n D m (ts[mid := t] ! m)" using R(3) R(6) [OF m] t unfolding at by (auto simp: slot_ok_simps)
    assume "D < LOG_INDEX_MEM_TBL_TID (ts[mid := t] ! m)"
    then show "LOG_INDEX_MEM_TBL_TID (ts[mid := t] ! m) \<le> Suc M \<and> (LOG_INDEX_MEM_TBL_TID (ts[mid := t] ! m) - 1) mod n = m"
      using R(7) [OF m] t(1) mid unfolding at by auto
  qed (use R(1-4,11) in simp_all)
qed

text \<open>The data in a saved slot are replaced by those of another saved table.\<close>

lemma ring_replace:
  assumes r: "ring lp L act n ts D M" and mid: "mid < n" "mt_state (ts ! mid) = STATE_FLUSHED"
    and t: "mt_state t = STATE_FLUSHED" "slot_ok lp L n D mid t"
  shows "ring lp L act n (ts[mid := t]) D M"
proof -
  note R = ringD [OF r]
  have at: "(ts[mid := t]) ! m = (if m = mid then t else ts ! m)" for m using mid(1) R(2) by simp
  have free: "(u - 1) mod n \<noteq> mid" if "D < u" "u \<le> M" for u using R(10) [OF that] mid(2) by (auto split: if_splits)
  show ?thesis
  proof (rule ringI)
    fix u assume u: "D < u" "u \<le> M"
    show "LOG_INDEX_MEM_TBL_TID (ts[mid := t] ! ((u - 1) mod n)) = u
       \<and> tbl_log (lkey lp) (mt_data (ts[mid := t] ! ((u - 1) mod n))) (mt_free_head (ts[mid := t] ! ((u - 1) mod n))) (L u)
       \<and> mt_state (ts[mid := t] ! ((u - 1) mod n)) = (if act \<and> u = M then STATE_ACTIVE else STATE_INACTIVE)"
      using R(8-10) [OF u] free [OF u] unfolding at by simp
  next
    fix m assume m: "m < n"
    show "slot_ok lp L n D m (ts[mid := t] ! m)" using R(6) [OF m] t(2) unfolding at by simp
    assume "D < LOG_INDEX_MEM_TBL_TID (ts[mid := t] ! m)"
    then show "LOG_INDEX_MEM_TBL_TID (ts[mid := t] ! m) \<le> M \<and> (LOG_INDEX_MEM_TBL_TID (ts[mid := t] ! m) - 1) mod n = m"
      using R(7) [OF m] t unfolding at by (auto simp: slot_ok_simps split: if_splits)
  qed (use R(1-5,11) in simp_all)
qed

section \<open>The invariant\<close>

abbreviation saved_max :: "log_index_snapshot \<Rightarrow> nat" where "saved_max s \<equiv> lm_max_idx_table_id (sn_meta s)"

abbreviation min_segno :: "log_index_snapshot \<Rightarrow> nat" where "min_segno s \<equiv> fs_segment_no (lm_min_segment_info (sn_meta s))"

definition meta_saved :: "logindex_params \<Rightarrow> log_index_snapshot \<Rightarrow> bool" where
  "meta_saved lp s \<longleftrightarrow> sn_meta_file s = Some (sn_meta s) \<and> lm_magic (sn_meta s) = LOG_INDEX_MAGIC
     \<and> lm_version (sn_meta s) = LOG_INDEX_VERSION \<and> lm_crc (sn_meta s) = lp_crc_meta lp ((sn_meta s)\<lparr>lm_crc := 0\<rparr>)
     \<and> (lm_max_lsn (sn_meta s) \<noteq> 0 \<longrightarrow> lm_start_lsn (sn_meta s) = lm_max_lsn (sn_meta s))"

text \<open>The smallest segment, when the tables up to \<open>D\<close> are saved.\<close>

definition min_seg_ok :: "nat \<Rightarrow> log_index_file_segment \<Rightarrow> bool" where
  "min_seg_ok D seg \<longleftrightarrow>
     (if D = 0 then seg = file_segment_zero
      else fs_segment_no seg \<le> segno D \<and> fs_max_idx_table_id seg = min D (64 * Suc (fs_segment_no seg))
           \<and> fs_min_idx_table_id seg = 64 * fs_segment_no seg + 1)"

text \<open>The saved tables that are not truncated are on storage.\<close>

definition storage :: "logindex_params \<Rightarrow> (nat \<Rightarrow> log_index_lsn list) \<Rightarrow> log_index_snapshot \<Rightarrow> bool" where
  "storage lp L s \<longleftrightarrow>
     (\<forall>tid. 0 < tid \<and> tid \<le> saved_max s \<and> min_segno s \<le> segno tid \<longrightarrow> stored lp s tid (L tid))
     \<and> min_seg_ok (saved_max s) (lm_min_segment_info (sn_meta s)) \<and> (saved_max s = 0 \<longrightarrow> lm_max_lsn (sn_meta s) = 0)
     \<and> meta_saved lp s \<and> file_slots s"

definition retained :: "logindex_params \<Rightarrow> (nat \<Rightarrow> log_index_lsn list) \<Rightarrow> bool \<Rightarrow> log_index_snapshot \<Rightarrow> bool" where
  "retained lp L act s \<longleftrightarrow> ring lp L act (sn_mem_tbl_size s) (sn_mem_table s) (saved_max s) (sn_max_idx_table_id s) \<and> storage lp L s
     \<and> polar_logindex_check_state s POLAR_LOGINDEX_STATE_WRITABLE \<and> pi_old_rw_saved_max_tid (sn_promoted_info s) = 0"

text \<open>An active table without records is as it was made at the start, without a prefix.\<close>

definition fresh :: "(nat \<Rightarrow> log_index_lsn list) \<Rightarrow> bool \<Rightarrow> log_index_snapshot \<Rightarrow> bool" where
  "fresh L act s \<longleftrightarrow> act \<longrightarrow> L (sn_max_idx_table_id s) = [] \<longrightarrow>
     LOG_INDEX_MEM_TBL_IS_NEW (sn_mem_table s ! ((sn_max_idx_table_id s - 1) mod sn_mem_tbl_size s))"

text \<open>
  The table in the place of table \<open>tid\<close> in the segment files, and that the saved tables stay there until
  their segment is removed.
\<close>

definition slot_of :: "log_index_snapshot \<Rightarrow> nat \<Rightarrow> log_idx_table_data option" where
  "slot_of s tid = (case sn_files s (segno tid) of None \<Rightarrow> None | Some f \<Rightarrow> if slotno tid < length f then Some (f ! slotno tid) else None)"

definition saved_kept :: "log_index_snapshot \<Rightarrow> log_index_snapshot \<Rightarrow> bool" where
  "saved_kept s s' \<longleftrightarrow> sn_dir s' = sn_dir s \<and> saved_max s \<le> saved_max s' \<and> min_segno s \<le> min_segno s'
     \<and> (\<forall>tid t. 0 < tid \<and> tid \<le> saved_max s \<and> min_segno s' \<le> segno tid \<and> slot_of s tid = Some t \<longrightarrow> slot_of s' tid = Some t)"

lemma saved_kept_same: "sn_dir s' = sn_dir s \<Longrightarrow> sn_files s' = sn_files s \<Longrightarrow> sn_meta s' = sn_meta s \<Longrightarrow> saved_kept s s'"
  by (simp add: saved_kept_def slot_of_def)

lemma saved_kept_trans: "saved_kept s t \<Longrightarrow> saved_kept t u \<Longrightarrow> saved_kept s u"
  by (simp add: saved_kept_def)

lemma slot_of_other [simp]:
  "slot_of (s\<lparr>sn_mem_table := m\<rparr>) tid = slot_of s tid" "slot_of (s\<lparr>sn_meta := me\<rparr>) tid = slot_of s tid"
  "slot_of (s\<lparr>sn_meta_file := mf\<rparr>) tid = slot_of s tid" "slot_of (s\<lparr>sn_max_idx_table_id := i\<rparr>) tid = slot_of s tid"
  "slot_of (s\<lparr>sn_active_table := i\<rparr>) tid = slot_of s tid" "slot_of (s\<lparr>sn_max_lsn := x\<rparr>) tid = slot_of s tid"
  "slot_of (s\<lparr>sn_fault := e\<rparr>) tid = slot_of s tid" "slot_of (s\<lparr>sn_last_flush_max_lsn := x\<rparr>) tid = slot_of s tid"
  "slot_of (s\<lparr>sn_state := st\<rparr>) tid = slot_of s tid"
  by (simp_all add: slot_of_def)

lemma saved_kept_other [simp]:
  "saved_kept s (s'\<lparr>sn_mem_table := m\<rparr>) = saved_kept s s'" "saved_kept s (s'\<lparr>sn_max_idx_table_id := i\<rparr>) = saved_kept s s'"
  "saved_kept s (s'\<lparr>sn_active_table := i\<rparr>) = saved_kept s s'" "saved_kept s (s'\<lparr>sn_max_lsn := x\<rparr>) = saved_kept s s'"
  "saved_kept s (s'\<lparr>sn_fault := e\<rparr>) = saved_kept s s'" "saved_kept s (s'\<lparr>sn_last_flush_max_lsn := x\<rparr>) = saved_kept s s'"
  "saved_kept s (s'\<lparr>sn_state := st\<rparr>) = saved_kept s s'" "saved_kept (s\<lparr>sn_state := st\<rparr>) s' = saved_kept s s'"
  "saved_kept s s"
  by (simp_all add: saved_kept_def)

lemma write_data_slot:
  assumes "log_index_write_table_data lp s t = Inr (Inr (d, s'))" "0 < u" "0 < td_idx_table_id t" "u \<noteq> td_idx_table_id t" "slot_of s u = Some x"
  shows "slot_of s' u = Some x"
proof -
  let ?tid = "td_idx_table_id t"
  obtain f where f: "log_index_open_table_file s ?tid False = Inr f" using assms(1)
    by (cases "log_index_open_table_file s ?tid False") (auto simp: log_index_write_table_data_def Let_def)
  then have s': "sn_files s' = (sn_files s)(segno ?tid \<mapsto> pwrite_slot f (slotno ?tid) d)" using assms(1)
    by (auto simp: log_index_write_table_data_def log_index_save_table_def log_index_save_bloom_def Let_def rbind_Inr_iff split: if_splits)
  obtain g where g: "sn_files s (segno u) = Some g" "slotno u < length g" "x = g ! slotno u"
    using assms(5) by (auto simp: slot_of_def split: option.splits if_splits)
  show ?thesis
  proof (cases "segno u = segno ?tid")
    case True
    then have "f = g" using f g(1) by (auto simp: log_index_open_table_file_def split: if_splits)
    moreover have "slotno u \<noteq> slotno ?tid" using seg_slot_inj [OF assms(2,3) True] assms(4) by blast
    ultimately show ?thesis using g True pwrite_slot_nth(2,3) unfolding slot_of_def s' by (auto intro: less_le_trans)
  qed (use g in \<open>simp add: slot_of_def s'\<close>)
qed

text \<open>What the other processes leave as it is while one process adds an LSN.\<close>

definition kept :: "log_index_snapshot \<Rightarrow> log_index_snapshot \<Rightarrow> bool" where
  "kept s s' \<longleftrightarrow> saved_kept s s' \<and> sn_mem_tbl_size s' = sn_mem_tbl_size s \<and> sn_max_lsn s' = sn_max_lsn s \<and> sn_state s' = sn_state s
     \<and> sn_active_table s' = sn_active_table s \<and> sn_max_idx_table_id s' = sn_max_idx_table_id s
     \<and> sn_promoted_info s' = sn_promoted_info s \<and> saved_max s \<le> saved_max s'"

lemma kept_refl: "kept s s"
  by (simp add: kept_def saved_kept_same)

lemma kept_trans: "kept s t \<Longrightarrow> kept t u \<Longrightarrow> kept s u"
  using saved_kept_trans by (auto simp: kept_def)

lemma put_mem_ok: "mid < length (sn_mem_table s) \<Longrightarrow> put_mem_table s mid t = Inr (s\<lparr>sn_mem_table := (sn_mem_table s)[mid := t]\<rparr>)"
  by (simp add: put_mem_table_def)

lemma min_seg_write:
  assumes "min_seg_ok D (lm_min_segment_info m)" "lm_max_idx_table_id m = D"
  shows "min_seg_ok (Suc D) (lm_min_segment_info (meta_after_write m (Suc D) d))"
    "fs_segment_no (lm_min_segment_info (meta_after_write m (Suc D) d)) = fs_segment_no (lm_min_segment_info m)"
    "lm_max_idx_table_id (meta_after_write m (Suc D) d) = Suc D"
    "lm_max_lsn (meta_after_write m (Suc D) d) = max (lm_max_lsn m) (td_max_lsn d)"
proof -
  let ?g = "lm_min_segment_info m"
  have le: "fs_segment_no ?g \<le> segno (Suc D)"
  proof (cases "D = 0")
    case True then show ?thesis using assms(1) by (simp add: min_seg_ok_def file_segment_zero_def)
  next
    case False then show ?thesis using assms(1) segno_mono [of D "Suc D"] by (simp add: min_seg_ok_def)
  qed
  then show no: "fs_segment_no (lm_min_segment_info (meta_after_write m (Suc D) d)) = fs_segment_no ?g"
    by (simp add: meta_after_write_def Let_def)
  show "lm_max_idx_table_id (meta_after_write m (Suc D) d) = Suc D"
    "lm_max_lsn (meta_after_write m (Suc D) d) = max (lm_max_lsn m) (td_max_lsn d)"
    using assms(2) by (simp_all add: meta_after_write_def Let_def)
  show "min_seg_ok (Suc D) (lm_min_segment_info (meta_after_write m (Suc D) d))"
  proof (cases "fs_segment_no ?g = segno (Suc D)")
    case True
    then have "64 * Suc (fs_segment_no ?g) \<ge> Suc D" using seg_slot(1) [of "Suc D"] by simp
    moreover have "fs_max_idx_table_id ?g \<le> D" using assms(1) by (auto simp: min_seg_ok_def file_segment_zero_def split: if_splits)
    ultimately show ?thesis using True
      by (simp add: min_seg_ok_def meta_after_write_def Let_def LOG_INDEX_TABLE_NUM_PER_FILE_def)
  next
    case False
    then have less: "fs_segment_no ?g < segno (Suc D)" using le by simp
    then have D: "0 < D" "64 * Suc (fs_segment_no ?g) \<le> D" using seg_slot(1) [of "Suc D"] by auto
    then show ?thesis using assms(1) less
      by (simp add: min_seg_ok_def meta_after_write_def Let_def min_def)
  qed
qed

lemma write_table_cases:
  assumes w: "log_index_write_table lp s mid = Inr (r, s')" and mid: "mid < length (sn_mem_table s)"
  defines "t \<equiv> sn_mem_table s ! mid"
  obtains "\<not> r" "s' = s" "LOG_INDEX_MEM_TBL_TID t \<noteq> Suc (saved_max s)"
  | d s1 where r "LOG_INDEX_MEM_TBL_TID t = Suc (saved_max s)" "log_index_write_table_data lp s (mt_data t) = Inr (Inr (d, s1))"
    "mt_state t = STATE_ACTIVE" "put_mem_table s1 mid (t\<lparr>mt_data := d\<rparr>) = Inr s'"
  | d s1 s2 where r "LOG_INDEX_MEM_TBL_TID t = Suc (saved_max s)" "log_index_write_table_data lp s (mt_data t) = Inr (Inr (d, s1))"
    "mt_state t \<noteq> STATE_ACTIVE"
    "polar_log_index_write_meta lp s1 (meta_after_write (sn_meta s1) (Suc (saved_max s)) d) True = Inr s2"
    "put_mem_table s2 mid (t\<lparr>mt_data := d, mt_state := STATE_FLUSHED\<rparr>) = Inr s'"
proof (cases "LOG_INDEX_MEM_TBL_TID t = Suc (saved_max s)")
  case False
  then show ?thesis using w mid(1) that(1) by (simp add: log_index_write_table_def Let_def t_def)
next
  case True
  let ?k = "\<lambda>x. case x of Inl e \<Rightarrow> Inl (log_index_report_io_error e) | Inr (data, s1) \<Rightarrow>
      if mt_state t = STATE_ACTIVE then rbind (put_mem_table s1 mid (t\<lparr>mt_data := data\<rparr>)) (\<lambda>s. Inr (True, s)) else
      rbind (polar_log_index_write_meta lp s1 (meta_after_write (sn_meta s1) (LOG_INDEX_MEM_TBL_TID t) data) True) (\<lambda>s2.
      rbind (put_mem_table s2 mid (t\<lparr>mt_data := data, mt_state := STATE_FLUSHED\<rparr>)) (\<lambda>s. Inr (True, s)))"
  have "rbind (log_index_write_table_data lp s (mt_data t)) ?k = Inr (r, s')"
    using w mid True unfolding t_def by (simp add: log_index_write_table_def Let_def)
  then obtain x where x: "log_index_write_table_data lp s (mt_data t) = Inr x" "?k x = Inr (r, s')" by (rule rbind_InrE)
  obtain d s1 where d: "x = Inr (d, s1)" using x(2) by (cases x) auto
  show ?thesis
  proof (cases "mt_state t = STATE_ACTIVE")
    case a: True then show ?thesis using x d that(2) True by (auto simp: rbind_Inr_iff)
  next
    case False then show ?thesis using x d that(3) True by (auto simp: rbind_Inr_iff)
  qed
qed

text \<open>
  A table is written by the background writer, by a process that needs the slot, or, when it is
  the active one, on request.
\<close>

lemma storage_mono:
  assumes "storage lp L s" "sn_meta s' = sn_meta s" "sn_meta_file s' = sn_meta_file s"
    and "\<And>u C. 0 < u \<Longrightarrow> u \<le> saved_max s \<Longrightarrow> stored lp s u C \<Longrightarrow> stored lp s' u C"
    "file_slots s \<Longrightarrow> file_slots s'"
  shows "storage lp L s'"
  using assms unfolding storage_def meta_saved_def by simp

lemma storage_save:
  assumes st: "storage lp L s" and W: "stored lp s1 (Suc (saved_max s)) (L (Suc (saved_max s)))"
    "\<And>u C. stored lp s u C \<Longrightarrow> 0 < u \<Longrightarrow> u \<noteq> Suc (saved_max s) \<Longrightarrow> stored lp s1 u C" "sn_meta s1 = sn_meta s"
      "file_slots s \<Longrightarrow> file_slots s1"
    and m: "polar_log_index_write_meta lp s1 (meta_after_write (sn_meta s) (Suc (saved_max s)) d) True = Inr s2"
  shows "storage lp L s2" "saved_max s2 = Suc (saved_max s)" "\<exists>m. s2 = s1\<lparr>sn_meta := m, sn_meta_file := Some m\<rparr>"
    "lm_max_lsn (sn_meta s2) = lm_max_lsn (meta_after_write (sn_meta s) (Suc (saved_max s)) d)"
    "lm_min_segment_info (sn_meta s2) = lm_min_segment_info (meta_after_write (sn_meta s) (Suc (saved_max s)) d)"
proof -
  have seg: "min_seg_ok (saved_max s) (lm_min_segment_info (sn_meta s))" using st by (simp add: storage_def)
  obtain m' where m': "s2 = s1\<lparr>sn_meta := m', sn_meta_file := Some m'\<rparr>"
    "lm_max_idx_table_id m' = Suc (saved_max s)" "min_seg_ok (Suc (saved_max s)) (lm_min_segment_info m')"
    "fs_segment_no (lm_min_segment_info m') = min_segno s"
    "lm_magic m' = LOG_INDEX_MAGIC" "lm_version m' = LOG_INDEX_VERSION" "lm_crc m' = lp_crc_meta lp (m'\<lparr>lm_crc := 0\<rparr>)"
    "lm_max_lsn m' = lm_max_lsn (meta_after_write (sn_meta s) (Suc (saved_max s)) d)"
    "lm_min_segment_info m' = lm_min_segment_info (meta_after_write (sn_meta s) (Suc (saved_max s)) d)"
    "lm_max_lsn m' \<noteq> 0 \<longrightarrow> lm_start_lsn m' = lm_max_lsn m'"
    using write_meta_ok [OF m] min_seg_write [OF seg refl] by metis
  then show "saved_max s2 = Suc (saved_max s)" "\<exists>m. s2 = s1\<lparr>sn_meta := m, sn_meta_file := Some m\<rparr>"
    "lm_max_lsn (sn_meta s2) = lm_max_lsn (meta_after_write (sn_meta s) (Suc (saved_max s)) d)"
    "lm_min_segment_info (sn_meta s2) = lm_min_segment_info (meta_after_write (sn_meta s) (Suc (saved_max s)) d)" by auto
  have "stored lp s2 u C = stored lp s1 u C" for u C using m'(1) by (simp add: stored_def)
  then have "stored lp s2 u (L u)" if "0 < u" "u \<le> Suc (saved_max s)" "min_segno s \<le> segno u" for u
    using that W(1,2) st by (cases "u = Suc (saved_max s)") (auto simp: storage_def)
  moreover have "file_slots s2" using st W(4) m'(1) by (simp add: storage_def file_slots_def)
  ultimately show "storage lp L s2" using m' by (simp add: storage_def meta_saved_def)
qed

lemma write_table_Inr:
  assumes ok: "retained lp L act s" and mid: "mid < sn_mem_tbl_size s"
    and st: "mt_state (sn_mem_table s ! mid) = STATE_ACTIVE \<or> mt_state (sn_mem_table s ! mid) = STATE_INACTIVE"
    and w: "log_index_write_table lp s mid = Inr (r, s')"
  shows "retained lp L act s' \<and> kept s s' \<and>
    mt_state (sn_mem_table s' ! mid) = (if r \<and> mt_state (sn_mem_table s ! mid) = STATE_INACTIVE then STATE_FLUSHED else mt_state (sn_mem_table s ! mid))
    \<and> (fresh L act s \<longrightarrow> fresh L act s')
    \<and> (sn_meta s' = sn_meta s \<or> (\<exists>d. good_table lp d (Suc (saved_max s)) (L (Suc (saved_max s))) \<and> saved_max s' = Suc (saved_max s)
         \<and> lm_max_lsn (sn_meta s') = lm_max_lsn (meta_after_write (sn_meta s) (Suc (saved_max s)) d)
         \<and> lm_min_segment_info (sn_meta s') = lm_min_segment_info (meta_after_write (sn_meta s) (Suc (saved_max s)) d)))"
proof -
  let ?t = "sn_mem_table s ! mid"
  let ?tid = "LOG_INDEX_MEM_TBL_TID ?t"
  have R: "ring lp L act (sn_mem_tbl_size s) (sn_mem_table s) (saved_max s) (sn_max_idx_table_id s)"
    and S: "storage lp L s" using ok by (simp_all add: retained_def)
  note U = ring_unsaved [OF R mid st]
  have len: "mid < length (sn_mem_table s)" using ringD(2) [OF R] mid by simp
  show ?thesis using w len
  proof (cases rule: write_table_cases)
    case 1 then show ?thesis using ok by (simp add: kept_refl)
  next
    case (2 d s1)
    note W = write_table_data_ok [OF 2(3) U(4) refl]
    obtain F bl where s1: "s1 = s\<lparr>sn_files := F, sn_blooms := bl\<rparr>" using W(5) by blast
    have M: "act" "?tid = sn_max_idx_table_id s" "mid = (?tid - 1) mod sn_mem_tbl_size s" using U(3,5) 2(4) by simp_all
    have s': "s' = s1\<lparr>sn_mem_table := (sn_mem_table s)[mid := ?t\<lparr>mt_data := d\<rparr>]\<rparr>" using 2(5) s1 len by (simp add: put_mem_ok)
    have "ring lp (L(?tid := L ?tid)) act (sn_mem_tbl_size s) ((sn_mem_table s)[mid := ?t\<lparr>mt_data := d\<rparr>]) (saved_max s) ?tid"
      using R M W(3) 2(4) by (intro ring_last) (auto simp: good_table_def [THEN iffD1, OF W(1)])
    moreover have "storage lp L s'" using W(4,7) 2(2) U(1) S file_slots_cong [of s' s1]
      by (intro storage_mono [OF S]) (auto simp: s' s1 stored_def)
    moreover have "fresh L act s'" if "fresh L act s"
    proof -
      have "lsn_bounds d (L ?tid)" "td_prefix_lsn d = td_prefix_lsn (mt_data ?t)" using W(1) arg_cong [OF W(6), of td_prefix_lsn] by (simp_all add: good_table_def)
      then show ?thesis using that M len unfolding s' s1
        by (auto simp: fresh_def LOG_INDEX_MEM_TBL_IS_NEW_def lsn_bounds_def)
    qed
    moreover have "saved_kept s s'" using write_data_slot [OF 2(3)] 2(2) unfolding s' by (simp add: saved_kept_def) (simp add: s1)
    ultimately show ?thesis using ok M(2) 2(4) len unfolding s' s1 by (simp add: retained_def kept_def polar_logindex_check_state_def)
  next
    case (3 d s1 s2)
    note W = write_table_data_ok [OF 3(3) U(4) refl]
    obtain F bl where s1: "s1 = s\<lparr>sn_files := F, sn_blooms := bl\<rparr>" using W(5) by blast
    have inact: "mt_state ?t = STATE_INACTIVE" using st 3(4) by simp
    have m: "polar_log_index_write_meta lp s1 (meta_after_write (sn_meta s) (Suc (saved_max s)) d) True = Inr s2" using 3(5) s1 by simp
    have T: "storage lp L s2" "saved_max s2 = Suc (saved_max s)" "\<exists>m. s2 = s1\<lparr>sn_meta := m, sn_meta_file := Some m\<rparr>"
      "lm_max_lsn (sn_meta s2) = lm_max_lsn (meta_after_write (sn_meta s) (Suc (saved_max s)) d)"
      "lm_min_segment_info (sn_meta s2) = lm_min_segment_info (meta_after_write (sn_meta s) (Suc (saved_max s)) d)"
      using storage_save [OF S _ _ _ _ m] W(2,4,7) 3(2) s1 by simp_all
    obtain m where s2: "s2 = s1\<lparr>sn_meta := m, sn_meta_file := Some m\<rparr>" using T(3) by blast
    have s': "s' = s2\<lparr>sn_mem_table := (sn_mem_table s)[mid := ?t\<lparr>mt_data := d, mt_state := STATE_FLUSHED\<rparr>]\<rparr>"
      using 3(6) s1 s2 len by (simp add: put_mem_ok)
    have "ring lp L act (sn_mem_tbl_size s) ((sn_mem_table s)[mid := ?t\<lparr>mt_data := d, mt_state := STATE_FLUSHED\<rparr>])
        (Suc (saved_max s)) (sn_max_idx_table_id s)"
      using ring_save [OF R mid inact 3(2)] W(1,3) 3(2) by (simp add: good_table_def)
    moreover have "storage lp L s'" using T(1) file_slots_cong [of s' s2] by (intro storage_mono [OF T(1)]) (auto simp: s' stored_def)
    ultimately have "retained lp L act s'" using ok T(2) unfolding s' s1 s2 by (simp add: retained_def polar_logindex_check_state_def)
    moreover have "good_table lp d (Suc (saved_max s)) (L (Suc (saved_max s)))" using W(1) 3(2) by simp
    moreover have "fresh L act s'" if "fresh L act s"
    proof -
      have "mid \<noteq> (sn_max_idx_table_id s - 1) mod sn_mem_tbl_size s" if act
        using ringD(10) [OF R, of "sn_max_idx_table_id s"] ringD(5) [OF R that] that inact by auto
      then show ?thesis using that unfolding s' s1 s2 by (simp add: fresh_def)
    qed
    moreover have "saved_kept s s'"
    proof -
      have "min_segno s2 = min_segno s" using T(5) min_seg_write(2) [of "saved_max s" "sn_meta s" d] S by (simp add: storage_def)
      moreover have "slot_of s' u = Some x" if "0 < u" "u \<le> saved_max s" "slot_of s u = Some x" for u x
        using write_data_slot [OF 3(3), of u x] 3(2) that by (simp add: s' s2)
      ultimately show ?thesis using T(2) by (simp add: saved_kept_def s') (simp add: s1 s2)
    qed
    ultimately show ?thesis using T(2,4,5) inact 3(1) len unfolding s' s1 s2 by (auto simp: kept_def)
  qed
qed

end
