(* ===== verification/Logindex_Steps.thy ===== *)
theory Logindex_Steps
  imports Logindex_Retention
begin

text \<open>
  The steps of the processes that do not add LSNs: truncation, flushing tables, and reading a
  saved table into a slot. Each keeps the records of the snapshot.
\<close>

section \<open>Truncation\<close>

lemma min_seg_next:
  assumes "min_seg_ok D g" "0 < D" "fs_segment_no g < segno D"
  shows "segno D = Suc (fs_segment_no g) \<Longrightarrow> min_seg_ok D (g\<lparr>fs_segment_no := Suc (fs_segment_no g),
      fs_min_idx_table_id := 64 * Suc (fs_segment_no g) + 1, fs_max_idx_table_id := D, fs_max_lsn := x\<rparr>)"
    "segno D \<noteq> Suc (fs_segment_no g) \<Longrightarrow> min_seg_ok D (g\<lparr>fs_segment_no := Suc (fs_segment_no g),
      fs_min_idx_table_id := 64 * Suc (fs_segment_no g) + 1, fs_max_idx_table_id := 64 * Suc (Suc (fs_segment_no g)), fs_max_lsn := x\<rparr>)"
    "segno D \<noteq> Suc (fs_segment_no g) \<Longrightarrow> 64 * Suc (Suc (fs_segment_no g)) \<le> D"
proof -
  have D: "segno D = (D - 1) div 64" using seg_slot(1) [OF assms(2)] .
  show "min_seg_ok D (g\<lparr>fs_segment_no := Suc (fs_segment_no g), fs_min_idx_table_id := 64 * Suc (fs_segment_no g) + 1,
      fs_max_idx_table_id := D, fs_max_lsn := x\<rparr>)" if "segno D = Suc (fs_segment_no g)"
    using that assms(2) D by (simp add: min_seg_ok_def)
  assume "segno D \<noteq> Suc (fs_segment_no g)"
  then have "Suc (Suc (fs_segment_no g)) \<le> (D - 1) div 64" using assms(3) D by linarith
  then have "Suc (Suc (fs_segment_no g)) * 64 \<le> D - 1" by (simp add: less_eq_div_iff_mult_less_eq)
  then show le: "64 * Suc (Suc (fs_segment_no g)) \<le> D" by linarith
  then show "min_seg_ok D (g\<lparr>fs_segment_no := Suc (fs_segment_no g), fs_min_idx_table_id := 64 * Suc (fs_segment_no g) + 1,
      fs_max_idx_table_id := 64 * Suc (Suc (fs_segment_no g)), fs_max_lsn := x\<rparr>)"
    using assms(2,3) by (simp add: min_seg_ok_def)
qed

text \<open>The table that ends the segment \<open>g\<close>.\<close>

lemma segno_end: "segno (64 * Suc g) = g"
  by (simp add: LOG_INDEX_FILE_TABLE_SEGMENT_NO_def LOG_INDEX_TABLE_NUM_PER_FILE_def tid_pred_def)

lemma stored_end:
  assumes "storage lp L s" "64 * Suc (Suc (min_segno s)) \<le> saved_max s"
  shows "stored lp s (64 * Suc (Suc (min_segno s))) (L (64 * Suc (Suc (min_segno s))))"
  using assms segno_end [of "Suc (min_segno s)"] unfolding storage_def by simp

lemma update_min_segment_Inr:
  assumes st: "storage lp L s" and D: "0 < saved_max s" "min_segno s < segno (saved_max s)"
    and u: "log_index_update_min_segment lp s = Inr s'"
  obtains m where "s' = s\<lparr>sn_meta := m, sn_meta_file := Some m\<rparr>" "lm_max_idx_table_id m = saved_max s"
    "lm_max_lsn m = lm_max_lsn (sn_meta s)" "min_seg_ok (saved_max s) (lm_min_segment_info m)"
    "fs_segment_no (lm_min_segment_info m) = Suc (min_segno s)"
    "lm_magic m = LOG_INDEX_MAGIC" "lm_version m = LOG_INDEX_VERSION" "lm_crc m = lp_crc_meta lp (m\<lparr>lm_crc := 0\<rparr>)"
    "lm_max_lsn m \<noteq> 0 \<longrightarrow> lm_start_lsn m = lm_max_lsn m"
    "fs_max_lsn (lm_min_segment_info m) = lm_max_lsn (sn_meta s)
     \<or> (\<exists>t. good_table lp t (64 * Suc (Suc (min_segno s))) (L (64 * Suc (Suc (min_segno s)))) \<and> fs_max_lsn (lm_min_segment_info m) = td_max_lsn t
          \<and> 64 * Suc (Suc (min_segno s)) \<le> saved_max s)"
proof -
  let ?g = "lm_min_segment_info (sn_meta s)" and ?D = "saved_max s"
  let ?e = "64 * Suc (Suc (fs_segment_no ?g))"
  have seg: "min_seg_ok ?D ?g" using st by (simp add: storage_def)
  note N = min_seg_next [OF seg D]
  let ?w = "\<lambda>g'. polar_log_index_write_meta lp s ((sn_meta s)\<lparr>lm_min_segment_info := g'\<rparr>) True = Inr s'"
  let ?g1 = "?g\<lparr>fs_segment_no := Suc (fs_segment_no ?g), fs_min_idx_table_id := 64 * Suc (fs_segment_no ?g) + 1\<rparr>"
  have "\<exists>g'. ?w g' \<and> min_seg_ok ?D g' \<and> fs_segment_no g' = Suc (min_segno s) \<and> (fs_max_lsn g' = lm_max_lsn (sn_meta s)
     \<or> (\<exists>t. good_table lp t ?e (L ?e) \<and> fs_max_lsn g' = td_max_lsn t \<and> ?e \<le> ?D))"
  proof (cases "segno ?D = Suc (fs_segment_no ?g)")
    case True
    then have "?w (?g1\<lparr>fs_max_idx_table_id := ?D, fs_max_lsn := lm_max_lsn (sn_meta s)\<rparr>)"
      using u by (simp add: log_index_update_min_segment_def Let_def LOG_INDEX_TABLE_NUM_PER_FILE_def mult.commute)
    then show ?thesis using N(1) [OF True, of "lm_max_lsn (sn_meta s)"] by auto
  next
    case False
    note stor = stored_end [OF st N(3) [OF False]]
    obtain t where t: "log_index_read_table_data lp s ?e = Inr t"
        "?w (?g1\<lparr>fs_max_idx_table_id := ?e, fs_max_lsn := td_max_lsn t\<rparr>)"
      using u False by (auto simp: log_index_update_min_segment_def Let_def LOG_INDEX_TABLE_NUM_PER_FILE_def mult.commute rbind_Inr_iff
          split: sum.splits)
    then have "good_table lp t ?e (L ?e)" using read_stored [OF stor] by simp
    then show ?thesis using t(2) N(2) [OF False, of "td_max_lsn t"] N(3) [OF False]
      by (intro exI [of _ "?g1\<lparr>fs_max_idx_table_id := ?e, fs_max_lsn := td_max_lsn t\<rparr>"]) auto
  qed
  then obtain g' where g': "?w g'" "min_seg_ok ?D g'" "fs_segment_no g' = Suc (min_segno s)" "fs_max_lsn g' = lm_max_lsn (sn_meta s)
     \<or> (\<exists>t. good_table lp t ?e (L ?e) \<and> fs_max_lsn g' = td_max_lsn t \<and> ?e \<le> ?D)" by blast
  show ?thesis using g'(1)
  proof (rule write_meta_ok)
    fix m assume "s' = s\<lparr>sn_meta := m, sn_meta_file := Some m\<rparr>" "lm_max_idx_table_id m = lm_max_idx_table_id ((sn_meta s)\<lparr>lm_min_segment_info := g'\<rparr>)"
      "lm_min_segment_info m = lm_min_segment_info ((sn_meta s)\<lparr>lm_min_segment_info := g'\<rparr>)"
      "lm_max_lsn m = lm_max_lsn ((sn_meta s)\<lparr>lm_min_segment_info := g'\<rparr>)"
      "lm_magic m = LOG_INDEX_MAGIC" "lm_version m = LOG_INDEX_VERSION" "lm_crc m = lp_crc_meta lp (m\<lparr>lm_crc := 0\<rparr>)"
      "lm_start_lsn m = (if lm_max_lsn ((sn_meta s)\<lparr>lm_min_segment_info := g'\<rparr>) \<noteq> 0 then lm_max_lsn ((sn_meta s)\<lparr>lm_min_segment_info := g'\<rparr>)
        else lm_start_lsn ((sn_meta s)\<lparr>lm_min_segment_info := g'\<rparr>))"
    then show ?thesis using g'(2-4) by (intro that [of m]) simp_all
  qed
qed

lemma stored_cong: "sn_files s' = sn_files s \<Longrightarrow> sn_blooms s' = sn_blooms s \<Longrightarrow> stored lp s' u C = stored lp s u C"
  by (simp add: stored_def)

text \<open>A segment file is removed, or its name is used for a new one.\<close>

definition drop_seg :: "log_index_snapshot \<Rightarrow> nat \<Rightarrow> log_index_snapshot \<Rightarrow> bool" where
  "drop_seg s g s' \<longleftrightarrow> (\<exists>F k. s' = s\<lparr>sn_files := F, sn_max_allocated_seg_no := k\<rparr>
     \<and> (\<forall>i. i \<noteq> g \<longrightarrow> i \<le> segno (saved_max s) \<longrightarrow> F i = sn_files s i)
     \<and> (\<forall>i. F i = None \<or> F i = sn_files s i \<or> g < i \<and> F i = sn_files s g))"

lemma drop_seg_unlink: "drop_seg s g (s\<lparr>sn_files := (sn_files s)(g := None)\<rparr>)"
  unfolding drop_seg_def by (intro exI [of _ "(sn_files s)(g := None)"] exI [of _ "sn_max_allocated_seg_no s"]) simp

lemma drop_seg_rename: "log_index_rename_segment_file lp s g = (True, s') \<Longrightarrow> g \<le> segno (saved_max s) \<Longrightarrow> drop_seg s g s'"
  unfolding drop_seg_def log_index_rename_segment_file_def Let_def
  by (auto split: if_splits intro!: exI)

lemma drop_seg_slots:
  assumes "drop_seg s g s'" "file_slots s"
  shows "file_slots s'"
  unfolding file_slots_def
proof (intro allI impI)
  fix i f assume f: "sn_files s' i = Some f"
  obtain F k where F: "s' = s\<lparr>sn_files := F, sn_max_allocated_seg_no := k\<rparr>" "F i = None \<or> F i = sn_files s i \<or> g < i \<and> F i = sn_files s g"
    using assms(1) unfolding drop_seg_def by blast
  then have "sn_files s i = Some f \<or> g < i \<and> sn_files s g = Some f" using f by auto
  then show "length f \<le> 64 \<and> (\<forall>j < length f. td_idx_table_id (f ! j) = 64 * i + Suc j \<or> td_idx_table_id (f ! j) \<le> 64 * i)"
  proof
    assume g: "g < i \<and> sn_files s g = Some f"
    then have f: "length f \<le> 64" "\<And>j. j < length f \<Longrightarrow> td_idx_table_id (f ! j) = 64 * g + Suc j \<or> td_idx_table_id (f ! j) \<le> 64 * g"
      using assms(2) unfolding file_slots_def by blast+
    have "td_idx_table_id (f ! j) \<le> 64 * i" if "j < length f" for j using f(1) f(2) [OF that] g that by linarith
    then show ?thesis using f(1) by blast
  qed (use assms(2) in \<open>simp add: file_slots_def\<close>)
qed

lemma rename_fails: "log_index_rename_segment_file lp s g = (False, s') \<Longrightarrow> s' = s"
  by (auto simp: log_index_rename_segment_file_def Let_def split: if_splits)

lemma truncate_cases:
  assumes "log_index_truncate lp s lsn = Inr (again, s')"
  obtains "\<not> again" "s' = s"
  | s1 where again "lm_max_lsn (sn_meta s) \<noteq> 0" "fs_max_lsn (lm_min_segment_info (sn_meta s)) < lsn"
    "segno (saved_max s) \<noteq> min_segno s" "log_index_update_min_segment lp s = Inr s1"
    "min_segno s \<le> segno (saved_max s1) \<Longrightarrow>
       drop_seg (bloom_truncate s1 (fs_max_idx_table_id (lm_min_segment_info (sn_meta s)))) (min_segno s) s'"
proof (cases "lm_crc (sn_meta s) = 0 \<or> lm_max_lsn (sn_meta s) = 0 \<or> fs_max_lsn (lm_min_segment_info (sn_meta s)) = 0
    \<or> fs_max_lsn (lm_min_segment_info (sn_meta s)) \<ge> lsn \<or> segno (saved_max s) = min_segno s")
  case True
  then show ?thesis using assms that(1) by (auto simp: log_index_truncate_def Let_def split: if_splits)
next
  case False
  let ?b = "\<lambda>s1. bloom_truncate s1 (fs_max_idx_table_id (lm_min_segment_info (sn_meta s)))"
  let ?k = "\<lambda>s1. let (renamed, s) = log_index_rename_segment_file lp (?b s1) (min_segno s) in
      Inr (True, if renamed then s else s\<lparr>sn_files := (sn_files s)(min_segno s := None)\<rparr>) :: (bool \<times> log_index_snapshot) result"
  obtain s1 where s1: "log_index_update_min_segment lp s = Inr s1"
    "again" "(\<exists>s2. log_index_rename_segment_file lp (?b s1) (min_segno s) = (True, s2) \<and> s' = s2)
      \<or> s' = (?b s1)\<lparr>sn_files := (sn_files (?b s1))(min_segno s := None)\<rparr>"
    using assms False by (auto simp: log_index_truncate_def Let_def rbind_Inr_iff split: if_splits prod.splits dest!: rename_fails)
  have "sn_meta (?b s1) = sn_meta s1" by (simp add: bloom_truncate_def)
  then show ?thesis using False s1 drop_seg_rename drop_seg_unlink by (intro that(2) [of s1]) auto
qed

lemma truncate_Inr:
  assumes ok: "retained lp L act s" and tr: "log_index_truncate lp s lsn = Inr (again, s')"
  shows "retained lp L act s' \<and> kept s s' \<and> saved_max s' = saved_max s \<and> sn_mem_table s' = sn_mem_table s \<and> (again \<longrightarrow> min_segno s' = Suc (min_segno s))"
  using tr
proof (cases rule: truncate_cases)
  case 1 then show ?thesis using ok by (simp add: kept_refl)
next
  case (2 s1)
  have R: "ring lp L act (sn_mem_tbl_size s) (sn_mem_table s) (saved_max s) (sn_max_idx_table_id s)"
    and S: "storage lp L s" using ok by (simp_all add: retained_def)
  let ?g = "lm_min_segment_info (sn_meta s)"
  have D: "0 < saved_max s" using S 2(2) by (auto simp: storage_def)
  then have seg: "min_segno s < segno (saved_max s)" and mx: "fs_max_idx_table_id ?g = min (saved_max s) (64 * Suc (min_segno s))"
    using S 2(4) by (auto simp: storage_def min_seg_ok_def)
  obtain m where m: "s1 = s\<lparr>sn_meta := m, sn_meta_file := Some m\<rparr>" "lm_max_idx_table_id m = saved_max s"
    "lm_max_lsn m = lm_max_lsn (sn_meta s)" "min_seg_ok (saved_max s) (lm_min_segment_info m)"
    "fs_segment_no (lm_min_segment_info m) = Suc (min_segno s)"
    "lm_magic m = LOG_INDEX_MAGIC" "lm_version m = LOG_INDEX_VERSION" "lm_crc m = lp_crc_meta lp (m\<lparr>lm_crc := 0\<rparr>)"
    "lm_max_lsn m \<noteq> 0 \<longrightarrow> lm_start_lsn m = lm_max_lsn m"
    using update_min_segment_Inr [OF S D seg 2(5)] .
  have drop: "drop_seg (bloom_truncate s1 (fs_max_idx_table_id ?g)) (min_segno s) s'" using 2(6) m(1,2) seg by simp
  obtain F k where F: "s' = (bloom_truncate s1 (fs_max_idx_table_id ?g))\<lparr>sn_files := F, sn_max_allocated_seg_no := k\<rparr>"
    "\<And>i. i \<noteq> min_segno s \<Longrightarrow> i \<le> segno (saved_max s) \<Longrightarrow> F i = sn_files s i"
    using drop m unfolding drop_seg_def by (auto simp: bloom_truncate_def)
  have "segno (fs_max_idx_table_id ?g) \<le> min_segno s"
    using segno_mono [of "fs_max_idx_table_id ?g" "64 * Suc (min_segno s)"] D mx segno_end [of "min_segno s"] by simp
  then have st: "stored lp s u C \<Longrightarrow> stored lp s' u C" if "0 < u" "u \<le> saved_max s" "Suc (min_segno s) \<le> segno u" for u C
    using that F(2) [of "segno u"] segno_mono [of u "saved_max s"] m(1) unfolding F(1) stored_def by (auto simp: bloom_truncate_def)
  have "file_slots s1" using S m(1) by (simp add: storage_def file_slots_def)
  then have "file_slots s'" using drop_seg_slots [OF drop] by (simp add: bloom_truncate_def file_slots_def)
  then have "storage lp L s'" using S m F(1) st unfolding storage_def by (auto simp: bloom_truncate_def meta_saved_def)
  moreover have "saved_kept s s'"
    using F segno_mono [of _ "saved_max s"] m(1,2,5) by (auto simp: saved_kept_def slot_of_def bloom_truncate_def)
  ultimately show ?thesis using ok m F(1) by (simp add: retained_def kept_def bloom_truncate_def polar_logindex_check_state_def)
qed

section \<open>LSN bounds\<close>

text \<open>The LSNs were added in their order, and a table is closed only when there is something in it.\<close>

definition log_sorted :: "(nat \<Rightarrow> log_index_lsn list) \<Rightarrow> bool" where
  "log_sorted L \<longleftrightarrow> (\<forall>i. sorted (map li_lsn (L i)))
     \<and> (\<forall>i j. 0 < i \<and> i < j \<longrightarrow> (\<forall>a \<in> set (L i). \<forall>b \<in> set (L j). li_lsn a \<le> li_lsn b))"

definition filled :: "(nat \<Rightarrow> log_index_lsn list) \<Rightarrow> bool \<Rightarrow> nat \<Rightarrow> bool" where
  "filled L act M \<longleftrightarrow> (\<forall>tid. 0 < tid \<and> tid \<le> M \<and> (act \<longrightarrow> tid < M) \<longrightarrow> L tid \<noteq> [])"

definition meta_bounds :: "(nat \<Rightarrow> log_index_lsn list) \<Rightarrow> log_index_meta \<Rightarrow> bool" where
  "meta_bounds L m \<longleftrightarrow> (\<forall>tid a. 0 < tid \<and> tid \<le> lm_max_idx_table_id m \<and> a \<in> set (L tid) \<longrightarrow> li_lsn a \<le> lm_max_lsn m
     \<and> (segno tid = fs_segment_no (lm_min_segment_info m) \<longrightarrow> li_lsn a \<le> fs_max_lsn (lm_min_segment_info m)))
     \<and> (lm_max_lsn m = 0 \<or> (\<exists>tid a. 0 < tid \<and> tid \<le> lm_max_idx_table_id m \<and> a \<in> set (L tid) \<and> li_lsn a = lm_max_lsn m))"

lemma meta_bounds_cong:
  assumes "\<And>tid. tid \<le> lm_max_idx_table_id m \<Longrightarrow> L' tid = L tid"
  shows "meta_bounds L' m = meta_bounds L m"
  unfolding meta_bounds_def by (simp add: assms cong: conj_cong)

lemma page_log_bounds:
  assumes "sorted (map li_lsn A)" "a \<in> set A"
  shows "li_lsn (hd (page_log (li_tag a) A)) \<le> li_lsn a" "li_lsn a \<le> li_lsn (last (page_log (li_tag a) A))"
proof -
  let ?P = "page_log (li_tag a) A"
  have P: "a \<in> set ?P" "sorted (map li_lsn ?P)" using assms by (simp_all add: page_log_def sorted_filter)
  then obtain k where k: "k < length ?P" "?P ! k = a" by (auto simp: in_set_conv_nth)
  then have "map li_lsn ?P ! 0 \<le> li_lsn a" "li_lsn a \<le> map li_lsn ?P ! (length ?P - 1)"
    using sorted_nth_mono [OF P(2), of 0 k] sorted_nth_mono [OF P(2), of k "length ?P - 1"] by simp_all
  moreover have "?P \<noteq> []" using k(1) by auto
  ultimately show "li_lsn (hd ?P) \<le> li_lsn a" "li_lsn a \<le> li_lsn (last ?P)" by (simp_all add: hd_conv_nth last_conv_nth)
qed

lemma lsn_bounds_sorted:
  assumes "lsn_bounds t A" "sorted (map li_lsn A)" "a \<in> set A"
  shows "li_lsn a \<le> td_max_lsn t" "td_min_lsn t \<le> li_lsn a"
  using page_log_bounds [OF assms(2,3)] assms(1,3) unfolding lsn_bounds_def by fastforce+

lemma meta_bounds_write:
  assumes b: "meta_bounds L m" "lm_max_idx_table_id m = D" and seg: "min_seg_ok D (lm_min_segment_info m)"
    and d: "lsn_bounds d (L (Suc D))" "sorted (map li_lsn (L (Suc D)))"
    and m': "lm_max_idx_table_id m' = Suc D" "lm_max_lsn m' = lm_max_lsn (meta_after_write m (Suc D) d)"
      "lm_min_segment_info m' = lm_min_segment_info (meta_after_write m (Suc D) d)"
  shows "meta_bounds L m'"
proof -
  note W = min_seg_write [OF seg b(2), of d]
  let ?g = "lm_min_segment_info m" and ?g' = "lm_min_segment_info m'"
  have g': "segno (Suc D) = fs_segment_no ?g \<Longrightarrow> fs_max_lsn ?g' = max (td_max_lsn d) (fs_max_lsn ?g)"
    "segno (Suc D) \<noteq> fs_segment_no ?g \<Longrightarrow> fs_max_lsn ?g' = fs_max_lsn ?g"
    using W(2) unfolding m'(3) by (auto simp: meta_after_write_def Let_def)
  then have le: "fs_max_lsn ?g \<le> fs_max_lsn ?g'" by (cases "segno (Suc D) = fs_segment_no ?g") simp_all
  have att: "lm_max_lsn m' = 0 \<or> (\<exists>tid a. 0 < tid \<and> tid \<le> Suc D \<and> a \<in> set (L tid) \<and> li_lsn a = lm_max_lsn m')"
  proof -
    have "lm_max_lsn m' = lm_max_lsn m \<or> lm_max_lsn m' = td_max_lsn d" using m'(2) W(4) by (simp add: max_def)
    moreover have "lm_max_lsn m = 0 \<or> (\<exists>tid a. 0 < tid \<and> tid \<le> Suc D \<and> a \<in> set (L tid) \<and> li_lsn a = lm_max_lsn m)"
      using b unfolding meta_bounds_def by (metis le_SucI)
    moreover have "td_max_lsn d = 0 \<or> (\<exists>a. a \<in> set (L (Suc D)) \<and> li_lsn a = td_max_lsn d)" using d(1) by (auto simp: lsn_bounds_def)
    ultimately show ?thesis by (metis le_refl zero_less_Suc)
  qed
  show ?thesis unfolding meta_bounds_def m'(1)
  proof (rule conjI [OF _ att], intro allI impI, elim conjE)
    fix tid a assume tid: "0 < tid" "tid \<le> Suc D" "a \<in> set (L tid)"
    show "li_lsn a \<le> lm_max_lsn m' \<and> (segno tid = fs_segment_no ?g' \<longrightarrow> li_lsn a \<le> fs_max_lsn ?g')"
    proof (cases "tid = Suc D")
      case True
      then show ?thesis using lsn_bounds_sorted(1) [OF d, of a] tid(3) g'(1) W(2,4) m'(2,3) by (auto simp: le_max_iff_disj)
    next
      case False
      then have "tid \<le> lm_max_idx_table_id m" using tid(2) b(2) by simp
      then have "li_lsn a \<le> lm_max_lsn m" "segno tid = fs_segment_no ?g \<Longrightarrow> li_lsn a \<le> fs_max_lsn ?g"
        using b(1) tid(1,3) by (auto simp: meta_bounds_def)
      then show ?thesis using le W(2,4) m'(2,3) by (auto simp: le_max_iff_disj)
    qed
  qed
qed

lemma meta_bounds_next:
  assumes b: "meta_bounds L (sn_meta s)" and L: "log_sorted L" and ne: "\<And>tid. 0 < tid \<Longrightarrow> tid \<le> saved_max s \<Longrightarrow> L tid \<noteq> []"
    and m: "lm_max_idx_table_id m = saved_max s" "lm_max_lsn m = lm_max_lsn (sn_meta s)"
      "fs_segment_no (lm_min_segment_info m) = Suc (min_segno s)"
      "fs_max_lsn (lm_min_segment_info m) = lm_max_lsn (sn_meta s)
     \<or> (\<exists>t. good_table lp t (64 * Suc (Suc (min_segno s))) (L (64 * Suc (Suc (min_segno s)))) \<and> fs_max_lsn (lm_min_segment_info m) = td_max_lsn t
          \<and> 64 * Suc (Suc (min_segno s)) \<le> saved_max s)"
  shows "meta_bounds L m"
  unfolding meta_bounds_def m(1-3)
proof (rule conjI, intro allI impI, elim conjE, intro conjI impI)
  show "lm_max_lsn (sn_meta s) = 0 \<or> (\<exists>tid a. 0 < tid \<and> tid \<le> saved_max s \<and> a \<in> set (L tid) \<and> li_lsn a = lm_max_lsn (sn_meta s))"
    using b by (simp add: meta_bounds_def)
next
  fix tid a assume tid: "0 < tid" "tid \<le> saved_max s" "a \<in> set (L tid)"
  show mx: "li_lsn a \<le> lm_max_lsn (sn_meta s)" using b tid by (auto simp: meta_bounds_def)
  assume seg: "segno tid = Suc (min_segno s)"
  let ?e = "64 * Suc (Suc (min_segno s))"
  have "tid - 1 < Suc (Suc (min_segno s)) * 64" using seg seg_slot(1) [OF tid(1)] by (simp add: div_less_iff_less_mult)
  then have le: "tid \<le> ?e" by linarith
  show "li_lsn a \<le> fs_max_lsn (lm_min_segment_info m)" using m(4)
  proof (elim disjE exE conjE)
    fix t assume t: "good_table lp t ?e (L ?e)" "fs_max_lsn (lm_min_segment_info m) = td_max_lsn t" "?e \<le> saved_max s"
    have bd: "lsn_bounds t (L ?e)" "sorted (map li_lsn (L ?e))" using t(1) L by (simp_all add: good_table_def log_sorted_def)
    obtain c where c: "c \<in> set (L ?e)" using ne [of ?e] t(3) by (cases "L ?e") auto
    show ?thesis
    proof (cases "tid = ?e")
      case True then show ?thesis using lsn_bounds_sorted(1) [OF bd] tid(3) t(2) by simp
    next
      case False
      then have "li_lsn a \<le> li_lsn c" using L tid c le unfolding log_sorted_def by (metis le_neq_implies_less)
      then show ?thesis using lsn_bounds_sorted(1) [OF bd c] t(2) by (simp add: order_trans)
    qed
  qed (use mx in simp)
qed

text \<open>The invariant of a snapshot that holds the records \<open>L\<close>; first without the condition on a table just opened.\<close>

definition opened :: "logindex_params \<Rightarrow> (nat \<Rightarrow> log_index_lsn list) \<Rightarrow> bool \<Rightarrow> log_index_snapshot \<Rightarrow> bool" where
  "opened lp L act s \<longleftrightarrow> retained lp L act s \<and> log_sorted L \<and> filled L act (sn_max_idx_table_id s) \<and> meta_bounds L (sn_meta s)"

definition recorded :: "logindex_params \<Rightarrow> (nat \<Rightarrow> log_index_lsn list) \<Rightarrow> bool \<Rightarrow> log_index_snapshot \<Rightarrow> bool" where
  "recorded lp L act s \<longleftrightarrow> opened lp L act s \<and> fresh L act s"

lemma recorded_ring: "recorded lp L act s \<Longrightarrow>
    ring lp L act (sn_mem_tbl_size s) (sn_mem_table s) (saved_max s) (sn_max_idx_table_id s)"
  by (simp add: recorded_def opened_def retained_def)

lemma recorded_storage: "recorded lp L act s \<Longrightarrow> storage lp L s"
  by (simp add: recorded_def opened_def retained_def)

lemma recorded_saved_filled: "recorded lp L act s \<Longrightarrow> 0 < tid \<Longrightarrow> tid \<le> saved_max s \<Longrightarrow> L tid \<noteq> []"
proof -
  assume ok: "recorded lp L act s" and tid: "0 < tid" "tid \<le> saved_max s"
  have "filled L act (sn_max_idx_table_id s)" using ok by (simp add: recorded_def opened_def)
  moreover have "tid \<le> sn_max_idx_table_id s" "act \<longrightarrow> tid < sn_max_idx_table_id s"
    using tid ringD(3,5) [OF recorded_ring [OF ok]] by auto
  ultimately show "L tid \<noteq> []" using tid(1) by (simp add: filled_def)
qed

lemma write_table_recorded:
  assumes ok: "recorded lp L act s" and mid: "mid < sn_mem_tbl_size s"
    and st: "mt_state (sn_mem_table s ! mid) = STATE_ACTIVE \<or> mt_state (sn_mem_table s ! mid) = STATE_INACTIVE"
    and w: "log_index_write_table lp s mid = Inr (r, s')"
  shows "recorded lp L act s'" "kept s s'"
    "mt_state (sn_mem_table s' ! mid) = (if r \<and> mt_state (sn_mem_table s ! mid) = STATE_INACTIVE then STATE_FLUSHED else mt_state (sn_mem_table s ! mid))"
proof -
  have ret: "retained lp L act s" and b: "log_sorted L" "filled L act (sn_max_idx_table_id s)" "meta_bounds L (sn_meta s)"
    using ok by (simp_all add: recorded_def opened_def)
  note W = write_table_Inr [OF ret mid st w]
  have "meta_bounds L (sn_meta s')"
  proof (cases "sn_meta s' = sn_meta s")
    case False
    then obtain d where d: "good_table lp d (Suc (saved_max s)) (L (Suc (saved_max s)))" "saved_max s' = Suc (saved_max s)"
      "lm_max_lsn (sn_meta s') = lm_max_lsn (meta_after_write (sn_meta s) (Suc (saved_max s)) d)"
      "lm_min_segment_info (sn_meta s') = lm_min_segment_info (meta_after_write (sn_meta s) (Suc (saved_max s)) d)" using W by blast
    have "min_seg_ok (saved_max s) (lm_min_segment_info (sn_meta s))" using recorded_storage [OF ok] by (simp add: storage_def)
    then show ?thesis using meta_bounds_write [OF b(3) refl _ _ _ d(2-4)] d(1) b(1) by (simp add: good_table_def log_sorted_def)
  qed (use b(3) in simp)
  then show "recorded lp L act s'" using W b ok by (simp add: recorded_def opened_def kept_def)
  show "kept s s'" "mt_state (sn_mem_table s' ! mid) =
    (if r \<and> mt_state (sn_mem_table s ! mid) = STATE_INACTIVE then STATE_FLUSHED else mt_state (sn_mem_table s ! mid))"
    using W by blast+
qed

text \<open>
  Truncation removes a segment only if all LSNs in its tables are below the limit, and no other
  table.
\<close>

lemma truncate_recorded:
  assumes ok: "recorded lp L act s" and tr: "log_index_truncate lp s lsn = Inr (again, s')"
  shows "recorded lp L act s'" "kept s s'" "saved_max s' = saved_max s" "again \<Longrightarrow> min_segno s' = Suc (min_segno s)" "\<not> again \<Longrightarrow> s' = s"
    "again \<Longrightarrow> 0 < tid \<Longrightarrow> tid \<le> saved_max s \<Longrightarrow> segno tid = min_segno s \<Longrightarrow> a \<in> set (L tid) \<Longrightarrow> li_lsn a < lsn"
proof -
  have ret: "retained lp L act s" and b: "log_sorted L" "filled L act (sn_max_idx_table_id s)" "meta_bounds L (sn_meta s)"
    using ok by (simp_all add: recorded_def opened_def)
  note T = truncate_Inr [OF ret tr]
  show "kept s s'" "saved_max s' = saved_max s" "again \<Longrightarrow> min_segno s' = Suc (min_segno s)" using T by blast+
  show "\<not> again \<Longrightarrow> s' = s" using truncate_cases [OF tr] by blast
  have "meta_bounds L (sn_meta s') \<and> (again \<longrightarrow> fs_max_lsn (lm_min_segment_info (sn_meta s)) < lsn)"
    using tr
  proof (cases rule: truncate_cases)
    case (2 s1)
    have S: "storage lp L s" using recorded_storage [OF ok] .
    have D: "0 < saved_max s" using S 2(2) by (auto simp: storage_def)
    then have seg: "min_segno s < segno (saved_max s)" using S 2(4) by (auto simp: storage_def min_seg_ok_def)
    show ?thesis using update_min_segment_Inr [OF S D seg 2(5)]
    proof cases
      case (1 m)
      have "sn_meta s' = m" using 2(6) 1(1,2) seg unfolding drop_seg_def by (auto simp: bloom_truncate_def)
      then show ?thesis using meta_bounds_next [OF b(3,1) recorded_saved_filled [OF ok] 1(2,3,5,10)] 2(3) by simp
    qed
  qed (use b(3) in simp)
  then show "recorded lp L act s'" using T b ok by (simp add: recorded_def opened_def kept_def fresh_def)
  assume "again" "0 < tid" "tid \<le> saved_max s" "segno tid = min_segno s" "a \<in> set (L tid)"
  moreover from this have "li_lsn a \<le> fs_max_lsn (lm_min_segment_info (sn_meta s))" using b(3) unfolding meta_bounds_def by blast
  ultimately show "li_lsn a < lsn"
    using \<open>meta_bounds L (sn_meta s') \<and> (again \<longrightarrow> fs_max_lsn (lm_min_segment_info (sn_meta s)) < lsn)\<close> by (blast intro: le_less_trans)
qed

section \<open>The truncation loop\<close>

text \<open>What a truncation may do: segments from the smallest on go, if all their LSNs are below the limit.\<close>

definition truncated :: "(nat \<Rightarrow> log_index_lsn list) \<Rightarrow> XLogRecPtr \<Rightarrow> log_index_snapshot \<Rightarrow> log_index_snapshot \<Rightarrow> bool" where
  "truncated L lsn s s' \<longleftrightarrow> kept s s' \<and> saved_max s' = saved_max s \<and> min_segno s \<le> min_segno s'
     \<and> (\<forall>tid a. 0 < tid \<and> tid \<le> saved_max s \<and> min_segno s \<le> segno tid \<and> segno tid < min_segno s' \<and> a \<in> set (L tid) \<longrightarrow> li_lsn a < lsn)"

lemma truncated_refl: "truncated L lsn s s"
  by (auto simp: truncated_def kept_refl)

lemma truncate_loop_Inr:
  assumes "recorded lp L act s" "truncate_loop n lp s lsn = Inr s'"
  shows "recorded lp L act s' \<and> truncated L lsn s s'"
  using assms
proof (induction n arbitrary: s)
  case (Suc n)
  obtain again s1 where s1: "log_index_truncate lp s lsn = Inr (again, s1)" "if again then truncate_loop n lp s1 lsn = Inr s' else s' = s1"
    using Suc.prems(2) by (auto simp: rbind_Inr_iff split: if_splits)
  note T = truncate_recorded [OF Suc.prems(1) s1(1)]
  show ?case
  proof (cases again)
    case True
    then have IH: "recorded lp L act s'" "truncated L lsn s1 s'" using Suc.IH [OF T(1)] s1(2) by simp_all
    have "li_lsn a < lsn" if tid: "0 < tid" "tid \<le> saved_max s" "min_segno s \<le> segno tid" "segno tid < min_segno s'" "a \<in> set (L tid)" for tid a
    proof (cases "segno tid = min_segno s")
      case seg: True then show ?thesis using T(6) [OF True tid(1,2) seg tid(5)] by simp
    next
      case False
      then have "min_segno s1 \<le> segno tid" "tid \<le> saved_max s1" using tid T(3) T(4) [OF True] by simp_all
      then show ?thesis using IH(2) tid(1,4,5) unfolding truncated_def by blast
    qed
    then show ?thesis using IH T(2,3) T(4) [OF True] kept_trans by (auto simp: truncated_def)
  next
    case False then show ?thesis using T(1,5) s1(2) truncated_refl by simp
  qed
qed simp

text \<open>Without I/O errors the loop ends, before there are no more segments.\<close>

lemma truncate_total:
  assumes ok: "recorded lp L act s" and nf: "sn_fault s = None"
  obtains again s' where "log_index_truncate lp s lsn = Inr (again, s')" "sn_fault s' = None"
    "again \<Longrightarrow> min_segno s < segno (saved_max s)"
proof -
  let ?g = "lm_min_segment_info (sn_meta s)"
  have S: "storage lp L s" using recorded_storage [OF ok] .
  have mf: "sn_meta_file s \<noteq> None" using S by (simp add: storage_def meta_saved_def)
  have wm: "\<exists>s'. polar_log_index_write_meta lp s m True = Inr s' \<and> sn_fault s' = None" for m
    using mf nf by (simp add: polar_log_index_write_meta_def Let_def)
  show ?thesis
  proof (cases "lm_crc (sn_meta s) = 0 \<or> lm_max_lsn (sn_meta s) = 0 \<or> fs_max_lsn ?g = 0 \<or> fs_max_lsn ?g \<ge> lsn \<or> segno (saved_max s) = min_segno s")
    case True
    then have "log_index_truncate lp s lsn = Inr (False, s)" by (auto simp: log_index_truncate_def Let_def)
    then show ?thesis using that nf by blast
  next
    case False
    then have D: "0 < saved_max s" using S by (auto simp: storage_def)
    then have seg: "min_seg_ok (saved_max s) ?g" "min_segno s < segno (saved_max s)" using S False by (auto simp: storage_def min_seg_ok_def)
    have "\<exists>s1. log_index_update_min_segment lp s = Inr s1 \<and> sn_fault s1 = None"
    proof (cases "segno (saved_max s) = Suc (min_segno s)")
      case True then show ?thesis using wm by (simp add: log_index_update_min_segment_def Let_def)
    next
      case neq: False
      obtain t where "log_index_read_table_data lp s (64 * Suc (Suc (min_segno s))) = Inr t"
        using stored_read [OF stored_end [OF S min_seg_next(3) [OF seg(1) D seg(2) neq]] nf] .
      then show ?thesis using wm neq
        by (simp add: log_index_update_min_segment_def Let_def LOG_INDEX_TABLE_NUM_PER_FILE_def mult.commute)
    qed
    then obtain s1 where s1: "log_index_update_min_segment lp s = Inr s1" "sn_fault s1 = None" by blast
    have "\<exists>s'. log_index_truncate lp s lsn = Inr (True, s') \<and> sn_fault s' = None"
      using False s1 by (auto simp: log_index_truncate_def Let_def bloom_truncate_def log_index_rename_segment_file_def)
    then show ?thesis using that seg(2) by blast
  qed
qed

lemma truncate_loop_total:
  assumes "recorded lp L act s" "sn_fault s = None" "segno (saved_max s) - min_segno s < n"
  shows "\<exists>s'. truncate_loop n lp s lsn = Inr s' \<and> sn_fault s' = None"
  using assms
proof (induction n arbitrary: s)
  case (Suc n)
  obtain again s1 where s1: "log_index_truncate lp s lsn = Inr (again, s1)" "sn_fault s1 = None"
    "again \<Longrightarrow> min_segno s < segno (saved_max s)" using truncate_total [OF Suc.prems(1,2), of lsn] by metis
  note T = truncate_recorded [OF Suc.prems(1) s1(1)]
  show ?case
  proof (cases again)
    case True
    then have "\<exists>s'. truncate_loop n lp s1 lsn = Inr s' \<and> sn_fault s' = None"
      using Suc.IH [OF T(1) s1(2)] T(3) T(4) [OF True] s1(3) [OF True] Suc.prems(3) by simp
    then show ?thesis using s1(1) True by simp
  qed (use s1 in simp)
qed simp

end
