(* ===== verification/Logindex_Background.thy ===== *)
theory Logindex_Background
  imports Logindex_Steps
begin

text \<open>
  The processes beside the one that adds LSNs: reading saved tables, flushing, and the forced
  save of a table. They keep what a snapshot has recorded, and without I/O errors they succeed.
\<close>

section \<open>Members that do not matter\<close>

lemma recorded_other [simp]:
  "recorded lp L act (s\<lparr>sn_fault := x\<rparr>) = recorded lp L act s"
  "recorded lp L act (s\<lparr>sn_last_flush_max_lsn := y\<rparr>) = recorded lp L act s"
  "recorded lp L act (s\<lparr>sn_max_lsn := y\<rparr>) = recorded lp L act s"
  "recorded lp L act (s\<lparr>sn_active_table := z\<rparr>) = recorded lp L act s"
  by (simp_all add: recorded_def opened_def fresh_def retained_def storage_def meta_saved_def stored_def file_slots_def polar_logindex_check_state_def)

lemma kept_other [simp]: "kept s (s\<lparr>sn_fault := x\<rparr>)" "kept s (s'\<lparr>sn_last_flush_max_lsn := y\<rparr>) = kept s s'"
  by (simp_all add: kept_def)

lemma recorded_length: "recorded lp L act s \<Longrightarrow> length (sn_mem_table s) = sn_mem_tbl_size s"
  using ringD(2) [OF recorded_ring] .

section \<open>Reading a table\<close>

lemma seg_file_max_tid_ge:
  assumes "\<forall>j < i. td_idx_table_id (f ! j) = 64 * g + Suc j \<or> td_idx_table_id (f ! j) \<le> 64 * g"
    and "k < i" "td_idx_table_id (f ! k) = 64 * g + Suc k" "64 * g + Suc k \<le> D"
  shows "64 * g + Suc k \<le> seg_file_max_tid f (64 * g + 1) D i"
  using assms(1,2)
proof (induction i)
  case (Suc i)
  show ?case
  proof (cases "k = i")
    case True then show ?thesis using assms(3,4) by (simp add: Let_def)
  next
    case False
    then have IH: "64 * g + Suc k \<le> seg_file_max_tid f (64 * g + 1) D i" using Suc by simp
    then show ?thesis using Suc.prems(1) Suc.prems(2) False by (auto simp: Let_def)
  qed
qed simp

lemma stored_slot:
  assumes "stored lp s tid A" "0 < tid"
  obtains f where "sn_files s (segno tid) = Some f" "slotno tid < length f" "good_table lp (f ! slotno tid) tid A"
    "tid = 64 * segno tid + Suc (slotno tid)"
proof -
  have "tid = 64 * segno tid + Suc (slotno tid)" using assms(2) by (simp add: seg_slot)
  then show ?thesis using assms(1) that unfolding stored_def by blast
qed

lemma seg_file_max_tid_slot:
  assumes "\<forall>j < i. td_idx_table_id (f ! j) = 64 * g + Suc j \<or> td_idx_table_id (f ! j) \<le> 64 * g"
  shows "seg_file_max_tid f (64 * g + 1) D i \<le> D" "seg_file_max_tid f (64 * g + 1) D i \<le> 64 * g + i"
  using assms by (induction i) (auto simp: Let_def)

text \<open>
  The static cache of a process: when it is of this snapshot, its tables are saved ones, and those of
  segments that are not removed are as in the segment files.
\<close>

definition cache_ok :: "log_index_snapshot \<Rightarrow> log_table_cache \<Rightarrow> bool" where
  "cache_ok s c \<longleftrightarrow> tc_name c = sn_dir s \<longrightarrow> (\<forall>tid. 0 < tid \<and> tc_min_idx_table_id c \<le> tid \<and> tid \<le> tc_max_idx_table_id c \<longrightarrow>
     tid \<le> saved_max s \<and> tid - tc_min_idx_table_id c < length (tc_data c)
     \<and> (min_segno s \<le> segno tid \<longrightarrow> slot_of s tid = Some (tc_data c ! (tid - tc_min_idx_table_id c))))"

text \<open>The cache at the start of a process.\<close>

definition empty_cache :: log_table_cache where
  "empty_cache = \<lparr>tc_name = [], tc_min_idx_table_id = 0, tc_max_idx_table_id = 0, tc_data = []\<rparr>"

lemma cache_other: "tc_name c \<noteq> sn_dir s \<Longrightarrow> cache_ok s c"
  by (simp add: cache_ok_def)

lemma cache_kept:
  assumes c: "cache_ok s c" and k: "saved_kept s s'"
  shows "cache_ok s' c"
  unfolding cache_ok_def
proof (intro impI allI)
  fix tid assume n: "tc_name c = sn_dir s'" and r: "0 < tid \<and> tc_min_idx_table_id c \<le> tid \<and> tid \<le> tc_max_idx_table_id c"
  let ?x = "tc_data c ! (tid - tc_min_idx_table_id c)"
  have K: "sn_dir s' = sn_dir s" "saved_max s \<le> saved_max s'" "min_segno s \<le> min_segno s'" using k by (simp_all add: saved_kept_def)
  have C: "tid \<le> saved_max s" "tid - tc_min_idx_table_id c < length (tc_data c)" "min_segno s \<le> segno tid \<longrightarrow> slot_of s tid = Some ?x"
    using c n r K(1) unfolding cache_ok_def by simp_all
  have "slot_of s' tid = Some ?x" if "min_segno s' \<le> segno tid"
    using k C(1,3) r that K(3) unfolding saved_kept_def by simp
  then show "tid \<le> saved_max s' \<and> tid - tc_min_idx_table_id c < length (tc_data c) \<and> (min_segno s' \<le> segno tid \<longrightarrow> slot_of s' tid = Some ?x)"
    using C K(2) by simp
qed

lemma cached_good:
  assumes "cache_ok s c" "tc_name c = sn_dir s" "tc_min_idx_table_id c \<le> tid" "tid \<le> tc_max_idx_table_id c"
    and S: "storage lp L s" and tid: "0 < tid" "min_segno s \<le> segno tid"
  shows "tid - tc_min_idx_table_id c < length (tc_data c)" "good_table lp (tc_data c ! (tid - tc_min_idx_table_id c)) tid (L tid)"
proof -
  have c: "tid \<le> saved_max s" "tid - tc_min_idx_table_id c < length (tc_data c)" "slot_of s tid = Some (tc_data c ! (tid - tc_min_idx_table_id c))"
    using assms(1-4) tid unfolding cache_ok_def by blast+
  then have "stored lp s tid (L tid)" using S tid by (simp add: storage_def)
  then show "good_table lp (tc_data c ! (tid - tc_min_idx_table_id c)) tid (L tid)"
    using c(3) by (auto simp: stored_def slot_of_def)
  show "tid - tc_min_idx_table_id c < length (tc_data c)" using c(2) .
qed

lemma read_seg_file_ok:
  assumes S: "storage lp L s" and tid: "0 < tid" "tid \<le> saved_max s" "min_segno s \<le> segno tid"
  shows "log_index_read_seg_file s c0 (segno tid) = Inr c \<Longrightarrow> tc_min_idx_table_id c \<le> tid \<and> tid \<le> tc_max_idx_table_id c
      \<and> cache_ok s (c\<lparr>tc_name := sn_dir s\<rparr>)"
    "sn_fault s = None \<Longrightarrow> \<exists>c. log_index_read_seg_file s c0 (segno tid) = Inr c"
proof -
  let ?g = "segno tid"
  have st: "stored lp s u (L u)" if "0 < u" "u \<le> saved_max s" "min_segno s \<le> segno u" for u using S that by (simp add: storage_def)
  obtain f where f: "sn_files s ?g = Some f" "slotno tid < length f" "good_table lp (f ! slotno tid) tid (L tid)"
    "tid = 64 * ?g + Suc (slotno tid)" using stored_slot [OF st [OF tid] tid(1)] .
  have slots: "length f \<le> 64" "\<forall>j < length f. td_idx_table_id (f ! j) = 64 * ?g + Suc j \<or> td_idx_table_id (f ! j) \<le> 64 * ?g"
    using S f(1) by (simp_all add: storage_def file_slots_def)
  have data: "take LOG_INDEX_TABLE_NUM_PER_FILE f = f" using slots(1) by (simp add: LOG_INDEX_TABLE_NUM_PER_FILE_def)
  have id: "td_idx_table_id (f ! slotno tid) = 64 * ?g + Suc (slotno tid)" using f(3,4) by (simp add: good_table_def)
  let ?mx = "seg_file_max_tid f (64 * ?g + 1) (saved_max s) (length f)"
  have max: "tid \<le> ?mx" using seg_file_max_tid_ge [OF slots(2) f(2) id] f(4) tid(2) by simp
  { assume "log_index_read_seg_file s c0 ?g = Inr c"
    then have c: "c = c0\<lparr>tc_min_idx_table_id := 64 * ?g + 1, tc_max_idx_table_id := ?mx, tc_data := f\<rparr>"
      using f(1) data by (auto simp: log_index_read_seg_file_def Let_def LOG_INDEX_TABLE_NUM_PER_FILE_def mult.commute split: if_splits)
    have "u \<le> saved_max s \<and> u - (64 * ?g + 1) < length f \<and> slot_of s u = Some (f ! (u - (64 * ?g + 1)))"
      if u: "64 * ?g + 1 \<le> u" "u \<le> ?mx" for u
    proof -
      have le: "u \<le> saved_max s" "u \<le> 64 * ?g + length f" using u seg_file_max_tid_slot [OF slots(2), of "saved_max s"] by simp_all
      moreover have "u - (64 * ?g + 1) < length f" using u(1) le(2) by linarith
      moreover have "segno u = ?g \<and> slotno u = u - (64 * ?g + 1)"
      proof -
        obtain k where k: "u = 64 * ?g + 1 + k" "k < 64" using u(1) le(2) slots(1) by (metis \<open>u - (64 * ?g + 1) < length f\<close> le_add_diff_inverse less_le_trans)
        then show ?thesis using seg_slot [of u] by simp
      qed
      ultimately show ?thesis using f(1) by (simp add: slot_of_def)
    qed
    then show "tc_min_idx_table_id c \<le> tid \<and> tid \<le> tc_max_idx_table_id c \<and> cache_ok s (c\<lparr>tc_name := sn_dir s\<rparr>)"
      using max f(4) by (simp add: c cache_ok_def) }
  assume nf: "sn_fault s = None"
  let ?u = "64 * ?g + 1"
  have u: "0 < ?u" "?u \<le> saved_max s" "segno ?u = ?g" "slotno ?u = 0" using f(4) tid(2) by (simp_all add: seg_slot)
  obtain f' where "sn_files s ?g = Some f'" "good_table lp (f' ! 0) ?u (L ?u)"
    using stored_slot [OF st [OF u(1,2)] u(1)] u(3,4) tid(3) by metis
  then have "td_idx_table_id (f ! 0) = ?u" using f(1) by (simp add: good_table_def)
  moreover have "f \<noteq> []" using f(2) by auto
  ultimately show "\<exists>c. log_index_read_seg_file s c0 ?g = Inr c" using f(1) nf data u(2)
    by (simp add: log_index_read_seg_file_def Let_def LOG_INDEX_TABLE_NUM_PER_FILE_def mult.commute hd_conv_nth)
qed

lemma mid_of_tid_less: "recorded lp L act s \<Longrightarrow> mid_of_tid s tid < sn_mem_tbl_size s"
  using ring_slot_less [OF recorded_ring] by (simp add: mid_of_tid_def)

text \<open>A table comes from memory, or from a cache of the snapshot, as it was or filled by the read.\<close>

lemma read_table_cases:
  assumes read: "log_index_read_table s cache got1 got2 err tid = Inr (data, held, cache', s')"
    and mid: "mid_of_tid s tid < length (sn_mem_table s)"
  defines "t \<equiv> sn_mem_table s ! mid_of_tid s tid"
  obtains "got1" "mt_state t = STATE_FLUSHED" "tid = LOG_INDEX_MEM_TBL_TID t" "data = mt_data t" "cache' = cache" "s' = s"
  | "cache' = cache \<or> (\<exists>c. log_index_read_seg_file s cache (segno tid) = Inr c \<and> cache' = c\<lparr>tc_name := sn_dir s\<rparr>)"
    "tc_name cache' = sn_dir s" "tc_min_idx_table_id cache' \<le> tid" "tid \<le> tc_max_idx_table_id cache'"
    "aget (tc_data cache') (tid - tc_min_idx_table_id cache') = Inr data"
    "s' = (if got2 \<and> mt_state t = STATE_FLUSHED \<and> tid \<noteq> LOG_INDEX_MEM_TBL_TID t
        then s\<lparr>sn_mem_table := (sn_mem_table s)[mid_of_tid s tid := t\<lparr>mt_data := data\<rparr>]\<rparr> else s)"
proof (cases "got1 \<and> mt_state t = STATE_FLUSHED \<and> tid = LOG_INDEX_MEM_TBL_TID t")
  case True
  then have "data = mt_data t \<and> cache' = cache \<and> s' = s" using read mid by (auto simp: log_index_read_table_def Let_def t_def)
  then show ?thesis using True that(1) by blast
next
  case False
  let ?miss = "tc_name cache \<noteq> sn_dir s \<or> tid < tc_min_idx_table_id cache \<or> tid > tc_max_idx_table_id cache"
  let ?fill = "if ?miss then case log_index_read_seg_file s cache (segno tid) of
        Inl e \<Rightarrow> Inl (log_index_report_io_error (case e of None \<Rightarrow> err | Some e \<Rightarrow> e)) | Inr c \<Rightarrow> Inr (c\<lparr>tc_name := sn_dir s\<rparr>)
      else Inr cache"
  let ?k = "\<lambda>c. if tid < tc_min_idx_table_id c \<or> tid > tc_max_idx_table_id c then Inl (PANIC ''Failed to read tid'')
      else rbind (aget (tc_data c) (tid - tc_min_idx_table_id c)) (\<lambda>data.
        rbind (if got2 \<and> mt_state t = STATE_FLUSHED \<and> tid \<noteq> LOG_INDEX_MEM_TBL_TID t
          then put_mem_table s (mid_of_tid s tid) (t\<lparr>mt_data := data\<rparr>) else Inr s) (\<lambda>s. Inr (data, None, c, s)))"
  have "LOG_INDEX_MEM_TBL s (mid_of_tid s tid) = Inr t" using mid by (simp add: t_def)
  then have "rbind ?fill ?k = Inr (data, held, cache', s')" using read False unfolding log_index_read_table_def Let_def by simp
  then obtain c where c: "?fill = Inr c" "?k c = Inr (data, held, cache', s')" by (rule rbind_InrE)
  have range: "tc_min_idx_table_id c \<le> tid" "tid \<le> tc_max_idx_table_id c" using c(2) by (simp_all split: if_splits)
  then have d: "aget (tc_data c) (tid - tc_min_idx_table_id c) = Inr data" "c = cache'"
      "s' = (if got2 \<and> mt_state t = STATE_FLUSHED \<and> tid \<noteq> LOG_INDEX_MEM_TBL_TID t
        then s\<lparr>sn_mem_table := (sn_mem_table s)[mid_of_tid s tid := t\<lparr>mt_data := data\<rparr>]\<rparr> else s)"
    using c(2) mid by (auto simp: rbind_Inr_iff put_mem_ok split: if_splits)
  have "c = cache \<and> \<not> ?miss \<or> (\<exists>x. log_index_read_seg_file s cache (segno tid) = Inr x \<and> c = x\<lparr>tc_name := sn_dir s\<rparr>)"
  proof (cases ?miss)
    case True then show ?thesis using c(1) by (cases "log_index_read_seg_file s cache (segno tid)") simp_all
  qed (use c(1) in auto)
  then show ?thesis using range d by (intro that(2)) auto
qed

lemma read_table_recorded:
  assumes ok: "recorded lp L act s" and tid: "0 < tid" "tid \<le> saved_max s" "min_segno s \<le> segno tid" and co: "cache_ok s cache"
    and read: "log_index_read_table s cache got1 got2 err tid = Inr (data, held, cache', s')"
  shows "recorded lp L act s'" "kept s s'" "td_idx_table_id data = tid" "\<exists>f. tbl_log (lkey lp) data f (L tid)" "lsn_bounds data (L tid)"
    "cache_ok s' cache'"
proof -
  let ?mid = "mid_of_tid s tid"
  let ?t = "sn_mem_table s ! ?mid"
  have mid: "?mid < sn_mem_tbl_size s" "?mid = (tid - 1) mod sn_mem_tbl_size s" "?mid < length (sn_mem_table s)"
    using mid_of_tid_less [OF ok, of tid] tid(1) recorded_length [OF ok] by (simp_all add: mid_of_tid_def tid_pred_def)
  note R = recorded_ring [OF ok] and S = recorded_storage [OF ok]
  have "recorded lp L act s' \<and> kept s s' \<and> td_idx_table_id data = tid \<and> (\<exists>f. tbl_log (lkey lp) data f (L tid)) \<and> lsn_bounds data (L tid)
      \<and> cache_ok s cache'"
    using read mid(3)
  proof (cases rule: read_table_cases)
    case 1
    then show ?thesis using ringD(6) [OF R mid(1)] ok co by (simp add: slot_ok_simps kept_refl)
  next
    case 2
    have co': "cache_ok s cache'" using 2(1) co read_seg_file_ok(1) [OF S tid] by blast
    note C = cached_good [OF co' 2(2-4) S tid(1,3)]
    have d: "data = tc_data cache' ! (tid - tc_min_idx_table_id cache')" using 2(5) C(1) by (simp add: aget_def)
    have good: "td_idx_table_id data = tid" "\<exists>f. tbl_log (lkey lp) data f (L tid)" "lsn_bounds data (L tid)"
      using C(2) d by (simp_all add: good_table_def)
    have "recorded lp L act (s\<lparr>sn_mem_table := (sn_mem_table s)[?mid := ?t\<lparr>mt_data := data\<rparr>]\<rparr>)" if fl: "mt_state ?t = STATE_FLUSHED"
    proof -
      have "ring lp L act (sn_mem_tbl_size s) ((sn_mem_table s)[?mid := ?t\<lparr>mt_data := data\<rparr>]) (saved_max s) (sn_max_idx_table_id s)"
        using fl good tid mid(2) by (intro ring_replace [OF R mid(1) fl]) (auto simp: slot_ok_simps)
      moreover have "?mid \<noteq> (sn_max_idx_table_id s - 1) mod sn_mem_tbl_size s" if act
        using ringD(10) [OF R, of "sn_max_idx_table_id s"] ringD(5) [OF R that] that fl by auto
      ultimately show ?thesis using ok
        by (simp add: recorded_def opened_def fresh_def retained_def storage_def meta_saved_def stored_def file_slots_def polar_logindex_check_state_def)
    qed
    then show ?thesis using good 2(6) ok co' by (auto simp: kept_def)
  qed
  then show "recorded lp L act s'" "kept s s'" "td_idx_table_id data = tid" "\<exists>f. tbl_log (lkey lp) data f (L tid)" "lsn_bounds data (L tid)"
    "cache_ok s' cache'" using cache_kept by (auto simp: kept_def)
qed

lemma read_table_total:
  assumes ok: "recorded lp L act s" and tid: "0 < tid" "tid \<le> saved_max s" "min_segno s \<le> segno tid" and co: "cache_ok s cache"
    and nf: "sn_fault s = None"
  shows "\<exists>data held cache' s'. log_index_read_table s cache got1 got2 err tid = Inr (data, held, cache', s')"
proof -
  note S = recorded_storage [OF ok]
  obtain c where c: "log_index_read_seg_file s cache (segno tid) = Inr c" using read_seg_file_ok(2) [OF S tid nf] by blast
  note C = read_seg_file_ok(1) [OF S tid c]
  have new: "tid - tc_min_idx_table_id c < length (tc_data c)" using cached_good(1) [OF _ _ _ _ S tid(1,3), of "c\<lparr>tc_name := sn_dir s\<rparr>"] C by simp
  have old: "tid - tc_min_idx_table_id cache < length (tc_data cache)"
    if "tc_name cache = sn_dir s" "tc_min_idx_table_id cache \<le> tid" "tid \<le> tc_max_idx_table_id cache"
    using cached_good(1) [OF co that S tid(1,3)] .
  show ?thesis using C c new old mid_of_tid_less [OF ok, of tid] recorded_length [OF ok]
    by (auto simp: log_index_read_table_def Let_def put_mem_ok not_less not_le)
qed

section \<open>Saving tables\<close>

lemma write_table_data_total:
  assumes log: "tbl_log (lkey lp) t fh A" and nf: "sn_fault s = None"
    and opens: "sn_files s (segno (td_idx_table_id t)) \<noteq> None \<or> slotno (td_idx_table_id t) = 0"
  shows "\<exists>d s'. log_index_write_table_data lp s t = Inr (Inr (d, s')) \<and> sn_fault s' = None \<and> sn_meta s' = sn_meta s
    \<and> sn_meta_file s' = sn_meta_file s \<and> sn_mem_table s' = sn_mem_table s"
proof -
  obtain b where b: "log_index_get_bloom_data lp t (td_idx_table_id t) = Inr b" using bloom_data_log [OF log lkey_less, of lp "td_idx_table_id t"] by metis
  obtain f where "log_index_open_table_file s (td_idx_table_id t) False = Inr f"
    using nf opens by (cases "sn_files s (segno (td_idx_table_id t))") (auto simp: log_index_open_table_file_def)
  then show ?thesis using b nf
    by (simp add: log_index_write_table_data_def log_index_save_table_def log_index_save_bloom_def Let_def)
qed

lemma write_table_total:
  assumes ok: "recorded lp L act s" and nf: "sn_fault s = None" and mid: "mid < sn_mem_tbl_size s"
    and st: "mt_state (sn_mem_table s ! mid) = STATE_ACTIVE \<or> mt_state (sn_mem_table s ! mid) = STATE_INACTIVE"
    and tid: "LOG_INDEX_MEM_TBL_TID (sn_mem_table s ! mid) = Suc (saved_max s)"
  shows "\<exists>s'. log_index_write_table lp s mid = Inr (True, s') \<and> sn_fault s' = None"
proof -
  let ?t = "sn_mem_table s ! mid"
  note R = recorded_ring [OF ok] and S = recorded_storage [OF ok]
  have opens: "sn_files s (segno (Suc (saved_max s))) \<noteq> None \<or> slotno (Suc (saved_max s)) = 0"
  proof (cases "saved_max s = 0 \<or> slotno (Suc (saved_max s)) = 0")
    case True then show ?thesis by (auto simp: seg_slot)
  next
    case False
    then have "stored lp s (saved_max s) (L (saved_max s))" "segno (Suc (saved_max s)) = segno (saved_max s)"
      using S segno_pred_slot [of "saved_max s"] by (simp_all add: storage_def min_seg_ok_def)
    then show ?thesis unfolding stored_def by auto
  qed
  obtain d s1 where d: "log_index_write_table_data lp s (mt_data ?t) = Inr (Inr (d, s1))" "sn_fault s1 = None" "sn_meta s1 = sn_meta s"
    "sn_meta_file s1 = sn_meta_file s" "sn_mem_table s1 = sn_mem_table s"
    using write_table_data_total [OF ring_unsaved(4) [OF R mid st] nf] opens tid by auto
  have "sn_meta_file s1 \<noteq> None" "mid < length (sn_mem_table s)" using S d(4) mid recorded_length [OF ok] by (simp_all add: storage_def meta_saved_def)
  then show ?thesis using d tid
    by (auto simp: log_index_write_table_def Let_def polar_log_index_write_meta_def put_mem_ok)
qed

lemma not_saved_before_promote: "recorded lp L act s \<Longrightarrow> log_index_table_saved_before_promote s t = Inr False"
  by (simp add: log_index_table_saved_before_promote_def recorded_def opened_def retained_def)

lemma recorded_writable: "recorded lp L act s \<Longrightarrow> polar_logindex_check_state s POLAR_LOGINDEX_STATE_WRITABLE"
  by (simp add: recorded_def opened_def retained_def)

lemma force_save_Inr:
  assumes ok: "recorded lp L act s" and mid: "mid < sn_mem_tbl_size s" and st: "mt_state (sn_mem_table s ! mid) = STATE_INACTIVE"
    and sv: "log_index_force_save_table lp s mid = Inr s'"
  shows "recorded lp L act s'" "kept s s'" "mt_state (sn_mem_table s' ! mid) = STATE_FLUSHED \<or> s' = s"
proof -
  have "s' = s \<or> log_index_write_table lp s mid = Inr (True, s')"
    using sv mid recorded_length [OF ok] not_saved_before_promote [OF ok] recorded_writable [OF ok]
    by (auto simp: log_index_force_save_table_def rbind_Inr_iff split: if_splits)
  then show "recorded lp L act s'" "kept s s'" "mt_state (sn_mem_table s' ! mid) = STATE_FLUSHED \<or> s' = s"
    using write_table_recorded [OF ok mid disjI2 [OF st]] st ok kept_refl by auto
qed

lemma force_save_total:
  assumes ok: "recorded lp L act s" and nf: "sn_fault s = None" and mid: "mid < sn_mem_tbl_size s"
    and st: "mt_state (sn_mem_table s ! mid) = STATE_INACTIVE" "LOG_INDEX_MEM_TBL_TID (sn_mem_table s ! mid) = Suc (saved_max s)"
    and fl: "lp_table_flushable lp (sn_mem_table s ! mid)"
  shows "\<exists>s'. log_index_force_save_table lp s mid = Inr s' \<and> sn_fault s' = None \<and> mt_state (sn_mem_table s' ! mid) = STATE_FLUSHED"
proof -
  obtain s' where w: "log_index_write_table lp s mid = Inr (True, s')" "sn_fault s' = None"
    using write_table_total [OF ok nf mid disjI2 [OF st(1)] st(2)] by blast
  then show ?thesis using write_table_recorded(3) [OF ok mid disjI2 [OF st(1)] w(1)] st fl mid
      recorded_length [OF ok] not_saved_before_promote [OF ok] recorded_writable [OF ok]
    by (simp add: log_index_force_save_table_def)
qed

text \<open>A round of the background writer.\<close>

lemma flush_round_cases:
  assumes ok: "recorded lp L act s" and mid: "mid < sn_mem_tbl_size s"
    and fl: "flush_table_round lp s flush_active mid flushed = Inr (stop, flushed', s')"
  obtains "s' = s" "flushed' = flushed"
  | r s1 where "mt_state (sn_mem_table s ! mid) = STATE_ACTIVE \<or> mt_state (sn_mem_table s ! mid) = STATE_INACTIVE"
    "log_index_write_table lp s mid = Inr (r, s1)" "\<not> stop" "s' = s1 \<or> (\<exists>x. s' = s1\<lparr>sn_last_flush_max_lsn := x\<rparr>)"
    "flushed' = (if r then Suc flushed else flushed)"
proof -
  let ?t = "sn_mem_table s ! mid"
  let ?st = "mt_state ?t = STATE_INACTIVE \<or> (flush_active \<and> mt_state ?t = STATE_ACTIVE \<and> \<not> LOG_INDEX_MEM_TBL_IS_NEW ?t)"
  let ?f = "\<lambda>s. rbind (LOG_INDEX_MEM_TBL s mid) (\<lambda>table.
           rbind (if mt_state table = STATE_INACTIVE then put_mem_table s mid (table\<lparr>mt_state := STATE_FLUSHED\<rparr>) else Inr s) (\<lambda>s.
           Inr (False, flushed + 1, if flush_active then s\<lparr>sn_last_flush_max_lsn := td_max_lsn (mt_data table)\<rparr> else s)))"
  have len: "mid < length (sn_mem_table s)" using mid recorded_length [OF ok] by simp
  have "(s' = s \<and> flushed' = flushed) \<or> (?st \<and>
      rbind (log_index_write_table lp s mid) (\<lambda>(succeed, s). if succeed then ?f s else Inr (False, flushed, s)) = Inr (stop, flushed', s'))"
    using fl len not_saved_before_promote [OF ok, of ?t] unfolding flush_table_round_def by (simp split: if_splits)
  then consider (id) "s' = s" "flushed' = flushed" | (w) r s1 where ?st "log_index_write_table lp s mid = Inr (r, s1)"
      "(if r then ?f s1 else Inr (False, flushed, s1)) = Inr (stop, flushed', s')" by (auto simp: rbind_Inr_iff)
  then show ?thesis
  proof cases
    case (w r s1)
    then have st: "mt_state ?t = STATE_ACTIVE \<or> mt_state ?t = STATE_INACTIVE" by blast
    note W = write_table_recorded [OF ok mid st w(2)]
    have len: "LOG_INDEX_MEM_TBL s1 mid = Inr (sn_mem_table s1 ! mid)" using W(1,2) mid by (simp add: recorded_length kept_def)
    have fl: "mt_state (sn_mem_table s1 ! mid) \<noteq> STATE_INACTIVE" if r using W(3) that st by auto
    show ?thesis
    proof (cases r)
      case True
      have "?f s1 = Inr (False, flushed + 1, if flush_active then s1\<lparr>sn_last_flush_max_lsn := td_max_lsn (mt_data (sn_mem_table s1 ! mid))\<rparr> else s1)"
        using fl [OF True] by (simp only: len rbind_simps if_False)
      then have h: "\<not> stop" "flushed' = Suc flushed"
        "s' = (if flush_active then s1\<lparr>sn_last_flush_max_lsn := td_max_lsn (mt_data (sn_mem_table s1 ! mid))\<rparr> else s1)"
        using w(3) True by simp_all
      have "s' = s1 \<or> (\<exists>x. s' = s1\<lparr>sn_last_flush_max_lsn := x\<rparr>)"
      proof (cases flush_active)
        case True then show ?thesis unfolding h(3) by (simp only: if_True) blast
      next
        case False then show ?thesis unfolding h(3) by simp
      qed
      then show ?thesis using that(2) [OF st w(2) h(1)] h(2) True by simp
    next
      case False then show ?thesis using w(3) by (intro that(2) [OF st w(2)]) simp_all
    qed
  qed (use that(1) in blast)
qed

lemma flush_round_Inr:
  assumes ok: "recorded lp L act s" and fl: "flush_table_round lp s flush_active mid flushed = Inr (stop, flushed', s')"
  shows "recorded lp L act s'" "kept s s'"
proof -
  have mid: "mid < sn_mem_tbl_size s" using fl recorded_length [OF ok]
    by (cases "mid < length (sn_mem_table s)") (auto simp: flush_table_round_def aget_def)
  have "recorded lp L act s' \<and> kept s s'" using ok mid fl
  proof (cases rule: flush_round_cases)
    case (2 r s1)
    then show ?thesis using write_table_recorded(1,2) [OF ok mid 2(1,2)] by auto
  qed (use ok kept_refl in simp)
  then show "recorded lp L act s'" "kept s s'" by blast+
qed

section \<open>The steps of other processes\<close>

inductive bg_step :: "logindex_params \<Rightarrow> log_index_snapshot \<Rightarrow> log_index_snapshot \<Rightarrow> bool" for lp where
  flush: "flush_table_round lp s flush_active mid flushed = Inr (stop, flushed', s') \<Longrightarrow> bg_step lp s s'"
| truncate: "polar_logindex_truncate lp s lsn = Inr s' \<Longrightarrow> bg_step lp s s'"
| read: "0 < tid \<Longrightarrow> tid \<le> saved_max s \<Longrightarrow> min_segno s \<le> segno tid
    \<Longrightarrow> cache_ok s cache \<Longrightarrow> log_index_read_table s cache got1 got2 err tid = Inr (data, held, cache', s') \<Longrightarrow> bg_step lp s s'"
| fault: "bg_step lp s (s\<lparr>sn_fault := err\<rparr>)"

lemma polar_truncate_recorded:
  assumes "recorded lp L act s" "polar_logindex_truncate lp s lsn = Inr s'"
  shows "recorded lp L act s'" "truncated L lsn s s'"
  using assms truncate_loop_Inr [OF assms(1)] truncated_refl by (auto simp: polar_logindex_truncate_def simp del: truncate_loop.simps split: if_splits)

lemma bg_step_recorded: "bg_step lp s s' \<Longrightarrow> recorded lp L act s \<Longrightarrow> recorded lp L act s' \<and> kept s s'"
proof (induction rule: bg_step.induct)
  case (flush s flush_active mid flushed stop flushed' s') then show ?case using flush_round_Inr [OF flush(2,1)] by simp
next
  case (truncate s lsn s') then show ?case using polar_truncate_recorded [OF truncate(2,1)] by (simp add: truncated_def)
next
  case (read tid s cache got1 got2 err data held cache' s') then show ?case using read_table_recorded(1,2) [OF read(6,1-5)] by simp
qed simp

lemma bg_steps_recorded: "(bg_step lp)\<^sup>*\<^sup>* s s' \<Longrightarrow> recorded lp L act s \<Longrightarrow> recorded lp L act s' \<and> kept s s'"
proof (induction rule: rtranclp_induct)
  case (step y z) then show ?case using bg_step_recorded [OF step(2)] kept_trans by blast
qed (simp add: kept_refl)

end
