(* ===== verification/Logindex_Insert.thy ===== *)
theory Logindex_Insert
  imports Logindex_Background
begin

text \<open>
  Adding an LSN to a snapshot: the active table takes it, or it is closed and the next table of
  the ring is opened, once that one is saved. What the snapshot has recorded grows by the LSN.
\<close>

section \<open>New tables\<close>

definition new_table :: "nat \<Rightarrow> XLogRecPtr \<Rightarrow> log_mem_table" where
  "new_table tid lsn = \<lparr>mt_free_head = 1, mt_state = STATE_ACTIVE, mt_data = table_zero\<lparr>td_idx_table_id := tid,
     td_max_lsn := 0, td_min_lsn := UINT64_MAX, td_prefix_lsn := LOG_INDEX_PREFIX_LSN lsn\<rparr>\<rparr>"

lemma tbl_log_empty:
  assumes "td_last_order t = 0" "td_idx_order t = td_idx_order table_zero" "td_hash t = td_hash table_zero" "td_segment t = td_segment table_zero"
  shows "tbl_log key t 1 []"
proof -
  have "struct_ok key (td_segment t) (td_hash t) 1 {} (\<lambda>_. []) (\<lambda>_. [])"
    using assms by (auto simp: struct_ok_def table_zero_def cell_at_def seg_num)
  moreover have "content t {} (\<lambda>_. []) []" using assms by (simp add: content_def table_zero_def)
  ultimately show ?thesis by (rule tbl_logI [rotated])
qed

lemma new_table_log: "tbl_log key (mt_data (new_table tid lsn)) 1 []"
  by (rule tbl_log_empty) (simp_all add: new_table_def table_zero_def)

lemma new_table_simps [simp]:
  "mt_free_head (new_table tid lsn) = 1" "mt_state (new_table tid lsn) = STATE_ACTIVE"
  "LOG_INDEX_MEM_TBL_TID (new_table tid lsn) = tid" "\<not> LOG_INDEX_MEM_TBL_FULL (new_table tid lsn)"
  by (simp_all add: new_table_def LOG_INDEX_MEM_TBL_FULL_def seg_num)

lemma tbl_log_nil_head: "tbl_log key t f [] \<Longrightarrow> f = 1"
proof -
  assume "tbl_log key t f []"
  then obtain H S B where ok: "struct_ok key (td_segment t) (td_hash t) f H S B" and c: "content t H S []" unfolding tbl_log_def by blast
  have "H = {}" using content_page [OF ok c] by (auto simp: page_log_def)
  then show "f = 1" using struct_okD(3,6) [OF ok] by auto
qed

lemma ucast_prefix: "ucast (LOG_INDEX_PREFIX_LSN lsn) = drop_bit 32 lsn"
  by (rule bit_word_eqI) (auto simp: LOG_INDEX_PREFIX_LSN_def bit_ucast_iff bit_drop_bit_eq dest: bit_imp_le_length)

lemma ucast_prefix_inj: "ucast (x :: uint32) = (ucast y :: uint64) \<Longrightarrow> x = y"
proof (rule bit_word_eqI)
  fix n assume eq: "ucast x = (ucast y :: uint64)" and n: "n < LENGTH(32)"
  have "bit (ucast z :: uint64) n = bit z n" for z :: uint32 using n by (simp add: bit_ucast_iff)
  then show "bit x n = bit y n" using eq by metis
qed

lemma same_prefix_set: "td_prefix_lsn t = LOG_INDEX_PREFIX_LSN lsn \<Longrightarrow> LOG_INDEX_SAME_TABLE_LSN_PREFIX t lsn"
  by (simp add: LOG_INDEX_SAME_TABLE_LSN_PREFIX_def ucast_prefix)

section \<open>Waiting for a table\<close>

text \<open>The state after the table \<open>mid\<close> of \<open>s\<close> was opened for \<open>lsn\<close>.\<close>

definition opened_at :: "logindex_params \<Rightarrow> (nat \<Rightarrow> log_index_lsn list) \<Rightarrow> log_index_snapshot \<Rightarrow> nat \<Rightarrow> XLogRecPtr \<Rightarrow> log_index_snapshot \<Rightarrow> bool" where
  "opened_at lp L s mid lsn s' \<longleftrightarrow> opened lp L True s' \<and> kept s (s'\<lparr>sn_max_idx_table_id := sn_max_idx_table_id s\<rparr>)
     \<and> sn_max_idx_table_id s' = Suc (sn_max_idx_table_id s) \<and> sn_mem_table s' ! mid = new_table (Suc (sn_max_idx_table_id s)) lsn"

lemma new_active_opened:
  assumes ok: "recorded lp L False s" and mid: "mid = sn_max_idx_table_id s mod sn_mem_tbl_size s"
    and st: "mt_state (sn_mem_table s ! mid) = STATE_FREE \<or> mt_state (sn_mem_table s ! mid) = STATE_FLUSHED"
  shows "opened_at lp L s mid lsn (s\<lparr>sn_max_idx_table_id := Suc (sn_max_idx_table_id s),
    sn_mem_table := (sn_mem_table s)[mid := new_table (Suc (sn_max_idx_table_id s)) lsn]\<rparr>)"
proof -
  note R = recorded_ring [OF ok]
  have "mid < length (sn_mem_table s)" using ring_slot_less [OF R] recorded_length [OF ok] mid by simp
  moreover have "ring lp L True (sn_mem_tbl_size s) ((sn_mem_table s)[mid := new_table (Suc (sn_max_idx_table_id s)) lsn])
      (saved_max s) (Suc (sn_max_idx_table_id s))"
    using ring_new [OF R mid st] new_table_log by simp
  moreover have "filled L True (Suc (sn_max_idx_table_id s))" using ok by (auto simp: recorded_def opened_def filled_def)
  ultimately show ?thesis using ok
    by (simp add: opened_at_def recorded_def opened_def retained_def storage_def meta_saved_def stored_def file_slots_def polar_logindex_check_state_def kept_def)
qed

lemma opened_at_kept: "kept s s1 \<Longrightarrow> opened_at lp L s1 mid lsn s' \<Longrightarrow> opened_at lp L s mid lsn s'"
  using saved_kept_trans by (auto simp: opened_at_def kept_def)

lemma wait_round_saved:
  assumes len: "mid < length (sn_mem_table s)" "mid < sn_mem_tbl_size s1"
    and s1: "(if mt_state (sn_mem_table s ! mid) = STATE_INACTIVE then log_index_force_save_table lp s mid else Inr s) = Inr s1"
    and ok: "recorded lp L False s1" and st: "mt_state (sn_mem_table s1 ! mid) \<noteq> STATE_INACTIVE"
  defines "M \<equiv> sn_max_idx_table_id s1"
  shows "wait_active_round lp s mid lsn = Inr (True, s1\<lparr>sn_max_idx_table_id := Suc M, sn_mem_table := (sn_mem_table s1)[mid := new_table (Suc M) lsn]\<rparr>)"
    "mt_state (sn_mem_table s1 ! mid) = STATE_FREE \<or> mt_state (sn_mem_table s1 ! mid) = STATE_FLUSHED"
proof -
  let ?t = "sn_mem_table s1 ! mid"
  have na: "mt_state ?t \<noteq> STATE_ACTIVE" using ring_unsaved(5) [OF recorded_ring [OF ok] len(2)] by auto
  then show free: "mt_state ?t = STATE_FREE \<or> mt_state ?t = STATE_FLUSHED" using st by (cases "mt_state ?t") simp_all
  have zero: "(if mt_state ?t = STATE_FLUSHED then mem_table_zero else ?t) = mem_table_zero"
    using free ringD(6) [OF recorded_ring [OF ok] len(2)] by (auto simp: slot_ok_simps)
  have "mid < length (sn_mem_table s1)" using len(2) recorded_length [OF ok] by simp
  then show "wait_active_round lp s mid lsn = Inr (True, s1\<lparr>sn_max_idx_table_id := Suc M, sn_mem_table := (sn_mem_table s1)[mid := new_table (Suc M) lsn]\<rparr>)"
    using len(1) s1 zero unfolding M_def
    by (simp add: wait_active_round_def Let_def put_mem_ok mem_table_zero_def LOG_INDEX_MEM_TBL_NEW_ACTIVE_def new_table_def LOG_INDEX_MEM_TBL_FULL_def seg_num)
qed

lemma wait_round_Inr:
  assumes ok: "recorded lp L False s" and mid: "mid = sn_max_idx_table_id s mod sn_mem_tbl_size s"
    and w: "wait_active_round lp s mid lsn = Inr (fin, s')"
  shows "if fin then opened_at lp L s mid lsn s' else recorded lp L False s' \<and> kept s s'"
proof -
  have mid_n: "mid < sn_mem_tbl_size s" using ring_slot_less [OF recorded_ring [OF ok]] mid by simp
  then have len: "mid < length (sn_mem_table s)" using recorded_length [OF ok] by simp
  obtain s1 where s1: "(if mt_state (sn_mem_table s ! mid) = STATE_INACTIVE then log_index_force_save_table lp s mid else Inr s) = Inr s1"
    using w len by (auto simp: wait_active_round_def rbind_Inr_iff)
  have ok1: "recorded lp L False s1" "kept s s1"
    using s1 force_save_Inr(1,2) [OF ok mid_n] ok kept_refl by (auto split: if_splits)
  have mid1: "mid = sn_max_idx_table_id s1 mod sn_mem_tbl_size s1" "mid < sn_mem_tbl_size s1" "mid < length (sn_mem_table s1)"
    using ok1 mid mid_n recorded_length [OF ok1(1)] by (simp_all add: kept_def)
  show ?thesis
  proof (cases "mt_state (sn_mem_table s1 ! mid) = STATE_INACTIVE")
    case True
    then have "\<not> fin \<and> s' = s1" using w len s1 mid1(3)
      by (simp add: wait_active_round_def Let_def put_mem_ok split: if_splits)
    then show ?thesis using ok1 by simp
  next
    case False
    note W = wait_round_saved [OF len mid1(2) s1 ok1(1) False]
    then show ?thesis using w opened_at_kept [OF ok1(2) new_active_opened [OF ok1(1) mid1(1) W(2)]] by auto
  qed
qed

text \<open>The other processes are those of \<open>bg_step\<close>.\<close>

definition env_ok :: "logindex_params \<Rightarrow> (nat \<Rightarrow> log_index_snapshot \<Rightarrow> log_index_snapshot) \<Rightarrow> bool" where
  "env_ok lp other \<longleftrightarrow> (\<forall>r s. (bg_step lp)\<^sup>*\<^sup>* s (other r s))"

lemma wait_active_Inr:
  assumes "recorded lp L False s" "mid = sn_max_idx_table_id s mod sn_mem_tbl_size s" "env_ok lp other"
    and "log_index_wait_active r other lp s mid lsn = Inr s'"
  shows "opened_at lp L s mid lsn s'"
  using assms
proof (induction r arbitrary: s)
  case (Suc r)
  obtain fin s1 where w: "wait_active_round lp s mid lsn = Inr (fin, s1)"
    "if fin then s' = s1 else log_index_wait_active r other lp (other r s1) mid lsn = Inr s'"
    using Suc.prems(4) by (auto simp: rbind_Inr_iff split: if_splits)
  note W = wait_round_Inr [OF Suc.prems(1,2) w(1)]
  show ?case
  proof (cases fin)
    case False
    then have s1: "recorded lp L False s1" "kept s s1" using W by simp_all
    have "(bg_step lp)\<^sup>*\<^sup>* s1 (other r s1)" using Suc.prems(3) by (simp add: env_ok_def)
    then have o: "recorded lp L False (other r s1)" "kept s (other r s1)" using bg_steps_recorded s1 kept_trans by blast+
    then show ?thesis using Suc.IH [OF o(1)] Suc.prems(2,3) w(2) False opened_at_kept by (auto simp: kept_def)
  qed (use W w(2) in simp)
qed simp

lemma wait_active_total:
  assumes ok: "recorded lp L False s" and mid: "mid = sn_max_idx_table_id s mod sn_mem_tbl_size s"
    and nf: "sn_fault s = None" and fl: "\<And>t. lp_table_flushable lp t"
  shows "\<exists>s'. log_index_wait_active (Suc r) other lp s mid lsn = Inr s' \<and> sn_fault s' = None"
proof -
  note R = recorded_ring [OF ok]
  let ?t = "sn_mem_table s ! mid" and ?n = "sn_mem_tbl_size s" and ?M = "sn_max_idx_table_id s"
  have mid_n: "mid < ?n" "mid < length (sn_mem_table s)" using ring_slot_less [OF R] recorded_length [OF ok] mid by simp_all
  have "\<exists>s1. (if mt_state ?t = STATE_INACTIVE then log_index_force_save_table lp s mid else Inr s) = Inr s1 \<and> sn_fault s1 = None
      \<and> recorded lp L False s1 \<and> mid < sn_mem_tbl_size s1 \<and> mt_state (sn_mem_table s1 ! mid) \<noteq> STATE_INACTIVE"
  proof (cases "mt_state ?t = STATE_INACTIVE")
    case True
    note U = ring_unsaved [OF R mid_n(1) disjI2 [OF True]]
    have "sn_max_idx_table_id s = saved_max s + ?n"
      using slot_inj [of "saved_max s" "Suc ?M" ?n "LOG_INDEX_MEM_TBL_TID ?t"] U(1-3) ringD(3,4) [OF R] mid by fastforce
    then have "LOG_INDEX_MEM_TBL_TID ?t = Suc (saved_max s)"
      using slot_inj [of "saved_max s" "LOG_INDEX_MEM_TBL_TID ?t" ?n "Suc (saved_max s)"] U(1-3) ringD(1) [OF R] mid by simp
    then obtain s1 where s1: "log_index_force_save_table lp s mid = Inr s1" "sn_fault s1 = None" "mt_state (sn_mem_table s1 ! mid) = STATE_FLUSHED"
      using force_save_total [OF ok nf mid_n(1) True _ fl] by blast
    then show ?thesis using force_save_Inr(1,2) [OF ok mid_n(1) True s1(1)] True mid_n(1) by (simp add: kept_def)
  qed (use ok nf mid_n in simp)
  then obtain s1 where "(if mt_state ?t = STATE_INACTIVE then log_index_force_save_table lp s mid else Inr s) = Inr s1" "sn_fault s1 = None"
    "recorded lp L False s1" "mid < sn_mem_tbl_size s1" "mt_state (sn_mem_table s1 ! mid) \<noteq> STATE_INACTIVE" by blast
  then show ?thesis using wait_round_saved(1) [OF mid_n(2), of s1] by simp
qed

declare log_index_wait_active.simps [simp del]

section \<open>A free cell\<close>

definition at_rest :: "bool \<Rightarrow> log_index_snapshot \<Rightarrow> bool" where
  "at_rest act s \<longleftrightarrow> (if act then sn_active_table s = (sn_max_idx_table_id s - 1) mod sn_mem_tbl_size s
     else sn_max_idx_table_id s = 0 \<and> sn_active_table s = 0)"

text \<open>A table from which the loop of \<open>log_index_next_free_seg\<close> takes a cell, and the table then.\<close>

definition usable :: "XLogRecPtr \<Rightarrow> log_mem_table \<Rightarrow> bool" where
  "usable lsn t \<longleftrightarrow> mt_state t = STATE_ACTIVE \<and>
     (LOG_INDEX_MEM_TBL_IS_NEW t \<or> \<not> LOG_INDEX_MEM_TBL_FULL t \<and> LOG_INDEX_SAME_TABLE_LSN_PREFIX (mt_data t) lsn)"

definition take_cell :: "XLogRecPtr \<Rightarrow> log_mem_table \<Rightarrow> log_mem_table" where
  "take_cell lsn t = t\<lparr>mt_data := (if LOG_INDEX_MEM_TBL_IS_NEW t then (mt_data t)\<lparr>td_prefix_lsn := LOG_INDEX_PREFIX_LSN lsn\<rparr> else mt_data t),
     mt_free_head := Suc (mt_free_head t)\<rparr>"

lemma usable_new: "usable lsn (new_table tid lsn)"
  by (simp add: usable_def same_prefix_set) (simp add: new_table_def same_prefix_set)

text \<open>The cell that is taken is free, and the table then has the prefix of the LSN.\<close>

lemma take_cell_log:
  assumes "tbl_log key (mt_data t) (mt_free_head t) A" "usable lsn t"
  shows "tbl_log key (mt_data (take_cell lsn t)) (mt_free_head t) A" "mt_free_head t < LOG_INDEX_MEM_TBL_SEG_NUM"
    "LOG_INDEX_SAME_TABLE_LSN_PREFIX (mt_data (take_cell lsn t)) lsn"
    "LOG_INDEX_SAME_TABLE_LSN_PREFIX (mt_data t) lsn \<Longrightarrow> mt_data (take_cell lsn t) = mt_data t"
    "\<not> LOG_INDEX_SAME_TABLE_LSN_PREFIX (mt_data t) lsn \<Longrightarrow> A = []"
proof -
  note F = tbl_log_order(1,4,5) [OF assms(1)]
  have new: "A = []" if "LOG_INDEX_MEM_TBL_IS_NEW t"
  proof -
    have "mt_free_head t = 1" using that by (simp add: LOG_INDEX_MEM_TBL_IS_NEW_def)
    then obtain H S B where "struct_ok key (td_segment (mt_data t)) (td_hash (mt_data t)) 1 H S B" "content (mt_data t) H S A"
      using assms(1) unfolding tbl_log_def by auto
    then show ?thesis using log_content_length by fastforce
  qed
  have empty: "tbl_log key (d\<lparr>td_prefix_lsn := x\<rparr>) f []" if "tbl_log key d f []" for d f x
    using that unfolding tbl_log_def content_def by simp
  show "tbl_log key (mt_data (take_cell lsn t)) (mt_free_head t) A"
    using assms(1) new empty by (auto simp: take_cell_def)
  show "mt_free_head t < LOG_INDEX_MEM_TBL_SEG_NUM"
    using assms(2) F(3) by (auto simp: usable_def LOG_INDEX_MEM_TBL_FULL_def LOG_INDEX_MEM_TBL_IS_NEW_def seg_num)
  show "LOG_INDEX_SAME_TABLE_LSN_PREFIX (mt_data (take_cell lsn t)) lsn"
    using assms(2) by (auto simp: usable_def take_cell_def same_prefix_set)
  show "A = []" if "\<not> LOG_INDEX_SAME_TABLE_LSN_PREFIX (mt_data t) lsn" using assms(2) new that by (auto simp: usable_def)
  assume same: "LOG_INDEX_SAME_TABLE_LSN_PREFIX (mt_data t) lsn"
  have "td_prefix_lsn (mt_data t) = LOG_INDEX_PREFIX_LSN lsn"
    using same ucast_prefix [of lsn] unfolding LOG_INDEX_SAME_TABLE_LSN_PREFIX_def by (intro ucast_prefix_inj) simp
  then show "mt_data (take_cell lsn t) = mt_data t" by (simp add: take_cell_def)
qed

lemma next_free_seg_take:
  assumes "sn_active_table s < length (sn_mem_table s)" "usable lsn (sn_mem_table s ! sn_active_table s)"
  shows "next_free_seg_loop (Suc k) r other lp s lsn nm a = Inr (mt_free_head (sn_mem_table s ! sn_active_table s), a,
    s\<lparr>sn_mem_table := (sn_mem_table s)[sn_active_table s := take_cell lsn (sn_mem_table s ! sn_active_table s)]\<rparr>)"
  using assms by (auto simp: usable_def Let_def put_mem_ok take_cell_def)

declare next_free_seg_loop.simps [simp del]

lemma loop_next: "0 < M \<Longrightarrow> 2 \<le> n \<Longrightarrow> LOOP_NEXT_VALUE ((M - 1) mod n) n = M mod n"
  by (cases M) (auto simp: LOOP_NEXT_VALUE_def mod_Suc)

lemma rest_slot:
  assumes "recorded lp L True s" "at_rest True s"
  shows "sn_active_table s < length (sn_mem_table s)" "sn_active_table s < sn_mem_tbl_size s" "0 < sn_max_idx_table_id s"
    "mt_state (sn_mem_table s ! sn_active_table s) = STATE_ACTIVE"
    "LOG_INDEX_MEM_TBL_TID (sn_mem_table s ! sn_active_table s) = sn_max_idx_table_id s"
    "tbl_log (lkey lp) (mt_data (sn_mem_table s ! sn_active_table s)) (mt_free_head (sn_mem_table s ! sn_active_table s)) (L (sn_max_idx_table_id s))"
  using ringD(5) [OF recorded_ring [OF assms(1)]] ringD(8-10) [OF recorded_ring [OF assms(1)], of "sn_max_idx_table_id s"] ring_slot_less [OF recorded_ring [OF assms(1)]]
    recorded_length [OF assms(1)] assms(2) by (simp_all add: at_rest_def)

text \<open>A table that cannot be used is closed.\<close>

lemma close_active:
  assumes ok: "recorded lp L True s" "at_rest True s" and nu: "\<not> usable lsn (sn_mem_table s ! sn_active_table s)"
  defines "s0 \<equiv> s\<lparr>sn_mem_table := (sn_mem_table s)[sn_active_table s := (sn_mem_table s ! sn_active_table s)\<lparr>mt_state := STATE_INACTIVE\<rparr>]\<rparr>"
  shows "recorded lp L False s0" "kept s s0" "sn_fault s0 = sn_fault s"
proof -
  let ?M = "sn_max_idx_table_id s"
  note A = rest_slot [OF ok]
  have "L ?M \<noteq> []" using ok nu A(4) by (auto simp: recorded_def fresh_def usable_def at_rest_def)
  then have "filled L False ?M" using ok by (auto simp: recorded_def opened_def filled_def le_less)
  moreover have "ring lp (L(?M := L ?M)) False (sn_mem_tbl_size s) (sn_mem_table s0) (saved_max s) ?M"
    using ring_last [OF recorded_ring [OF ok(1)], of "sn_active_table s" "(sn_mem_table s ! sn_active_table s)\<lparr>mt_state := STATE_INACTIVE\<rparr>" "L ?M" False]
      ok(2) A by (simp add: at_rest_def s0_def)
  ultimately show "recorded lp L False s0" using ok unfolding s0_def
    by (simp add: recorded_def opened_def fresh_def retained_def storage_def meta_saved_def stored_def file_slots_def polar_logindex_check_state_def)
  show "kept s s0" "sn_fault s0 = sn_fault s" by (simp_all add: s0_def kept_def)
qed

text \<open>
  The state \<open>s1\<close> from which the cell is taken: \<open>s\<close> itself, or with a new active table.
\<close>

definition cell_from :: "logindex_params \<Rightarrow> (nat \<Rightarrow> log_index_lsn list) \<Rightarrow> bool \<Rightarrow> log_index_snapshot \<Rightarrow> XLogRecPtr \<Rightarrow> log_index_snapshot \<Rightarrow> bool" where
  "cell_from lp L act s lsn s1 \<longleftrightarrow> (if act \<and> usable lsn (sn_mem_table s ! sn_active_table s) then s1 = s
     else \<exists>s2. opened_at lp L s (sn_max_idx_table_id s mod sn_mem_tbl_size s) lsn s2
          \<and> s1 = s2\<lparr>sn_active_table := sn_max_idx_table_id s mod sn_mem_tbl_size s\<rparr>)"

definition cell_taken :: "XLogRecPtr \<Rightarrow> log_index_snapshot \<Rightarrow> nat \<times> nat \<times> log_index_snapshot" where
  "cell_taken lsn s1 = (let a = sn_active_table s1; t = sn_mem_table s1 ! a
     in (mt_free_head t, a, s1\<lparr>sn_mem_table := (sn_mem_table s1)[a := take_cell lsn t]\<rparr>))"

lemma opened_at_take:
  assumes "opened_at lp L s m lsn s2" "m = sn_max_idx_table_id s mod sn_mem_tbl_size s"
  shows "next_free_seg_loop (Suc k) r other lp (s2\<lparr>sn_active_table := m\<rparr>) lsn nm m = Inr (cell_taken lsn (s2\<lparr>sn_active_table := m\<rparr>))"
proof -
  have R: "ring lp L True (sn_mem_tbl_size s2) (sn_mem_table s2) (saved_max s2) (sn_max_idx_table_id s2)"
    using assms(1) unfolding opened_at_def opened_def retained_def by blast
  have "m < length (sn_mem_table s2)" using ring_slot_less [OF R] ringD(2) [OF R] assms by (simp add: opened_at_def kept_def)
  then show ?thesis using next_free_seg_take [of "s2\<lparr>sn_active_table := m\<rparr>" lsn] usable_new assms(1)
    by (simp add: cell_taken_def Let_def opened_at_def)
qed

lemma next_free_seg_eq:
  assumes ok: "recorded lp L act s" "at_rest act s" and nu: "\<not> (act \<and> usable lsn (sn_mem_table s ! sn_active_table s))"
  defines "m \<equiv> sn_max_idx_table_id s mod sn_mem_tbl_size s"
  obtains s0 nm where "recorded lp L False s0" "kept s s0" "sn_fault s0 = sn_fault s"
    "log_index_next_free_seg r other lp s lsn (sn_active_table s) = rbind (log_index_wait_active r other lp s0 m lsn) (\<lambda>s2.
       next_free_seg_loop (Suc r) r other lp (case nm of None \<Rightarrow> s2 | Some x \<Rightarrow> s2\<lparr>sn_active_table := x\<rparr>) lsn nm m)"
    "nm = Some m \<or> nm = None \<and> m = sn_active_table s"
proof (cases act)
  case True
  let ?t = "sn_mem_table s ! sn_active_table s"
  let ?s0 = "s\<lparr>sn_mem_table := (sn_mem_table s)[sn_active_table s := ?t\<lparr>mt_state := STATE_INACTIVE\<rparr>]\<rparr>"
  have ok': "recorded lp L True s" "at_rest True s" using ok True by simp_all
  note A = rest_slot [OF ok'] and C = close_active [OF ok', of lsn]
  have m: "LOOP_NEXT_VALUE (sn_active_table s) (sn_mem_tbl_size s) = m"
    using loop_next [OF A(3) ringD(1) [OF recorded_ring [OF ok(1)]]] ok'(2) by (simp add: at_rest_def m_def)
  have "\<not> LOG_INDEX_MEM_TBL_IS_NEW ?t" "LOG_INDEX_MEM_TBL_FULL ?t \<or> \<not> LOG_INDEX_SAME_TABLE_LSN_PREFIX (mt_data ?t) lsn"
    using nu True A(4) by (auto simp: usable_def)
  then have "log_index_next_free_seg r other lp s lsn (sn_active_table s) = rbind (log_index_wait_active r other lp ?s0 m lsn) (\<lambda>s2.
       next_free_seg_loop (Suc r) r other lp (s2\<lparr>sn_active_table := m\<rparr>) lsn (Some m) m)"
    unfolding log_index_next_free_seg_def using A(1,4) m
    by (subst next_free_seg_loop.simps) (simp add: Let_def put_mem_ok)
  then show ?thesis using C True nu by (intro that [of ?s0 "Some m"]) simp_all
next
  case False
  then have z: "sn_max_idx_table_id s = 0" "sn_active_table s = 0" "m = 0" using ok(2) by (simp_all add: at_rest_def m_def)
  note R = recorded_ring [OF ok(1)]
  have len: "0 < length (sn_mem_table s)" "0 < sn_mem_tbl_size s" using ringD(1,2) [OF R] by simp_all
  have "mt_state (sn_mem_table s ! 0) \<noteq> STATE_ACTIVE" using ring_unsaved(5) [OF R len(2)] False by auto
  then have "log_index_next_free_seg r other lp s lsn (sn_active_table s) = rbind (log_index_wait_active r other lp s m lsn) (\<lambda>s2.
       next_free_seg_loop (Suc r) r other lp s2 lsn None m)"
    unfolding log_index_next_free_seg_def using len z
    by (subst next_free_seg_loop.simps) (simp add: Let_def)
  then show ?thesis using ok False z by (intro that [of s None]) (simp_all add: kept_refl)
qed

lemma next_free_seg_Inr:
  assumes ok: "recorded lp L act s" "at_rest act s" and env: "env_ok lp other"
    and nx: "log_index_next_free_seg r other lp s lsn (sn_active_table s) = Inr x"
  shows "\<exists>s1. cell_from lp L act s lsn s1 \<and> x = cell_taken lsn s1"
proof (cases "act \<and> usable lsn (sn_mem_table s ! sn_active_table s)")
  case True
  then have "x = cell_taken lsn s" using nx next_free_seg_take [of s lsn] rest_slot(1) [of lp L s] ok
    by (simp add: log_index_next_free_seg_def cell_taken_def Let_def)
  then show ?thesis using True by (simp add: cell_from_def)
next
  case False
  let ?m = "sn_max_idx_table_id s mod sn_mem_tbl_size s"
  obtain s0 nm where s0: "recorded lp L False s0" "kept s s0" "sn_fault s0 = sn_fault s"
    "log_index_next_free_seg r other lp s lsn (sn_active_table s) = rbind (log_index_wait_active r other lp s0 ?m lsn) (\<lambda>s2.
       next_free_seg_loop (Suc r) r other lp (case nm of None \<Rightarrow> s2 | Some x \<Rightarrow> s2\<lparr>sn_active_table := x\<rparr>) lsn nm ?m)"
    "nm = Some ?m \<or> nm = None \<and> ?m = sn_active_table s" using next_free_seg_eq [OF ok False] .
  obtain s2 where s2: "log_index_wait_active r other lp s0 ?m lsn = Inr s2"
    "next_free_seg_loop (Suc r) r other lp (case nm of None \<Rightarrow> s2 | Some x \<Rightarrow> s2\<lparr>sn_active_table := x\<rparr>) lsn nm ?m = Inr x"
    using nx unfolding s0(4) by (rule rbind_InrE)
  have o: "opened_at lp L s ?m lsn s2" using opened_at_kept [OF s0(2) wait_active_Inr [OF s0(1) _ env s2(1)]] s0(2) by (simp add: kept_def)
  have "(case nm of None \<Rightarrow> s2 | Some x \<Rightarrow> s2\<lparr>sn_active_table := x\<rparr>) = s2\<lparr>sn_active_table := ?m\<rparr>"
    using s0(5) o by (auto simp: opened_at_def kept_def)
  then have "x = cell_taken lsn (s2\<lparr>sn_active_table := ?m\<rparr>)" using s2(2) opened_at_take [OF o refl] by (simp)
  then show ?thesis using False o by (auto simp: cell_from_def)
qed

lemma next_free_seg_total:
  assumes ok: "recorded lp L act s" "at_rest act s" and env: "env_ok lp other"
    and nf: "sn_fault s = None" and fl: "\<And>t. lp_table_flushable lp t"
  shows "\<exists>s1. log_index_next_free_seg (Suc r) other lp s lsn (sn_active_table s) = Inr (cell_taken lsn s1)
    \<and> cell_from lp L act s lsn s1 \<and> sn_fault s1 = None"
proof (cases "act \<and> usable lsn (sn_mem_table s ! sn_active_table s)")
  case True
  then have "log_index_next_free_seg (Suc r) other lp s lsn (sn_active_table s) = Inr (cell_taken lsn s)"
    using next_free_seg_take [of s lsn] rest_slot(1) [of lp L s] ok by (simp add: log_index_next_free_seg_def cell_taken_def Let_def)
  then show ?thesis using True nf by (auto simp: cell_from_def)
next
  case False
  let ?m = "sn_max_idx_table_id s mod sn_mem_tbl_size s"
  obtain s0 nm where s0: "recorded lp L False s0" "kept s s0" "sn_fault s0 = sn_fault s"
    "log_index_next_free_seg (Suc r) other lp s lsn (sn_active_table s) = rbind (log_index_wait_active (Suc r) other lp s0 ?m lsn) (\<lambda>s2.
       next_free_seg_loop (Suc (Suc r)) (Suc r) other lp (case nm of None \<Rightarrow> s2 | Some x \<Rightarrow> s2\<lparr>sn_active_table := x\<rparr>) lsn nm ?m)"
    "nm = Some ?m \<or> nm = None \<and> ?m = sn_active_table s" using next_free_seg_eq [OF ok False] .
  have m: "?m = sn_max_idx_table_id s0 mod sn_mem_tbl_size s0" using s0(2) by (simp add: kept_def)
  obtain s2 where s2: "log_index_wait_active (Suc r) other lp s0 ?m lsn = Inr s2" "sn_fault s2 = None"
    using wait_active_total [OF s0(1) m _ fl, of r other lsn] s0(3) nf by auto
  have o: "opened_at lp L s ?m lsn s2" using opened_at_kept [OF s0(2) wait_active_Inr [OF s0(1) m env s2(1)]] .
  have "(case nm of None \<Rightarrow> s2 | Some x \<Rightarrow> s2\<lparr>sn_active_table := x\<rparr>) = s2\<lparr>sn_active_table := ?m\<rparr>"
    using s0(5) o by (auto simp: opened_at_def kept_def)
  then have "log_index_next_free_seg (Suc r) other lp s lsn (sn_active_table s) = Inr (cell_taken lsn (s2\<lparr>sn_active_table := ?m\<rparr>))"
    using s0(4) s2(1) opened_at_take [OF o refl] by simp
  then show ?thesis using False o s2(2) by (auto simp: cell_from_def)
qed

section \<open>Adding an LSN\<close>

text \<open>\<open>a\<close> is not before any recorded LSN.\<close>

definition above :: "(nat \<Rightarrow> log_index_lsn list) \<Rightarrow> log_index_lsn \<Rightarrow> bool" where
  "above L a \<longleftrightarrow> (\<forall>i > 0. \<forall>b \<in> set (L i). li_lsn b \<le> li_lsn a)"

text \<open>The LSN was added to table \<open>M\<close>.\<close>

definition added_to :: "logindex_params \<Rightarrow> (nat \<Rightarrow> log_index_lsn list) \<Rightarrow> log_index_snapshot \<Rightarrow> log_index_lsn \<Rightarrow> nat \<Rightarrow> log_index_snapshot \<Rightarrow> bool" where
  "added_to lp L s a M s' \<longleftrightarrow> recorded lp (L(M := L M @ [a])) True s' \<and> at_rest True s' \<and> sn_max_idx_table_id s' = M
     \<and> sn_mem_tbl_size s' = sn_mem_tbl_size s \<and> sn_state s' = sn_state s \<and> saved_kept s s'"

lemma log_sorted_add:
  assumes "log_sorted L" "above L a" "0 < M" "\<And>i. M < i \<Longrightarrow> L i = []"
  shows "log_sorted (L(M := L M @ [a]))"
  unfolding log_sorted_def
proof (intro conjI allI impI ballI)
  fix i show "sorted (map li_lsn ((L(M := L M @ [a])) i))"
    using assms by (auto simp: log_sorted_def above_def sorted_append)
next
  fix i j b c assume "0 < i \<and> i < j" "b \<in> set ((L(M := L M @ [a])) i)" "c \<in> set ((L(M := L M @ [a])) j)"
  then show "li_lsn b \<le> li_lsn c" using assms unfolding log_sorted_def above_def
    by (auto split: if_splits)
qed

lemma added_put:
  assumes ok: "opened lp L True s" and act: "sn_active_table s = (sn_max_idx_table_id s - 1) mod sn_mem_tbl_size s" and ab: "above L a"
    and t: "LOG_INDEX_MEM_TBL_TID t = sn_max_idx_table_id s" "mt_state t = STATE_ACTIVE"
      "tbl_log (lkey lp) (mt_data t) (mt_free_head t) (L (sn_max_idx_table_id s) @ [a])"
  shows "added_to lp L s a (sn_max_idx_table_id s) (s\<lparr>sn_mem_table := (sn_mem_table s)[sn_active_table s := t], sn_max_lsn := x\<rparr>)"
proof -
  let ?M = "sn_max_idx_table_id s" and ?L = "L(sn_max_idx_table_id s := L (sn_max_idx_table_id s) @ [a])"
  have R: "ring lp L True (sn_mem_tbl_size s) (sn_mem_table s) (saved_max s) ?M" using ok by (simp add: opened_def retained_def)
  have D: "saved_max s < ?M" using ringD(5) [OF R] by simp
  have "ring lp ?L True (sn_mem_tbl_size s) ((sn_mem_table s)[sn_active_table s := t]) (saved_max s) ?M"
    using ring_last [OF R act t(1,3)] t(2) by simp
  moreover have "log_sorted ?L" using ok D ab ringD(11) [OF R] by (intro log_sorted_add) (auto simp: opened_def)
  moreover have "meta_bounds ?L (sn_meta s)" using ok D meta_bounds_cong [of "sn_meta s" ?L L] by (simp add: opened_def)
  moreover have "filled ?L True ?M" using ok by (auto simp: opened_def filled_def)
  moreover have "storage lp ?L s" using ok D by (simp add: opened_def retained_def storage_def)
  ultimately show ?thesis using ok act
    by (simp add: added_to_def recorded_def opened_def fresh_def at_rest_def retained_def storage_def meta_saved_def stored_def file_slots_def polar_logindex_check_state_def)
qed

lemma insert_bounds_eq:
  assumes "a < length (sn_mem_table s)"
  shows "\<exists>x d. insert_lsn_bounds s a t lsn = Inr (s\<lparr>sn_mem_table := (sn_mem_table s)[a := t\<lparr>mt_data := d\<rparr>], sn_max_lsn := x\<rparr>)
    \<and> (\<forall>key f A. tbl_log key d f A = tbl_log key (mt_data t) f A) \<and> td_idx_table_id d = LOG_INDEX_MEM_TBL_TID t"
proof -
  let ?d = "(mt_data t)\<lparr>td_max_lsn := max lsn (td_max_lsn (mt_data t)), td_min_lsn := min lsn (td_min_lsn (mt_data t))\<rparr>"
  have "insert_lsn_bounds s a t lsn = Inr (s\<lparr>sn_mem_table := (sn_mem_table s)[a := t\<lparr>mt_data := ?d\<rparr>], sn_max_lsn := td_max_lsn ?d\<rparr>)"
    using assms by (simp add: insert_lsn_bounds_def Let_def put_mem_ok)
  moreover have "tbl_log key ?d f A = tbl_log key (mt_data t) f A" for key f A by (rule tbl_log_cong) simp_all
  moreover have "td_idx_table_id ?d = LOG_INDEX_MEM_TBL_TID t" by simp
  ultimately show ?thesis by blast
qed

text \<open>The new cell is filled, in a table that has the prefix of the LSN.\<close>

lemma insert_cell:
  assumes log: "tbl_log (lkey lp) d dst A" and dst: "dst < LOG_INDEX_MEM_TBL_SEG_NUM" and pre: "LOG_INDEX_SAME_TABLE_LSN_PREFIX d (li_lsn a)"
    and nw: "new \<Longrightarrow> page_log (li_tag a) A = []"
    and old: "\<not> new \<Longrightarrow> log_index_mem_tbl_exists_page (li_tag a) d (lkey lp (li_tag a)) = Inr head \<and> head \<noteq> 0 \<and> log_index_mem_seg_full d head = Inr True"
  shows "\<exists>d'. insert_lsn_new d (lkey lp (li_tag a)) new head dst a = Inr d' \<and> tbl_log (lkey lp) d' (Suc dst) (A @ [a]) \<and> td_idx_table_id d' = td_idx_table_id d"
proof (cases new)
  case True
  obtain d' where "insert_lsn_new d (lkey lp (li_tag a)) True head dst a = Inr d'" "tbl_log (lkey lp) d' (Suc dst) (A @ [a])" "tbl_frame d d'"
    using tbl_log_new_item [OF log lkey_less nw [OF True] pre dst] by metis
  then show ?thesis using True by (auto simp: tbl_frame_def)
next
  case False
  then have o: "log_index_mem_tbl_exists_page (li_tag a) d (lkey lp (li_tag a)) = Inr head" "head \<noteq> 0" "log_index_mem_seg_full d head = Inr True"
    using old by simp_all
  obtain d' where "insert_lsn_new d (lkey lp (li_tag a)) False head dst a = Inr d'" "tbl_log (lkey lp) d' (Suc dst) (A @ [a])" "tbl_frame d d'"
    using tbl_log_new_seg [OF log lkey_less o pre dst] by metis
  then show ?thesis using False by (auto simp: tbl_frame_def)
qed

text \<open>The rest of \<open>log_index_insert_lsn\<close>, after a cell was taken.\<close>

definition insert_rest :: "nat \<Rightarrow> nat \<Rightarrow> nat \<Rightarrow> log_index_lsn \<Rightarrow> nat \<times> nat \<times> log_index_snapshot \<Rightarrow> log_index_snapshot result" where
  "insert_rest key old_active head a = (\<lambda>(dst, active, s).
     rbind (LOG_INDEX_MEM_TBL s active) (\<lambda>t.
     rbind (insert_lsn_new (mt_data t) key (head = 0 \<or> active \<noteq> old_active) head dst a) (\<lambda>data.
     insert_lsn_bounds s active (t\<lparr>mt_data := data\<rparr>) (li_lsn a))))"

lemma insert_rest_at:
  assumes ok: "opened lp L True s1" and act: "sn_active_table s1 = (sn_max_idx_table_id s1 - 1) mod sn_mem_tbl_size s1" and ab: "above L a"
    and us: "usable (li_lsn a) (sn_mem_table s1 ! sn_active_table s1)"
    and nw: "head = 0 \<or> sn_active_table s1 \<noteq> old \<Longrightarrow> page_log (li_tag a) (L (sn_max_idx_table_id s1)) = []"
    and hd: "\<not> (head = 0 \<or> sn_active_table s1 \<noteq> old) \<Longrightarrow> LOG_INDEX_SAME_TABLE_LSN_PREFIX (mt_data (sn_mem_table s1 ! sn_active_table s1)) (li_lsn a)
      \<and> log_index_mem_tbl_exists_page (li_tag a) (mt_data (sn_mem_table s1 ! sn_active_table s1)) (lkey lp (li_tag a)) = Inr head
      \<and> log_index_mem_seg_full (mt_data (sn_mem_table s1 ! sn_active_table s1)) head = Inr True"
  shows "\<exists>s'. insert_rest (lkey lp (li_tag a)) old head a (cell_taken (li_lsn a) s1) = Inr s' \<and> added_to lp L s1 a (sn_max_idx_table_id s1) s'
    \<and> sn_fault s' = sn_fault s1"
proof -
  let ?M = "sn_max_idx_table_id s1" and ?a = "sn_active_table s1"
  let ?t = "sn_mem_table s1 ! ?a"
  let ?c = "take_cell (li_lsn a) ?t"
  have R: "ring lp L True (sn_mem_tbl_size s1) (sn_mem_table s1) (saved_max s1) ?M" using ok by (simp add: opened_def retained_def)
  have a: "?a < length (sn_mem_table s1)" using ring_slot_less [OF R] ringD(2) [OF R] act by simp
  have log: "tbl_log (lkey lp) (mt_data ?t) (mt_free_head ?t) (L ?M)" "LOG_INDEX_MEM_TBL_TID ?t = ?M" "mt_state ?t = STATE_ACTIVE"
    using ringD(5,9) [OF R] ringD(8,10) [OF R, of ?M] act by simp_all
  note C = take_cell_log [OF log(1) us]
  have hd': "log_index_mem_tbl_exists_page (li_tag a) (mt_data ?c) (lkey lp (li_tag a)) = Inr head \<and> head \<noteq> 0
      \<and> log_index_mem_seg_full (mt_data ?c) head = Inr True" if "\<not> (head = 0 \<or> ?a \<noteq> old)"
    using hd [OF that] C(4) that by simp
  obtain d where d: "insert_lsn_new (mt_data ?c) (lkey lp (li_tag a)) (head = 0 \<or> ?a \<noteq> old) head (mt_free_head ?t) a = Inr d"
    "tbl_log (lkey lp) d (Suc (mt_free_head ?t)) (L ?M @ [a])" "td_idx_table_id d = td_idx_table_id (mt_data ?c)"
    using insert_cell [OF C(1-3) nw hd'] by blast
  let ?s2 = "s1\<lparr>sn_mem_table := (sn_mem_table s1)[?a := ?c]\<rparr>"
  obtain x d' where b: "insert_lsn_bounds ?s2 ?a (?c\<lparr>mt_data := d\<rparr>) (li_lsn a) =
      Inr (?s2\<lparr>sn_mem_table := (sn_mem_table ?s2)[?a := ?c\<lparr>mt_data := d'\<rparr>], sn_max_lsn := x\<rparr>)"
    "\<And>key f A. tbl_log key d' f A = tbl_log key d f A" "td_idx_table_id d' = td_idx_table_id d"
    using insert_bounds_eq [of ?a ?s2 "?c\<lparr>mt_data := d\<rparr>" "li_lsn a"] a by auto
  let ?s' = "s1\<lparr>sn_mem_table := (sn_mem_table s1)[?a := ?c\<lparr>mt_data := d'\<rparr>], sn_max_lsn := x\<rparr>"
  have "insert_rest (lkey lp (li_tag a)) old head a (cell_taken (li_lsn a) s1) = Inr ?s'"
    using a d(1) b(1) by (simp add: insert_rest_def cell_taken_def Let_def)
  moreover have "added_to lp L s1 a ?M ?s'"
    using d b log by (intro added_put [OF ok act ab]) (simp_all add: take_cell_def)
  ultimately show ?thesis by auto
qed

lemma slot_neq: "0 < (M::nat) \<Longrightarrow> 2 \<le> n \<Longrightarrow> M mod n \<noteq> (M - 1) mod n"
  using slot_inj [of "M - 1" "M" n "Suc M"] by fastforce

lemma opened_active [simp]: "opened lp L act (s\<lparr>sn_active_table := z\<rparr>) = opened lp L act s"
  by (simp add: opened_def retained_def storage_def meta_saved_def stored_def file_slots_def polar_logindex_check_state_def)

lemma cell_fromD:
  assumes ok: "recorded lp L act s" "at_rest act s" and c: "cell_from lp L act s lsn s1"
  shows "opened lp L True s1" "sn_active_table s1 = (sn_max_idx_table_id s1 - 1) mod sn_mem_tbl_size s1"
    "usable lsn (sn_mem_table s1 ! sn_active_table s1)" "sn_mem_tbl_size s1 = sn_mem_tbl_size s" "sn_state s1 = sn_state s"
    "s1 = s \<and> act \<or> sn_max_idx_table_id s1 = Suc (sn_max_idx_table_id s) \<and> L (Suc (sn_max_idx_table_id s)) = []
       \<and> (act \<longrightarrow> sn_active_table s1 \<noteq> sn_active_table s)"
    "saved_kept s s1"
proof -
  let ?M = "sn_max_idx_table_id s" and ?n = "sn_mem_tbl_size s"
  have "opened lp L True s1 \<and> sn_active_table s1 = (sn_max_idx_table_id s1 - 1) mod sn_mem_tbl_size s1
    \<and> usable lsn (sn_mem_table s1 ! sn_active_table s1) \<and> sn_mem_tbl_size s1 = ?n \<and> sn_state s1 = sn_state s
    \<and> (s1 = s \<and> act \<or> sn_max_idx_table_id s1 = Suc ?M \<and> L (Suc ?M) = [] \<and> (act \<longrightarrow> sn_active_table s1 \<noteq> sn_active_table s))
    \<and> saved_kept s s1"
  proof (cases "act \<and> usable lsn (sn_mem_table s ! sn_active_table s)")
    case True
    then show ?thesis using c ok by (simp add: cell_from_def recorded_def at_rest_def)
  next
    case False
    then obtain s2 where s2: "opened_at lp L s (?M mod ?n) lsn s2" "s1 = s2\<lparr>sn_active_table := ?M mod ?n\<rparr>"
      using c by (auto simp: cell_from_def)
    have "sn_active_table s \<noteq> ?M mod ?n" if act
      using slot_neq [of ?M ?n] that ok ringD(1,5) [OF recorded_ring [OF ok(1)]] by (simp add: at_rest_def)
    moreover have "L (Suc ?M) = []" using ringD(11) [OF recorded_ring [OF ok(1)]] by simp
    moreover have "opened lp L True s1" using s2 unfolding opened_at_def by simp
    ultimately show ?thesis using s2 usable_new by (auto simp: opened_at_def kept_def)
  qed
  then show "opened lp L True s1" "sn_active_table s1 = (sn_max_idx_table_id s1 - 1) mod sn_mem_tbl_size s1"
    "usable lsn (sn_mem_table s1 ! sn_active_table s1)" "sn_mem_tbl_size s1 = sn_mem_tbl_size s" "sn_state s1 = sn_state s"
    "s1 = s \<and> act \<or> sn_max_idx_table_id s1 = Suc ?M \<and> L (Suc ?M) = [] \<and> (act \<longrightarrow> sn_active_table s1 \<noteq> sn_active_table s)"
    "saved_kept s s1" by blast+
qed

text \<open>The LSN went to the active table or to a new one.\<close>

definition inserted :: "logindex_params \<Rightarrow> (nat \<Rightarrow> log_index_lsn list) \<Rightarrow> bool \<Rightarrow> log_index_snapshot \<Rightarrow> log_index_lsn \<Rightarrow> log_index_snapshot \<Rightarrow> bool" where
  "inserted lp L act s a s' \<longleftrightarrow> (\<exists>M. added_to lp L s a M s' \<and>
     (act \<and> M = sn_max_idx_table_id s \<and> (L M = [] \<or> LOG_INDEX_SAME_TABLE_LSN_PREFIX (mt_data (sn_mem_table s ! sn_active_table s)) (li_lsn a))
      \<or> M = Suc (sn_max_idx_table_id s) \<and> L M = []))"

lemma seg_full_Inr:
  assumes "tbl_log key t f A" "key tag < LOG_INDEX_MEM_TBL_HASH_NUM" "log_index_mem_tbl_exists_page tag t (key tag) = Inr h" "h \<noteq> 0"
  shows "\<exists>b. log_index_mem_seg_full t h = Inr b"
  using assms exists_page_head mem_seg_full_struct unfolding tbl_log_def by metis

text \<open>What \<open>log_index_insert_lsn\<close> finds about the page in the active table: its head, and that a cell is needed.\<close>

definition needs_cell :: "logindex_params \<Rightarrow> (nat \<Rightarrow> log_index_lsn list) \<Rightarrow> bool \<Rightarrow> log_index_snapshot \<Rightarrow> log_index_lsn \<Rightarrow> nat \<Rightarrow> bool" where
  "needs_cell lp L act s a head \<longleftrightarrow> (let t = mt_data (sn_mem_table s ! sn_active_table s) in
     if head = 0 then act \<longrightarrow> LOG_INDEX_SAME_TABLE_LSN_PREFIX t (li_lsn a) \<longrightarrow> page_log (li_tag a) (L (sn_max_idx_table_id s)) = []
     else act \<and> LOG_INDEX_SAME_TABLE_LSN_PREFIX t (li_lsn a) \<and> log_index_mem_tbl_exists_page (li_tag a) t (lkey lp (li_tag a)) = Inr head
       \<and> log_index_mem_seg_full t head = Inr True)"

lemma insert_rest_inserted:
  assumes ok: "recorded lp L act s" "at_rest act s" and ab: "above L a" and nd: "needs_cell lp L act s a head"
    and c: "cell_from lp L act s (li_lsn a) s1"
  shows "\<exists>s'. insert_rest (lkey lp (li_tag a)) (sn_active_table s) head a (cell_taken (li_lsn a) s1) = Inr s' \<and> inserted lp L act s a s'
    \<and> sn_fault s' = sn_fault s1"
proof -
  note C = cell_fromD [OF ok c]
  let ?t = "mt_data (sn_mem_table s ! sn_active_table s)"
  have empty: "L (sn_max_idx_table_id s) = []" if "s1 = s" "act" "\<not> LOG_INDEX_SAME_TABLE_LSN_PREFIX ?t (li_lsn a)"
    using take_cell_log(5) [OF rest_slot(6) [of lp L s], of "li_lsn a"] C(3) that ok by simp
  have "\<exists>s'. insert_rest (lkey lp (li_tag a)) (sn_active_table s) head a (cell_taken (li_lsn a) s1) = Inr s'
      \<and> added_to lp L s1 a (sn_max_idx_table_id s1) s' \<and> sn_fault s' = sn_fault s1"
  proof (rule insert_rest_at [OF C(1,2) ab C(3)])
    assume "head = 0 \<or> sn_active_table s1 \<noteq> sn_active_table s"
    then show "page_log (li_tag a) (L (sn_max_idx_table_id s1)) = []"
      using C(6) nd empty by (auto simp: needs_cell_def Let_def page_log_def)
  next
    assume "\<not> (head = 0 \<or> sn_active_table s1 \<noteq> sn_active_table s)"
    then show "LOG_INDEX_SAME_TABLE_LSN_PREFIX (mt_data (sn_mem_table s1 ! sn_active_table s1)) (li_lsn a)
      \<and> log_index_mem_tbl_exists_page (li_tag a) (mt_data (sn_mem_table s1 ! sn_active_table s1)) (lkey lp (li_tag a)) = Inr head
      \<and> log_index_mem_seg_full (mt_data (sn_mem_table s1 ! sn_active_table s1)) head = Inr True"
      using C(6) nd by (auto simp: needs_cell_def Let_def)
  qed
  moreover have "inserted lp L act s a s'" if "added_to lp L s1 a (sn_max_idx_table_id s1) s'" for s'
  proof -
    have "added_to lp L s a (sn_max_idx_table_id s1) s'" using that C(4,5) saved_kept_trans [OF C(7)] by (simp add: added_to_def)
    then show ?thesis unfolding inserted_def using C(6) empty by (intro exI [of _ "sn_max_idx_table_id s1"]) auto
  qed
  ultimately show ?thesis by blast
qed

lemma insert_lsn_cases:
  assumes ok: "recorded lp L act s" "at_rest act s" and ab: "above L a"
  obtains s' where "\<And>r other. log_index_insert_lsn r other lp s a (lkey lp (li_tag a)) = Inr s'" "inserted lp L act s a s'" "sn_fault s' = sn_fault s"
  | head where "\<And>r other. log_index_insert_lsn r other lp s a (lkey lp (li_tag a)) =
      rbind (log_index_next_free_seg r other lp s (li_lsn a) (sn_active_table s)) (insert_rest (lkey lp (li_tag a)) (sn_active_table s) head a)"
    "needs_cell lp L act s a head"
proof -
  let ?a = "sn_active_table s" and ?M = "sn_max_idx_table_id s"
  let ?t = "sn_mem_table s ! ?a"
  have a: "?a < length (sn_mem_table s)" "?a < sn_mem_tbl_size s"
    using rest_slot(1,2) [of lp L s] ok ringD(1,2) [OF recorded_ring [OF ok(1)]] by (cases act; simp add: at_rest_def)+
  have st: "mt_state ?t = STATE_ACTIVE \<longleftrightarrow> act"
    using rest_slot(4) [of lp L s] ok ring_unsaved(5) [OF recorded_ring [OF ok(1)] a(2)] by (cases act) auto
  show ?thesis
  proof (cases "act \<and> LOG_INDEX_SAME_TABLE_LSN_PREFIX (mt_data ?t) (li_lsn a)")
    case False
    then show ?thesis using a(1) st
      by (intro that(2) [of 0]) (auto simp: log_index_insert_lsn_def Let_def insert_rest_def needs_cell_def)
  next
    case True
    then have log: "tbl_log (lkey lp) (mt_data ?t) (mt_free_head ?t) (L ?M)" using rest_slot(6) [of lp L s] ok by simp
    obtain h where h: "log_index_mem_tbl_exists_page (li_tag a) (mt_data ?t) (lkey lp (li_tag a)) = Inr h" "h = 0 \<longleftrightarrow> page_log (li_tag a) (L ?M) = []"
      using tbl_log_exists [OF log lkey_less] by metis
    show ?thesis
    proof (cases "h = 0")
      case z: True
      then show ?thesis using a(1) st True h
        by (intro that(2) [of 0]) (auto simp: log_index_insert_lsn_def Let_def insert_rest_def needs_cell_def)
    next
      case nz: False
      obtain full where full: "log_index_mem_seg_full (mt_data ?t) h = Inr full" using seg_full_Inr [OF log lkey_less h(1) nz] by blast
      show ?thesis
      proof (cases full)
        case f: True
        then show ?thesis using a(1) st True h nz full
          by (intro that(2) [of h]) (auto simp: log_index_insert_lsn_def Let_def insert_rest_def needs_cell_def)
      next
        case f: False
        obtain d where d: "insert_lsn_append (mt_data ?t) h a = Inr d" "tbl_log (lkey lp) d (mt_free_head ?t) (L ?M @ [a])" "tbl_frame (mt_data ?t) d"
          using tbl_log_append [OF log lkey_less h(1) nz] full f True by metis
        obtain x d' where b: "insert_lsn_bounds s ?a (?t\<lparr>mt_data := d\<rparr>) (li_lsn a) =
            Inr (s\<lparr>sn_mem_table := (sn_mem_table s)[?a := ?t\<lparr>mt_data := d'\<rparr>], sn_max_lsn := x\<rparr>)"
          "\<And>key f A. tbl_log key d' f A = tbl_log key d f A" "td_idx_table_id d' = td_idx_table_id d"
          using insert_bounds_eq [OF a(1), of "?t\<lparr>mt_data := d\<rparr>" "li_lsn a"] by auto
        have o: "opened lp L True s" "?a = (?M - 1) mod sn_mem_tbl_size s" using ok True by (simp_all add: recorded_def at_rest_def)
        have "added_to lp L s a ?M (s\<lparr>sn_mem_table := (sn_mem_table s)[?a := ?t\<lparr>mt_data := d'\<rparr>], sn_max_lsn := x\<rparr>)"
          using d b rest_slot(4,5) [of lp L s] ok True by (intro added_put [OF o ab]) (simp_all add: tbl_frame_def)
        then have "inserted lp L act s a (s\<lparr>sn_mem_table := (sn_mem_table s)[?a := ?t\<lparr>mt_data := d'\<rparr>], sn_max_lsn := x\<rparr>)"
          unfolding inserted_def using True by blast
        then show ?thesis using a(1) st True h(1) nz full f d(1) b(1) 
          by (intro that(1) [of "s\<lparr>sn_mem_table := (sn_mem_table s)[?a := ?t\<lparr>mt_data := d'\<rparr>], sn_max_lsn := x\<rparr>"])
            (simp_all add: log_index_insert_lsn_def Let_def)
      qed
    qed
  qed
qed

lemma insert_lsn_Inr:
  assumes ok: "recorded lp L act s" "at_rest act s" and ab: "above L a" and env: "env_ok lp other"
    and i: "log_index_insert_lsn r other lp s a (lkey lp (li_tag a)) = Inr s'"
  shows "inserted lp L act s a s'"
  using ok ab
proof (cases rule: insert_lsn_cases)
  case (2 head)
  obtain x where x: "log_index_next_free_seg r other lp s (li_lsn a) (sn_active_table s) = Inr x"
    "insert_rest (lkey lp (li_tag a)) (sn_active_table s) head a x = Inr s'" using i unfolding 2(1) by (rule rbind_InrE)
  obtain s1 where s1: "cell_from lp L act s (li_lsn a) s1" "x = cell_taken (li_lsn a) s1" using next_free_seg_Inr [OF ok env x(1)] by blast
  then show ?thesis using insert_rest_inserted [OF ok ab 2(2) s1(1)] x(2) by auto
qed (use i in simp)

lemma insert_lsn_total:
  assumes ok: "recorded lp L act s" "at_rest act s" and ab: "above L a" and env: "env_ok lp other"
    and nf: "sn_fault s = None" and fl: "\<And>t. lp_table_flushable lp t"
  shows "\<exists>s'. log_index_insert_lsn (Suc r) other lp s a (lkey lp (li_tag a)) = Inr s' \<and> inserted lp L act s a s' \<and> sn_fault s' = None"
  using ok ab
proof (cases rule: insert_lsn_cases)
  case (2 head)
  obtain s1 where s1: "log_index_next_free_seg (Suc r) other lp s (li_lsn a) (sn_active_table s) = Inr (cell_taken (li_lsn a) s1)"
    "cell_from lp L act s (li_lsn a) s1" "sn_fault s1 = None" using next_free_seg_total [OF ok env nf fl] by blast
  then show ?thesis using insert_rest_inserted [OF ok ab 2(2) s1(2)] 2(1) by simp
qed (use nf in simp)

end
