(* ===== verification/Logindex_Restart.thy ===== *)
theory Logindex_Restart
  imports Logindex_Insert
begin

text \<open>
  The start of a snapshot: from nothing, and from the storage that a crashed process has left.
  After the latter the records of the saved tables are there, those of the others are not.
\<close>

section \<open>Reading the meta file\<close>

lemma get_meta_saved:
  assumes "meta_saved lp s" "sn_meta_file s0 = sn_meta_file s" "sn_fault s0 = None"
  shows "log_index_get_meta lp s0 = (True, sn_meta s)"
proof -
  have "(sn_meta s)\<lparr>lm_crc := lp_crc_meta lp ((sn_meta s)\<lparr>lm_crc := 0\<rparr>)\<rparr> = sn_meta s"
    using assms(1) by (cases "sn_meta s") (simp add: meta_saved_def)
  then show ?thesis using assms by (simp add: log_index_get_meta_def meta_saved_def Let_def)
qed

section \<open>Loading saved tables\<close>

text \<open>The records of the tables up to \<open>D\<close>.\<close>

definition saved_log :: "nat \<Rightarrow> (nat \<Rightarrow> log_index_lsn list) \<Rightarrow> nat \<Rightarrow> log_index_lsn list" where
  "saved_log D L tid = (if tid \<le> D then L tid else [])"

lemma ring_zero: "2 \<le> n \<Longrightarrow> ring lp (saved_log D L) False n (replicate n mem_table_zero) D D"
  by (rule ringI) (auto simp: slot_ok_def mem_table_zero_def table_zero_def saved_log_def)

text \<open>When all tables are saved, a slot may get any of them.\<close>

lemma ring_load:
  assumes r: "ring lp L False n ts D D" and mid: "mid < n" and t: "mt_state t = STATE_FLUSHED" "slot_ok lp L n D mid t"
  shows "ring lp L False n (ts[mid := t]) D D"
proof -
  note R = ringD [OF r]
  have at: "(ts[mid := t]) ! m = (if m = mid then t else ts ! m)" for m using mid R(2) by simp
  show ?thesis
  proof (rule ringI)
    fix m assume m: "m < n"
    show "slot_ok lp L n D m (ts[mid := t] ! m)" using R(6) [OF m] t(2) unfolding at by simp
    assume "D < LOG_INDEX_MEM_TBL_TID (ts[mid := t] ! m)"
    then show "LOG_INDEX_MEM_TBL_TID (ts[mid := t] ! m) \<le> D \<and> (LOG_INDEX_MEM_TBL_TID (ts[mid := t] ! m) - 1) mod n = m"
      using R(7) [OF m] t unfolding at by (auto simp: slot_ok_simps split: if_splits)
  qed (use R(1,2,11) in auto)
qed

lemma load_tables_Inr:
  assumes "recorded lp L False s" "sn_max_idx_table_id s = saved_max s" "sn_fault s = None"
    and "tid \<le> saved_max s" "64 * min_segno s + 1 \<le> min_tid" "load_tables n lp s start min_tid tid buf = Inr (table, s')"
  shows "recorded lp L False s' \<and> kept s s' \<and> sn_meta s' = sn_meta s \<and> sn_fault s' = None"
  using assms
proof (induction n arbitrary: s tid buf)
  case (Suc n)
  show ?case
  proof (cases "min_tid \<le> tid")
    case False then show ?thesis using Suc.prems by (simp add: kept_refl)
  next
    case True
    have tid: "0 < tid" "min_segno s \<le> segno tid" using True Suc.prems(5) by (auto simp: seg_slot less_eq_div_iff_mult_less_eq)
    then have "stored lp s tid (L tid)" using recorded_storage [OF Suc.prems(1)] Suc.prems(4) by (simp add: storage_def)
    then obtain t where t: "log_index_read_table_data lp s tid = Inr t" "good_table lp t tid (L tid)" using stored_read Suc.prems(3) by blast
    let ?mid = "mid_of_tid s tid" and ?t = "\<lparr>mt_free_head = LOG_INDEX_MEM_TBL_SEG_NUM, mt_state = STATE_FLUSHED, mt_data = t\<rparr>"
    let ?s = "s\<lparr>sn_mem_table := (sn_mem_table s)[?mid := ?t]\<rparr>"
    have mid: "?mid < sn_mem_tbl_size s" "?mid = (tid - 1) mod sn_mem_tbl_size s"
      using mid_of_tid_less [OF Suc.prems(1), of tid] tid(1) by (simp_all add: mid_of_tid_def tid_pred_def)
    have r: "ring lp L False (sn_mem_tbl_size s) (sn_mem_table s) (saved_max s) (saved_max s)"
      using recorded_ring [OF Suc.prems(1)] Suc.prems(2) by simp
    have "slot_ok lp L (sn_mem_tbl_size s) (saved_max s) ?mid ?t"
      using t(2) tid(1) Suc.prems(4) mid(2) by (auto simp: slot_ok_simps good_table_def)
    then have "ring lp L False (sn_mem_tbl_size s) ((sn_mem_table s)[?mid := ?t]) (saved_max s) (sn_max_idx_table_id s)"
      using ring_load [OF r mid(1)] Suc.prems(2) by simp
    then have ok: "recorded lp L False ?s" using Suc.prems(1)
      by (simp add: recorded_def opened_def fresh_def retained_def storage_def meta_saved_def stored_def file_slots_def polar_logindex_check_state_def)
    have "put_mem_table s ?mid ?t = Inr ?s" using mid(1) recorded_length [OF Suc.prems(1)] by (simp add: put_mem_ok)
    then have "(table, s') = (t, ?s) \<or> load_tables n lp ?s start min_tid (tid_pred tid) t = Inr (table, s')"
      using Suc.prems(6) True t(1) by (auto simp: Let_def split: if_splits)
    moreover have "kept s ?s" by (simp add: kept_def)
    moreover have "tid_pred tid \<le> saved_max ?s" using tid(1) Suc.prems(4) by (simp add: tid_pred_def)
    ultimately show ?thesis using Suc.IH [OF ok] Suc.prems(2,3,5) ok kept_trans by fastforce
  qed
qed simp

section \<open>Restart\<close>

text \<open>
  What is left when the processes of \<open>s\<close> are gone between two operations: the files, and shared memory of
  some size. There is no I/O error while the snapshot starts again.
\<close>

definition crashed :: "log_index_snapshot \<Rightarrow> log_index_snapshot \<Rightarrow> bool" where
  "crashed s s0 \<longleftrightarrow> sn_files s0 = sn_files s \<and> sn_blooms s0 = sn_blooms s \<and> sn_meta_file s0 = sn_meta_file s
     \<and> sn_fault s0 = None \<and> 2 \<le> sn_mem_tbl_size s0 \<and> sn_state s0 = 0"

definition base_state :: "log_index_meta \<Rightarrow> log_index_snapshot \<Rightarrow> log_index_snapshot" where
  "base_state meta s0 = s0\<lparr>sn_state := POLAR_LOGINDEX_STATE_WRITABLE, sn_meta := meta, sn_promoted_info := logindex_snapshot_init_promoted_info,
     sn_max_idx_table_id := lm_max_idx_table_id meta, sn_active_table := lm_max_idx_table_id meta mod sn_mem_tbl_size s0,
     sn_max_lsn := lm_max_lsn meta, sn_mem_table := replicate (sn_mem_tbl_size s0) mem_table_zero\<rparr>"

lemma log_sorted_saved: "log_sorted L \<Longrightarrow> log_sorted (saved_log D L)"
  by (auto simp: log_sorted_def saved_log_def)

lemma base_recorded:
  assumes ok: "recorded lp L act s" and c: "crashed s s0"
  shows "recorded lp (saved_log (saved_max s) L) False (base_state (sn_meta s) s0)"
proof -
  let ?L = "saved_log (saved_max s) L" and ?s = "base_state (sn_meta s) s0"
  have "ring lp ?L False (sn_mem_tbl_size ?s) (sn_mem_table ?s) (saved_max ?s) (sn_max_idx_table_id ?s)"
    using ring_zero c by (simp add: base_state_def crashed_def)
  moreover have "storage lp ?L ?s" using recorded_storage [OF ok] c
    by (simp add: storage_def base_state_def crashed_def meta_saved_def stored_def file_slots_def saved_log_def)
  moreover have "log_sorted ?L" using ok log_sorted_saved by (auto simp: recorded_def opened_def)
  moreover have "filled ?L False (sn_max_idx_table_id ?s)" using recorded_saved_filled [OF ok]
    by (simp add: filled_def base_state_def saved_log_def)
  moreover have "meta_bounds ?L (sn_meta ?s)" using ok meta_bounds_cong [of "sn_meta s" ?L L]
    by (simp add: recorded_def opened_def base_state_def saved_log_def)
  ultimately show ?thesis
    by (simp add: recorded_def opened_def fresh_def retained_def base_state_def logindex_snapshot_init_promoted_info_def
        polar_logindex_check_state_def POLAR_LOGINDEX_STATE_WRITABLE_def)
qed

text \<open>The table that is opened at the end of loading has no prefix yet.\<close>

lemma open_first:
  assumes ok: "recorded lp L False s" and M: "sn_max_idx_table_id s = saved_max s"
    and w: "log_index_wait_active r other lp s (saved_max s mod sn_mem_tbl_size s) 0 = Inr s'"
  shows "recorded lp L True s'" "sn_max_idx_table_id s' = Suc (saved_max s)" "sn_meta s' = sn_meta s" "sn_state s' = sn_state s"
    "sn_active_table s' = sn_active_table s" "sn_mem_tbl_size s' = sn_mem_tbl_size s"
proof -
  let ?mid = "saved_max s mod sn_mem_tbl_size s"
  have mid: "?mid < sn_mem_tbl_size s" "?mid < length (sn_mem_table s)" using ring_slot_less [OF recorded_ring [OF ok]] recorded_length [OF ok] by simp_all
  have ni: "mt_state (sn_mem_table s ! ?mid) \<noteq> STATE_INACTIVE" using ring_unsaved(1,2) [OF recorded_ring [OF ok] mid(1)] M by auto
  note W = wait_round_saved [OF mid(2,1) _ ok ni]
  obtain r' where "r = Suc r'" using w by (cases r) (auto simp: log_index_wait_active.simps)
  then have s': "s' = s\<lparr>sn_max_idx_table_id := Suc (saved_max s), sn_mem_table := (sn_mem_table s)[?mid := new_table (Suc (saved_max s)) 0]\<rparr>"
    using w W(1) ni M by (simp add: log_index_wait_active.simps)
  have "opened_at lp L s ?mid 0 s'" using new_active_opened [OF ok _ W(2)] M ni s' by simp
  moreover have "fresh L True s'" using mid(2) M unfolding s'
    by (simp add: fresh_def LOG_INDEX_MEM_TBL_IS_NEW_def new_table_def LOG_INDEX_PREFIX_LSN_def)
  ultimately show "recorded lp L True s'" by (simp add: opened_at_def recorded_def)
  show "sn_max_idx_table_id s' = Suc (saved_max s)" "sn_meta s' = sn_meta s" "sn_state s' = sn_state s"
    "sn_active_table s' = sn_active_table s" "sn_mem_tbl_size s' = sn_mem_tbl_size s" by (simp_all add: s')
qed

lemma recorded_initialized:
  "recorded lp L act s \<Longrightarrow> sn_state s = POLAR_LOGINDEX_STATE_WRITABLE \<Longrightarrow> recorded lp L act (s\<lparr>sn_state := sn_state s OR POLAR_LOGINDEX_STATE_INITIALIZED\<rparr>)"
  by (simp add: recorded_def opened_def fresh_def retained_def storage_def meta_saved_def stored_def file_slots_def
      polar_logindex_check_state_def POLAR_LOGINDEX_STATE_WRITABLE_def POLAR_LOGINDEX_STATE_INITIALIZED_def)

lemma load_Inr:
  assumes ok: "recorded lp L False s" and M: "sn_max_idx_table_id s = saved_max s" "sn_active_table s = saved_max s mod sn_mem_tbl_size s"
    and st: "sn_state s = POLAR_LOGINDEX_STATE_WRITABLE" and nf: "sn_fault s = None"
    and l: "polar_load_logindex_snapshot_from_storage r other lp buf s ckpt = Inr s'"
  shows "recorded lp L (0 < saved_max s) s' \<and> at_rest (0 < saved_max s) s' \<and> sn_meta s' = sn_meta s \<and> sn_state s' = sn_state s
    \<and> sn_max_idx_table_id s' = (if saved_max s = 0 then 0 else Suc (saved_max s)) \<and> sn_mem_tbl_size s' = sn_mem_tbl_size s"
proof -
  let ?D = "saved_max s" and ?g = "lm_min_segment_info (sn_meta s)"
  have gm: "log_index_get_meta lp s = (True, sn_meta s)" "s\<lparr>sn_meta := sn_meta s\<rparr> = s"
    using get_meta_saved [of lp s s] recorded_storage [OF ok] nf by (simp_all add: storage_def)
  have ni: "\<not> polar_logindex_check_state s POLAR_LOGINDEX_STATE_INITIALIZED"
    using st by (simp add: polar_logindex_check_state_def POLAR_LOGINDEX_STATE_WRITABLE_def POLAR_LOGINDEX_STATE_INITIALIZED_def)
  show ?thesis
  proof (cases "?D = 0")
    case True
    then have "s' = s" using l gm by (simp add: polar_load_logindex_snapshot_from_storage_def Let_def)
    then show ?thesis using True ok M by (simp add: at_rest_def)
  next
    case False
    let ?mt = "if ?D > sn_mem_tbl_size s then max (?D - sn_mem_tbl_size s + 1) (fs_min_idx_table_id ?g) else fs_min_idx_table_id ?g"
    have seg: "fs_min_idx_table_id ?g = 64 * min_segno s + 1" "min_segno s \<le> segno ?D"
      using recorded_storage [OF ok] False by (simp_all add: storage_def min_seg_ok_def)
    then have mt: "64 * min_segno s + 1 \<le> ?mt" "?mt \<le> ?D" "?mt \<noteq> 0"
      using False ringD(1) [OF recorded_ring [OF ok]] by (auto simp: seg_slot less_eq_div_iff_mult_less_eq)
    have range: "load_range r other lp s = Inr (?D, ?mt, s)" using ni mt(3) by (simp add: load_range_def Let_def)
    have l': "rbind (load_tables (Suc (Suc ?D)) lp s ckpt ?mt ?D buf) (\<lambda>(table, s).
                    rbind (LOG_INDEX_MEM_TBL s (mid_of_tid s ?D)) (\<lambda>old_active.
                    let s = s\<lparr>sn_max_idx_table_id := ?D, sn_max_lsn := td_max_lsn (mt_data old_active),
                              sn_active_table := ?D mod sn_mem_tbl_size s\<rparr>
                    in log_index_wait_active r other lp s (sn_active_table s) InvalidXLogRecPtr)) = Inr s'"
      using l gm ni False range mt(2)
      by (simp add: polar_load_logindex_snapshot_from_storage_def Let_def rbind_Inr_iff del: load_tables.simps) 
    then obtain table s1 where s1: "load_tables (Suc (Suc ?D)) lp s ckpt ?mt ?D buf = Inr (table, s1)"
      "\<exists>x. log_index_wait_active r other lp (s1\<lparr>sn_max_idx_table_id := ?D, sn_max_lsn := x, sn_active_table := ?D mod sn_mem_tbl_size s1\<rparr>)
        (?D mod sn_mem_tbl_size s1) 0 = Inr s'"
      by (auto simp: rbind_Inr_iff Let_def simp del: load_tables.simps)
    have L1: "recorded lp L False s1" "kept s s1" "sn_meta s1 = sn_meta s" using load_tables_Inr [OF ok M(1) nf le_refl mt(1) s1(1)] by simp_all
    have eq: "s1\<lparr>sn_max_idx_table_id := ?D, sn_max_lsn := x, sn_active_table := ?D mod sn_mem_tbl_size s1\<rparr> = s1\<lparr>sn_max_lsn := x\<rparr>" for x
      using L1(2) M by (cases s1) (simp add: kept_def)
    obtain x where w: "log_index_wait_active r other lp (s1\<lparr>sn_max_lsn := x\<rparr>) (saved_max (s1\<lparr>sn_max_lsn := x\<rparr>) mod sn_mem_tbl_size (s1\<lparr>sn_max_lsn := x\<rparr>)) 0 = Inr s'"
      using s1(2) L1(3) unfolding eq by auto
    have "recorded lp L False (s1\<lparr>sn_max_lsn := x\<rparr>)" "sn_max_idx_table_id (s1\<lparr>sn_max_lsn := x\<rparr>) = saved_max (s1\<lparr>sn_max_lsn := x\<rparr>)"
      using L1 M by (simp_all add: kept_def)
    note O = open_first [OF this w]
    then show ?thesis using O L1 False M by (simp add: at_rest_def kept_def)
  qed
qed

lemma restart_Inr:
  assumes ok: "recorded lp L act s" and c: "crashed s s0"
    and i: "polar_logindex_snapshot_init r other lp buf s0 ckpt False = Inr (x, s')"
  shows "recorded lp (saved_log (saved_max s) L) (0 < saved_max s) s'" "at_rest (0 < saved_max s) s'" "sn_meta s' = sn_meta s"
    "sn_max_idx_table_id s' = (if saved_max s = 0 then 0 else Suc (saved_max s))"
    "\<not> polar_logindex_check_state s' POLAR_LOGINDEX_STATE_ADDING"
proof -
  let ?b = "base_state (sn_meta s) s0" and ?L = "saved_log (saved_max s) L"
  have gm: "log_index_get_meta lp (s0\<lparr>sn_state := y\<rparr>) = (True, sn_meta s)" for y
    using get_meta_saved [of lp s "s0\<lparr>sn_state := y\<rparr>"] recorded_storage [OF ok] c by (simp add: storage_def crashed_def)
  obtain s1 where s1: "polar_load_logindex_snapshot_from_storage r other lp buf ?b ckpt = Inr s1"
    "s' = s1\<lparr>sn_state := sn_state s1 OR POLAR_LOGINDEX_STATE_INITIALIZED\<rparr>"
    using i gm c by (auto simp: polar_logindex_snapshot_init_def polar_logindex_snapshot_base_init_def Let_def rbind_Inr_iff base_state_def crashed_def)
  have b: "sn_meta ?b = sn_meta s" "sn_max_idx_table_id ?b = saved_max ?b" "sn_active_table ?b = saved_max ?b mod sn_mem_tbl_size ?b"
    "sn_state ?b = POLAR_LOGINDEX_STATE_WRITABLE" "sn_fault ?b = None" using c by (simp_all add: base_state_def crashed_def)
  note L = load_Inr [OF base_recorded [OF ok c] b(2-5) s1(1)]
  show "recorded lp ?L (0 < saved_max s) s'" using recorded_initialized L b s1(2) by simp
  show "at_rest (0 < saved_max s) s'" "sn_meta s' = sn_meta s"
    "sn_max_idx_table_id s' = (if saved_max s = 0 then 0 else Suc (saved_max s))" using L b s1(2) by (simp_all add: at_rest_def)
  show "\<not> polar_logindex_check_state s' POLAR_LOGINDEX_STATE_ADDING" using L b s1(2)
    by (simp add: polar_logindex_check_state_def POLAR_LOGINDEX_STATE_WRITABLE_def POLAR_LOGINDEX_STATE_INITIALIZED_def POLAR_LOGINDEX_STATE_ADDING_def)
qed

end
