(* ===== verification/Logindex_Run.thy ===== *)
theory Logindex_Run
  imports Logindex_Restart
begin

text \<open>
  The runs of a logindex snapshot: from an empty storage, with LSNs added in their order, with the
  background writer, readers, truncations and I/O errors at any time, and with crashes and
  restarts. The records of each table are part of the run, and every step keeps them.
\<close>

section \<open>Adding LSNs\<close>

lemma state_adding: "polar_logindex_check_state (s\<lparr>sn_state := sn_state s OR POLAR_LOGINDEX_STATE_ADDING\<rparr>) POLAR_LOGINDEX_STATE_ADDING"
proof -
  have "(x OR 2) AND 2 = (2 :: uint32)" for x by (simp add: bit.conj_disj_distrib2)
  then show ?thesis by (simp add: polar_logindex_check_state_def POLAR_LOGINDEX_STATE_ADDING_def)
qed

lemma recorded_adding: "recorded lp L act s \<Longrightarrow> recorded lp L act (s\<lparr>sn_state := sn_state s OR POLAR_LOGINDEX_STATE_ADDING\<rparr>)"
proof -
  have "(x OR 2) AND 4 = (x AND 4 :: uint32)" for x by (simp add: bit.conj_disj_distrib2)
  moreover assume "recorded lp L act s"
  ultimately show ?thesis
    by (simp add: recorded_def opened_def fresh_def retained_def storage_def meta_saved_def stored_def file_slots_def
        polar_logindex_check_state_def POLAR_LOGINDEX_STATE_WRITABLE_def POLAR_LOGINDEX_STATE_ADDING_def)
qed

abbreviation adding :: "log_index_snapshot \<Rightarrow> bool" where
  "adding s \<equiv> polar_logindex_check_state s POLAR_LOGINDEX_STATE_ADDING"

abbreviation set_adding :: "log_index_snapshot \<Rightarrow> log_index_snapshot" where
  "set_adding s \<equiv> s\<lparr>sn_state := sn_state s OR POLAR_LOGINDEX_STATE_ADDING\<rparr>"

text \<open>Before the first LSN is added, all records are in saved tables.\<close>

lemma above_saved:
  assumes "recorded lp L act s" "\<And>tid. saved_max s < tid \<Longrightarrow> L tid = []" "lm_max_lsn (sn_meta s) \<le> li_lsn a"
  shows "above L a"
  unfolding above_def
proof (intro allI impI ballI)
  fix i b assume i: "0 < i" "b \<in> set (L i)"
  then have "i \<le> saved_max s" using assms(2) [of i] by (cases "i \<le> saved_max s") auto
  then have "li_lsn b \<le> lm_max_lsn (sn_meta s)" using assms(1) i unfolding recorded_def opened_def meta_bounds_def by blast
  then show "li_lsn b \<le> li_lsn a" using assms(3) by simp
qed

lemma add_lsn_cases:
  assumes ok: "recorded lp L act s" "at_rest act s" and un: "\<not> adding s \<longrightarrow> (\<forall>tid. saved_max s < tid \<longrightarrow> L tid = [])"
    and ab: "adding s \<longrightarrow> above L a" and a: "a = \<lparr>li_tag = tag, li_lsn = lsn, li_prev_lsn = prev\<rparr>"
    and p: "polar_logindex_add_lsn r other lp s tag prev lsn = Inr s'"
  obtains "\<not> adding s" "s' = s" "lsn < lm_start_lsn (sn_meta s) \<or> lsn < lm_max_lsn (sn_meta s)
      \<or> lsn = lm_max_lsn (sn_meta s) \<and> log_index_exists_in_saved_table s a = Inr True"
  | s1 where "s1 = s \<and> adding s \<or> s1 = set_adding s \<and> \<not> adding s" "recorded lp L act s1" "at_rest act s1" "above L a" "adding s1"
    "log_index_insert_lsn r other lp s1 a (lkey lp (li_tag a)) = Inr s'"
proof (cases "adding s")
  case True
  then show ?thesis using p ok ab a by (intro that(2) [of s]) (simp_all add: polar_logindex_add_lsn_def Let_def)
next
  case False
  show ?thesis
  proof (cases "s' = s \<and> (lsn < lm_start_lsn (sn_meta s) \<or> lsn < lm_max_lsn (sn_meta s)
      \<or> lsn = lm_max_lsn (sn_meta s) \<and> log_index_exists_in_saved_table s a = Inr True)")
    case True then show ?thesis using False that(1) by blast
  next
    case no: False
    have "lm_max_lsn (sn_meta s) \<le> lsn \<and> log_index_insert_lsn r other lp (set_adding s) a (lkey lp (li_tag a)) = Inr s'"
      using p False no a by (auto simp: polar_logindex_add_lsn_def Let_def rbind_Inr_iff split: if_splits)
    moreover have "above L a" using above_saved [OF ok(1)] un False calculation a by simp
    ultimately show ?thesis using ok False state_adding recorded_adding [OF ok(1)]
      by (intro that(2) [of "set_adding s"]) (simp_all add: at_rest_def)
  qed
qed

section \<open>The start from nothing\<close>

lemma start_Inr:
  assumes s0: "sn_meta_file s0 = None" "2 \<le> sn_mem_tbl_size s0" "sn_state s0 = 0"
    and i: "polar_logindex_snapshot_init r other lp buf s0 ckpt False = Inr (x, s1)" and st: "polar_logindex_set_start_lsn lp s1 start = Inr s"
  shows "recorded lp (\<lambda>_. []) False s" "at_rest False s" "sn_max_idx_table_id s = 0" "\<not> adding s" "sn_mem_tbl_size s = sn_mem_tbl_size s0"
    "sn_fault s = sn_fault s0" "lm_start_lsn (sn_meta s) = start" "lm_max_lsn (sn_meta s) = 0" "sn_dir s = sn_dir s0"
proof -
  have gm: "log_index_get_meta lp s = (False, meta_zero)" if "sn_meta_file s = None" for s using that by (simp add: log_index_get_meta_def)
  let ?b = "(base_state meta_zero s0)\<lparr>sn_meta_file := None, sn_files := (\<lambda>_. None), sn_blooms := (\<lambda>_. None),
     sn_state := POLAR_LOGINDEX_STATE_WRITABLE OR POLAR_LOGINDEX_STATE_INITIALIZED\<rparr>"
  have s1: "s1 = ?b" using i s0
    by (auto simp: polar_logindex_snapshot_init_def polar_logindex_snapshot_base_init_def polar_load_logindex_snapshot_from_storage_def
        polar_logindex_snapshot_remove_data_def Let_def gm base_state_def polar_logindex_check_state_def POLAR_LOGINDEX_STATE_WRITABLE_def)
  obtain m where m: "s = s1\<lparr>sn_meta := m, sn_meta_file := Some m\<rparr>" "lm_max_idx_table_id m = 0"
    "lm_min_segment_info m = file_segment_zero" "lm_max_lsn m = 0"
    "lm_magic m = LOG_INDEX_MAGIC" "lm_version m = LOG_INDEX_VERSION" "lm_crc m = lp_crc_meta lp (m\<lparr>lm_crc := 0\<rparr>)"
    "lm_start_lsn m = start"
    using write_meta_ok [OF st [unfolded polar_logindex_set_start_lsn_def]] unfolding s1 by (auto simp: base_state_def meta_zero_def)
  have "ring lp (saved_log 0 (\<lambda>_. [])) False (sn_mem_tbl_size s0) (replicate (sn_mem_tbl_size s0) mem_table_zero) 0 0"
    by (rule ring_zero [OF s0(2)])
  moreover have "saved_log 0 (\<lambda>_. []) = (\<lambda>_. [])" by (simp add: saved_log_def fun_eq_iff)
  ultimately show "recorded lp (\<lambda>_. []) False s" using m unfolding s1
    by (auto simp: recorded_def opened_def fresh_def retained_def storage_def meta_saved_def file_slots_def min_seg_ok_def base_state_def
        meta_zero_def log_sorted_def filled_def meta_bounds_def logindex_snapshot_init_promoted_info_def
        polar_logindex_check_state_def POLAR_LOGINDEX_STATE_WRITABLE_def POLAR_LOGINDEX_STATE_INITIALIZED_def)
  show "at_rest False s" "sn_max_idx_table_id s = 0" "\<not> adding s" "sn_mem_tbl_size s = sn_mem_tbl_size s0" "sn_fault s = sn_fault s0"
    "lm_start_lsn (sn_meta s) = start" "lm_max_lsn (sn_meta s) = 0" "sn_dir s = sn_dir s0"
    using m unfolding s1 by (simp_all add: at_rest_def base_state_def meta_zero_def polar_logindex_check_state_def
        POLAR_LOGINDEX_STATE_WRITABLE_def POLAR_LOGINDEX_STATE_INITIALIZED_def POLAR_LOGINDEX_STATE_ADDING_def)
qed

section \<open>Runs\<close>

text \<open>
  The states of a snapshot and the records in its tables: \<open>H ! i\<close> are those of table number
  \<open>i + 1\<close>. An LSN that is skipped by \<open>polar_logindex_add_lsn\<close> leaves the state \<open>ADDING\<close> unset. A
  crash loses the tables that were not saved; the snapshot starts again with a new table.
\<close>

definition next_log :: "log_index_snapshot \<Rightarrow> log_index_snapshot \<Rightarrow> log_index_lsn list list \<Rightarrow> log_index_lsn \<Rightarrow> log_index_lsn list list" where
  "next_log s s' H a = (if \<not> adding s' then H else if sn_max_idx_table_id s' = sn_max_idx_table_id s then butlast H @ [last H @ [a]] else H @ [[a]])"

inductive logindex_run :: "logindex_params \<Rightarrow> log_index_snapshot \<Rightarrow> log_index_lsn list list \<Rightarrow> bool" for lp where
  start: "sn_meta_file s0 = None \<Longrightarrow> 2 \<le> sn_mem_tbl_size s0 \<Longrightarrow> sn_state s0 = 0
    \<Longrightarrow> polar_logindex_snapshot_init r other lp buf s0 ckpt False = Inr (x, s1) \<Longrightarrow> polar_logindex_set_start_lsn lp s1 start_lsn = Inr s
    \<Longrightarrow> logindex_run lp s []"
| add: "logindex_run lp s H \<Longrightarrow> env_ok lp other \<Longrightarrow> (adding s \<Longrightarrow> \<forall>b \<in> set (concat H). li_lsn b \<le> lsn)
    \<Longrightarrow> polar_logindex_add_lsn r other lp s tag prev lsn = Inr s' \<Longrightarrow> a = \<lparr>li_tag = tag, li_lsn = lsn, li_prev_lsn = prev\<rparr>
    \<Longrightarrow> logindex_run lp s' (next_log s s' H a)"
| background: "logindex_run lp s H \<Longrightarrow> bg_step lp s s' \<Longrightarrow> logindex_run lp s' H"
| restart: "logindex_run lp s H \<Longrightarrow> crashed s s0 \<Longrightarrow> polar_logindex_snapshot_init r other lp buf s0 ckpt False = Inr (x, s')
    \<Longrightarrow> logindex_run lp s' (take (saved_max s) H @ (if saved_max s = 0 then [] else [[]]))"

definition tables_of :: "log_index_lsn list list \<Rightarrow> nat \<Rightarrow> log_index_lsn list" where
  "tables_of H tid = (if 0 < tid \<and> tid \<le> length H then H ! (tid - 1) else [])"

definition run_inv :: "logindex_params \<Rightarrow> log_index_snapshot \<Rightarrow> log_index_lsn list list \<Rightarrow> bool" where
  "run_inv lp s H \<longleftrightarrow> recorded lp (tables_of H) (H \<noteq> []) s \<and> at_rest (H \<noteq> []) s \<and> length H = sn_max_idx_table_id s
     \<and> (\<not> adding s \<longrightarrow> (\<forall>tid. saved_max s < tid \<longrightarrow> tables_of H tid = []))"

lemma tables_of_Nil [simp]: "tables_of [] = (\<lambda>_. [])"
  by (simp add: tables_of_def fun_eq_iff)

lemma tables_of_set: "0 < tid \<Longrightarrow> b \<in> set (tables_of H tid) \<Longrightarrow> b \<in> set (concat H)"
  by (auto simp: tables_of_def split: if_splits intro: nth_mem)

lemma above_log: "\<forall>b \<in> set (concat H). li_lsn b \<le> li_lsn a \<Longrightarrow> above (tables_of H) a"
  unfolding above_def using tables_of_set by blast

lemma tables_of_mem: "b \<in> set (concat H) \<Longrightarrow> \<exists>tid. 0 < tid \<and> tid \<le> length H \<and> b \<in> set (tables_of H tid)"
proof -
  assume "b \<in> set (concat H)"
  then obtain xs where xs: "xs \<in> set H" "b \<in> set xs" by auto
  then obtain i where "i < length H" "b \<in> set (H ! i)" by (metis in_set_conv_nth)
  then show ?thesis by (intro exI [of _ "Suc i"]) (simp add: tables_of_def)
qed

lemma tables_of_new: "tables_of (H @ [[a]]) = (tables_of H)(Suc (length H) := tables_of H (Suc (length H)) @ [a])"
  by (auto simp: tables_of_def fun_eq_iff nth_append)

lemma tables_of_last: "H \<noteq> [] \<Longrightarrow> tables_of (butlast H @ [last H @ [a]]) = (tables_of H)(length H := tables_of H (length H) @ [a])"
  by (auto simp: tables_of_def fun_eq_iff nth_append nth_butlast last_conv_nth)

lemma tables_of_take:
  assumes "D \<le> length H"
  shows "tables_of (take D H @ (if D = 0 then [] else [[]])) = saved_log D (tables_of H)"
  using assms by (auto simp: tables_of_def saved_log_def fun_eq_iff nth_append)

lemma run_inv_add:
  assumes inv: "run_inv lp s H" and env: "env_ok lp other" and ord: "adding s \<Longrightarrow> \<forall>b \<in> set (concat H). li_lsn b \<le> lsn"
    and p: "polar_logindex_add_lsn r other lp s tag prev lsn = Inr s'" and a: "a = \<lparr>li_tag = tag, li_lsn = lsn, li_prev_lsn = prev\<rparr>"
    and H': "H' = next_log s s' H a"
  shows "run_inv lp s' H'"
proof -
  have ok: "recorded lp (tables_of H) (H \<noteq> []) s" "at_rest (H \<noteq> []) s" "length H = sn_max_idx_table_id s"
    and un: "\<not> adding s \<longrightarrow> (\<forall>tid. saved_max s < tid \<longrightarrow> tables_of H tid = [])"
    using inv by (auto simp: run_inv_def)
  have "above (tables_of H) a" if "adding s" using above_log [of H a] ord [OF that] unfolding a by (simp del: set_concat)
  then have ab: "adding s \<longrightarrow> above (tables_of H) a" by blast
  show ?thesis using ok(1,2) un ab a p
  proof (cases rule: add_lsn_cases)
    case 1
    then show ?thesis using inv H' by (simp add: next_log_def)
  next
    case (2 s1)
    have "inserted lp (tables_of H) (H \<noteq> []) s1 a s'" using insert_lsn_Inr [OF 2(2-4) env 2(6)] .
    then obtain M where M: "added_to lp (tables_of H) s1 a M s'" "H \<noteq> [] \<and> M = sn_max_idx_table_id s1 \<or> M = Suc (sn_max_idx_table_id s1)"
      unfolding inserted_def by blast
    have s1: "sn_max_idx_table_id s1 = length H" using 2(1) ok(3) by auto
    have "adding s'" using M(1) 2(5) by (simp add: added_to_def polar_logindex_check_state_def)
    moreover have "H \<noteq> [] \<Longrightarrow> 0 < sn_max_idx_table_id s" using ok(3) length_greater_0_conv [of H] by simp
    ultimately have "tables_of H' = (tables_of H)(M := tables_of H M @ [a])" "length H' = M" "H' \<noteq> []"
      using H' M s1 ok(3) tables_of_new [of H a] tables_of_last [of H a] by (auto simp: added_to_def next_log_def)
    then show ?thesis using M(1) \<open>adding s'\<close> by (simp add: run_inv_def added_to_def)
  qed
qed

lemma logindex_run_inv: "logindex_run lp s H \<Longrightarrow> run_inv lp s H"
proof (induction rule: logindex_run.induct)
  case (start s0 r other buf ckpt x s1 start_lsn s)
  then show ?case using start_Inr [OF start(1-5)] by (simp add: run_inv_def)
next
  case (add s H other lsn r tag prev s' a)
  then show ?case using run_inv_add by blast
next
  case (background s H s')
  then have "recorded lp (tables_of H) (H \<noteq> []) s'" "kept s s'" using bg_step_recorded by (auto simp: run_inv_def)
  then show ?case using background.IH by (auto simp: run_inv_def kept_def at_rest_def polar_logindex_check_state_def split: if_splits)
next
  case (restart s H s0 r other buf ckpt x s')
  have ok: "recorded lp (tables_of H) (H \<noteq> []) s" "saved_max s \<le> length H"
    using restart.IH ringD(3) [OF recorded_ring] by (auto simp: run_inv_def)
  note R = restart_Inr [OF ok(1) restart(2,3)]
  show ?case using R ok(2) tables_of_take [OF ok(2)] by (auto simp: run_inv_def saved_log_def)
qed

section \<open>A process that reads\<close>

text \<open>
  A run beside a process with its static cache of tables. At first the cache is empty or filled from
  another snapshot; then other processes go on and the process reads tables, in any order.
\<close>

inductive reader_run :: "logindex_params \<Rightarrow> log_index_snapshot \<Rightarrow> log_index_lsn list list \<Rightarrow> log_table_cache \<Rightarrow> bool" for lp where
  fresh: "logindex_run lp s H \<Longrightarrow> tc_name cache \<noteq> sn_dir s \<Longrightarrow> reader_run lp s H cache"
| add: "reader_run lp s H cache \<Longrightarrow> env_ok lp other \<Longrightarrow> (adding s \<Longrightarrow> \<forall>b \<in> set (concat H). li_lsn b \<le> lsn)
    \<Longrightarrow> polar_logindex_add_lsn r other lp s tag prev lsn = Inr s' \<Longrightarrow> a = \<lparr>li_tag = tag, li_lsn = lsn, li_prev_lsn = prev\<rparr>
    \<Longrightarrow> reader_run lp s' (next_log s s' H a) cache"
| background: "reader_run lp s H cache \<Longrightarrow> bg_step lp s s' \<Longrightarrow> reader_run lp s' H cache"
| read: "reader_run lp s H cache \<Longrightarrow> 0 < tid \<Longrightarrow> tid \<le> saved_max s \<Longrightarrow> min_segno s \<le> segno tid
    \<Longrightarrow> log_index_read_table s cache got1 got2 err tid = Inr (data, held, cache', s') \<Longrightarrow> reader_run lp s' H cache'"

lemma add_lsn_saved_kept:
  assumes inv: "run_inv lp s H" and env: "env_ok lp other" and ord: "adding s \<Longrightarrow> \<forall>b \<in> set (concat H). li_lsn b \<le> lsn"
    and p: "polar_logindex_add_lsn r other lp s tag prev lsn = Inr s'"
  shows "saved_kept s s'"
proof -
  define a where a: "a = \<lparr>li_tag = tag, li_lsn = lsn, li_prev_lsn = prev\<rparr>"
  have ok: "recorded lp (tables_of H) (H \<noteq> []) s" "at_rest (H \<noteq> []) s"
    and un: "\<not> adding s \<longrightarrow> (\<forall>tid. saved_max s < tid \<longrightarrow> tables_of H tid = [])" using inv by (auto simp: run_inv_def)
  have "above (tables_of H) a" if "adding s" using above_log [of H a] ord [OF that] unfolding a by (simp del: set_concat)
  then have ab: "adding s \<longrightarrow> above (tables_of H) a" by blast
  show ?thesis using ok un ab a p
  proof (cases rule: add_lsn_cases)
    case (2 s1)
    have "saved_kept s1 s'" using insert_lsn_Inr [OF 2(2-4) env 2(6)] unfolding inserted_def added_to_def by blast
    then show ?thesis using 2(1) by auto
  qed simp
qed

lemma reader_run_inv: "reader_run lp s H cache \<Longrightarrow> logindex_run lp s H \<and> cache_ok s cache"
proof (induction rule: reader_run.induct)
  case (fresh s H cache) then show ?case by (simp add: cache_other)
next
  case (add s H cache other lsn r tag prev s' a)
  have "logindex_run lp s' (next_log s s' H a)" using logindex_run.add [OF conjunct1 [OF add.IH] add(2-5)] .
  moreover have "saved_kept s s'" using add_lsn_saved_kept [OF logindex_run_inv [OF conjunct1 [OF add.IH]] add(2-4)] .
  ultimately show ?case using add.IH cache_kept by blast
next
  case (background s H cache s')
  have "kept s s'" using bg_step_recorded [OF background(2)] logindex_run_inv [OF conjunct1 [OF background.IH]] by (auto simp: run_inv_def)
  then show ?case using background logindex_run.background cache_kept unfolding kept_def by blast
next
  case (read s H cache tid got1 got2 err data held cache' s')
  have ok: "recorded lp (tables_of H) (H \<noteq> []) s" using logindex_run_inv read.IH by (simp add: run_inv_def)
  have "bg_step lp s s'" using bg_step.read [OF read(2-4) conjunct2 [OF read.IH] read(5)] .
  then show ?case using logindex_run.background read.IH read_table_recorded(6) [OF ok read(2-4) conjunct2 [OF read.IH] read(5)] by blast
qed

section \<open>Reading\<close>

text \<open>
  The table \<open>t\<close> holds the records \<open>A\<close>: it returns them in the order in which they were added, each
  with the LSN of the same page before it, and finds for each page its first and last LSN.
\<close>

definition holds :: "logindex_params \<Rightarrow> log_idx_table_data \<Rightarrow> log_index_lsn list \<Rightarrow> bool" where
  "holds lp t A \<longleftrightarrow> td_last_order t = length A
     \<and> (\<forall>k < length A. log_index_get_order_lsn t k = Inr (li_lsn (A ! k))
          \<and> log_index_order_lsn_info t k = Inr (Some ((A ! k)\<lparr>li_prev_lsn := prev_lsn A k\<rparr>)))
     \<and> (\<forall>tag. if page_log tag A = [] then log_index_tbl_find tag t (lkey lp tag) = Inr None
          else \<exists>i. log_index_tbl_find tag t (lkey lp tag) = Inr (Some i) \<and> ih_tag i = tag
            \<and> LOG_INDEX_SEG_MIN_LSN t (ih_suffix_lsn i) = Inr (li_lsn (hd (page_log tag A)))
            \<and> log_index_item_max_lsn t i = Inr (li_lsn (last (page_log tag A))))"

lemma tbl_log_holds: "tbl_log (lkey lp) t f A \<Longrightarrow> holds lp t A"
proof -
  assume log: "tbl_log (lkey lp) t f A"
  have "if page_log tag A = [] then log_index_tbl_find tag t (lkey lp tag) = Inr None
      else \<exists>i. log_index_tbl_find tag t (lkey lp tag) = Inr (Some i) \<and> ih_tag i = tag
        \<and> LOG_INDEX_SEG_MIN_LSN t (ih_suffix_lsn i) = Inr (li_lsn (hd (page_log tag A)))
        \<and> log_index_item_max_lsn t i = Inr (li_lsn (last (page_log tag A)))" for tag
    using tbl_find_log [OF log lkey_less, of tag] by auto
  then show "holds lp t A" unfolding holds_def using tbl_log_order(2) [OF log] order_lsn_log [OF log] order_info_log [OF log] by simp
qed

lemma good_table_holds: "good_table lp t tid A \<Longrightarrow> td_idx_table_id t = tid \<and> holds lp t A"
  using tbl_log_holds unfolding good_table_def by blast

lemma sorted_concat:
  assumes "\<And>i. i < length H \<Longrightarrow> sorted (map li_lsn (H ! i))"
    and "\<And>i j a b. i < j \<Longrightarrow> j < length H \<Longrightarrow> a \<in> set (H ! i) \<Longrightarrow> b \<in> set (H ! j) \<Longrightarrow> li_lsn a \<le> li_lsn b"
  shows "sorted (map li_lsn (concat H))"
  using assms
proof (induction H)
  case (Cons h H)
  have "sorted (map li_lsn h)" using Cons.prems(1) [of 0] by simp
  moreover have "sorted (map li_lsn (concat H))"
    using Cons.prems(1) [of "Suc i" for i] Cons.prems(2) [of "Suc i" "Suc j" for i j] by (intro Cons.IH) simp_all
  moreover have "li_lsn a \<le> li_lsn b" if ab: "a \<in> set h" "x \<in> set H" "b \<in> set x" for a b x
  proof -
    obtain j where "j < length H" "H ! j = x" using ab(2) by (metis in_set_conv_nth)
    then show ?thesis using Cons.prems(2) [of 0 "Suc j" a b] ab by simp
  qed
  ultimately show ?case by (auto simp: sorted_append)
qed simp

lemma run_sorted:
  assumes "run_inv lp s H"
  shows "sorted (map li_lsn (concat H))"
proof (rule sorted_concat)
  have L: "log_sorted (tables_of H)" using assms by (simp add: run_inv_def recorded_def opened_def)
  have at: "tables_of H (Suc i) = H ! i" if "i < length H" for i using that by (simp add: tables_of_def)
  show "sorted (map li_lsn (H ! i))" if "i < length H" for i using L at [OF that] unfolding log_sorted_def by metis
  show "li_lsn a \<le> li_lsn b" if ij: "i < j" "j < length H" and ab: "a \<in> set (H ! i)" "b \<in> set (H ! j)" for i j a b
  proof -
    have "a \<in> set (tables_of H (Suc i))" "b \<in> set (tables_of H (Suc j))" using at ij ab by simp_all
    then show ?thesis using L ij(1) unfolding log_sorted_def by blast
  qed
qed

section \<open>Adding succeeds\<close>

lemma exists_in_saved_loop_log:
  assumes log: "tbl_log key t f A" and "i \<le> length A"
  shows "\<exists>b. exists_in_saved_loop t info i = Inr b \<and> (b \<longrightarrow> (\<exists>c \<in> set A. li_lsn c = li_lsn info \<and> li_tag c = li_tag info))"
  using assms(2)
proof (induction i)
  case (Suc i)
  then have i: "i < length A" by simp
  have eq: "exists_in_saved_loop t info (Suc i) = (if li_lsn (A ! i) \<noteq> li_lsn info then Inr False
      else if li_tag (A ! i) = li_tag info then Inr True else exists_in_saved_loop t info i)"
    using order_lsn_log [OF log i] order_info_log [OF log i] by simp
  show ?case
  proof (cases "li_lsn (A ! i) = li_lsn info \<and> li_tag (A ! i) = li_tag info")
    case True
    have "exists_in_saved_loop t info (Suc i) = Inr True" unfolding eq using True by (simp del: exists_in_saved_loop.simps)
    moreover have "\<exists>c \<in> set A. li_lsn c = li_lsn info \<and> li_tag c = li_tag info" using True nth_mem [OF i] by blast
    ultimately show ?thesis by (intro exI [of _ True]) (simp only: simp_thms)
  next
    case False
    then have "exists_in_saved_loop t info (Suc i) = Inr False \<or> exists_in_saved_loop t info (Suc i) = exists_in_saved_loop t info i"
      unfolding eq by (simp del: exists_in_saved_loop.simps)
    then show ?thesis
    proof
      assume "exists_in_saved_loop t info (Suc i) = Inr False"
      then show ?thesis by (intro exI [of _ False]) (simp only: simp_thms)
    next
      assume step: "exists_in_saved_loop t info (Suc i) = exists_in_saved_loop t info i"
      show ?thesis unfolding step using Suc.IH i by (simp only: less_imp_le simp_thms)
    qed
  qed
qed auto

lemma exists_in_saved_Inr:
  assumes ok: "recorded lp L act s" "at_rest act s"
  shows "\<exists>b. log_index_exists_in_saved_table s info = Inr b
    \<and> (b \<longrightarrow> (\<exists>tid c. 0 < tid \<and> tid \<le> saved_max s \<and> c \<in> set (L tid) \<and> li_lsn c = li_lsn info \<and> li_tag c = li_tag info))"
proof -
  note R = recorded_ring [OF ok(1)]
  let ?m = "LOOP_PREV_VALUE (sn_active_table s) (sn_mem_tbl_size s)"
  have "sn_active_table s < sn_mem_tbl_size s"
    using rest_slot(2) [of lp L s] ok ringD(1) [OF R] by (cases act) (simp_all add: at_rest_def)
  then have m: "?m < sn_mem_tbl_size s" "?m < length (sn_mem_table s)" using recorded_length [OF ok(1)] by (auto simp: LOOP_PREV_VALUE_def)
  let ?t = "sn_mem_table s ! ?m"
  show ?thesis
  proof (cases "mt_state ?t = STATE_FLUSHED")
    case True
    let ?tid = "LOG_INDEX_MEM_TBL_TID ?t"
    obtain f where t: "0 < ?tid" "?tid \<le> saved_max s" "tbl_log (lkey lp) (mt_data ?t) f (L ?tid)"
      using ringD(6) [OF R m(1)] True by (auto simp: slot_ok_simps)
    obtain b where "exists_in_saved_loop (mt_data ?t) info (td_last_order (mt_data ?t)) = Inr b"
      "b \<longrightarrow> (\<exists>c \<in> set (L ?tid). li_lsn c = li_lsn info \<and> li_tag c = li_tag info)"
      using exists_in_saved_loop_log [OF t(3), of "td_last_order (mt_data ?t)" info] tbl_log_order(2) [OF t(3)] by auto
    then show ?thesis using True m(2) t(1,2) by (auto simp: log_index_exists_in_saved_table_def)
  qed (use m(2) in \<open>auto simp: log_index_exists_in_saved_table_def\<close>)
qed

lemma add_lsn_total:
  assumes ok: "recorded lp L act s" "at_rest act s" and un: "\<not> adding s \<longrightarrow> (\<forall>tid. saved_max s < tid \<longrightarrow> L tid = [])"
    and ab: "adding s \<longrightarrow> above L \<lparr>li_tag = tag, li_lsn = lsn, li_prev_lsn = prev\<rparr>" and env: "env_ok lp other"
    and nf: "sn_fault s = None" and fl: "\<And>t. lp_table_flushable lp t"
  shows "\<exists>s'. polar_logindex_add_lsn (Suc r) other lp s tag prev lsn = Inr s' \<and> sn_fault s' = None
    \<and> (adding s \<or> lm_start_lsn (sn_meta s) \<le> lsn \<and> lm_max_lsn (sn_meta s) < lsn \<longrightarrow>
         (\<exists>s1. (s1 = s \<or> s1 = set_adding s) \<and> adding s1 \<and> inserted lp L act s1 \<lparr>li_tag = tag, li_lsn = lsn, li_prev_lsn = prev\<rparr> s'))"
proof -
  let ?a = "\<lparr>li_tag = tag, li_lsn = lsn, li_prev_lsn = prev\<rparr>"
  have ins: "\<exists>s'. log_index_insert_lsn (Suc r) other lp s1 ?a (lkey lp tag) = Inr s' \<and> inserted lp L act s1 ?a s' \<and> sn_fault s' = None"
    if "recorded lp L act s1" "at_rest act s1" "above L ?a" "sn_fault s1 = None" for s1
    using insert_lsn_total [OF that(1-3) env that(4) fl, of r] by simp
  show ?thesis
  proof (cases "adding s")
    case True
    then show ?thesis using ins [OF ok _ nf] ab by (auto simp: polar_logindex_add_lsn_def Let_def)
  next
    case False
    obtain b where b: "log_index_exists_in_saved_table s ?a = Inr b" using exists_in_saved_Inr [OF ok] by blast
    have s1: "recorded lp L act (set_adding s)" "at_rest act (set_adding s)" "sn_fault (set_adding s) = None"
      using recorded_adding [OF ok(1)] ok(2) nf by (simp_all add: at_rest_def)
    have "above L ?a" if "lm_max_lsn (sn_meta s) \<le> lsn" using above_saved [OF ok(1), of ?a] un False that by simp
    then have "\<exists>s'. log_index_insert_lsn (Suc r) other lp (set_adding s) ?a (lkey lp tag) = Inr s' \<and> inserted lp L act (set_adding s) ?a s'
        \<and> sn_fault s' = None" if "\<not> lsn < lm_max_lsn (sn_meta s)" using ins [OF s1(1,2) _ s1(3)] that by (simp add: not_less)
    then show ?thesis using False b nf state_adding [of s] by (auto simp: polar_logindex_add_lsn_def Let_def not_less)
  qed
qed

lemma tbl_log_prefix: "tbl_log key t f A \<Longrightarrow> b \<in> set A \<Longrightarrow> LOG_INDEX_SAME_TABLE_LSN_PREFIX t (li_lsn b)"
  unfolding tbl_log_def using contentD(3) by blast

text \<open>A run can be continued with the next LSN, in the last table or in a new one.\<close>

lemma run_add_ex:
  assumes run: "logindex_run lp s H" and nf: "sn_fault s = None" and fl: "\<And>t. lp_table_flushable lp t"
    and ord: "\<forall>b \<in> set (concat H). li_lsn b \<le> li_lsn a"
    and go: "adding s \<or> lm_start_lsn (sn_meta s) \<le> li_lsn a \<and> lm_max_lsn (sn_meta s) < li_lsn a"
  shows "\<exists>s' H'. logindex_run lp s' H' \<and> sn_fault s' = None \<and> adding s' \<and> (H' = butlast H @ [last H @ [a]] \<and> H \<noteq> [] \<or> H' = H @ [[a]])
    \<and> (H \<noteq> [] \<and> (\<exists>b \<in> set (last H). drop_bit 32 (li_lsn b) \<noteq> drop_bit 32 (li_lsn a)) \<longrightarrow> H' = H @ [[a]])
    \<and> saved_kept s s'"
proof -
  have inv: "run_inv lp s H" using logindex_run_inv [OF run] .
  have ok: "recorded lp (tables_of H) (H \<noteq> []) s" "at_rest (H \<noteq> []) s" "length H = sn_max_idx_table_id s"
    "\<not> adding s \<longrightarrow> (\<forall>tid. saved_max s < tid \<longrightarrow> tables_of H tid = [])" using inv by (simp_all add: run_inv_def)
  have env: "env_ok lp (\<lambda>_ s. s)" by (simp add: env_ok_def)
  have a: "\<lparr>li_tag = li_tag a, li_lsn = li_lsn a, li_prev_lsn = li_prev_lsn a\<rparr> = a" by simp
  have "above (tables_of H) a" using above_log ord by blast
  then obtain s' s1 where s': "polar_logindex_add_lsn (Suc 0) (\<lambda>_ s. s) lp s (li_tag a) (li_prev_lsn a) (li_lsn a) = Inr s'" "sn_fault s' = None"
    "s1 = s \<or> s1 = set_adding s" "adding s1" "inserted lp (tables_of H) (H \<noteq> []) s1 a s'"
    using add_lsn_total [OF ok(1,2,4) _ env nf fl, of "li_tag a" "li_lsn a" "li_prev_lsn a" 0] go unfolding a by auto
  then obtain M where M: "added_to lp (tables_of H) s1 a M s'" "H \<noteq> [] \<and> M = sn_max_idx_table_id s1 \<or> M = Suc (sn_max_idx_table_id s1)"
    unfolding inserted_def by blast
  have ad: "adding s'" using M(1) s'(4) by (simp add: added_to_def polar_logindex_check_state_def)
  have max: "sn_max_idx_table_id s1 = sn_max_idx_table_id s" using s'(3) by auto
  let ?H = "next_log s s' H a"
  have "logindex_run lp s' ?H" using logindex_run.add [OF run env _ s'(1), of a] ord by simp
  moreover have "?H = butlast H @ [last H @ [a]] \<and> H \<noteq> [] \<or> ?H = H @ [[a]]" using ad M max by (auto simp: added_to_def next_log_def)
  moreover have "?H = H @ [[a]]" if b: "H \<noteq> []" "b \<in> set (last H)" "drop_bit 32 (li_lsn b) \<noteq> drop_bit 32 (li_lsn a)" for b
  proof -
    let ?t = "mt_data (sn_mem_table s ! sn_active_table s)"
    have last: "tables_of H (sn_max_idx_table_id s) = last H" using b(1) ok(3) [symmetric] by (simp add: tables_of_def last_conv_nth)
    have "LOG_INDEX_SAME_TABLE_LSN_PREFIX ?t (li_lsn b)"
      using rest_slot(6) [of lp "tables_of H" s] ok(1,2) b(1,2) last tbl_log_prefix by auto
    then have "\<not> LOG_INDEX_SAME_TABLE_LSN_PREFIX ?t (li_lsn a)" using b(3) by (simp add: LOG_INDEX_SAME_TABLE_LSN_PREFIX_def)
    moreover have "sn_active_table s1 = sn_active_table s" "sn_mem_table s1 = sn_mem_table s" using s'(3) by auto
    ultimately have "sn_max_idx_table_id s' \<noteq> sn_max_idx_table_id s" using s'(5) last b(2) max by (auto simp: inserted_def added_to_def)
    then show ?thesis using ad by (simp add: next_log_def)
  qed
  moreover have "saved_kept s s'" using add_lsn_saved_kept [OF inv env _ s'(1)] ord by blast
  ultimately show ?thesis using s'(2) ad by blast
qed

text \<open>A run can be continued with saving a table, when there is one to save.\<close>

lemma run_flush_ex:
  assumes run: "logindex_run lp s H" and nf: "sn_fault s = None" and fl: "\<And>t. lp_table_flushable lp t" and un: "Suc (saved_max s) < length H"
  shows "\<exists>s'. logindex_run lp s' H \<and> sn_fault s' = None \<and> saved_max s < saved_max s' \<and> saved_kept s s'"
proof -
  have ok: "recorded lp (tables_of H) (H \<noteq> []) s" "length H = sn_max_idx_table_id s"
    using logindex_run_inv [OF run] by (simp_all add: run_inv_def)
  note R = recorded_ring [OF ok(1)]
  let ?mid = "saved_max s mod sn_mem_tbl_size s"
  have mid: "?mid < sn_mem_tbl_size s" using ring_slot_less [OF R] .
  have t: "mt_state (sn_mem_table s ! ?mid) = STATE_INACTIVE" "LOG_INDEX_MEM_TBL_TID (sn_mem_table s ! ?mid) = Suc (saved_max s)"
    using ringD(8,10) [OF R, of "Suc (saved_max s)"] un ok(2) by simp_all
  obtain s' where w: "log_index_write_table lp s ?mid = Inr (True, s')" "sn_fault s' = None"
    using write_table_total [OF ok(1) nf mid disjI2 [OF t(1)] t(2)] by blast
  note W = write_table_recorded [OF ok(1) mid disjI2 [OF t(1)] w(1)]
  have st: "mt_state (sn_mem_table s' ! ?mid) = STATE_FLUSHED" using W(3) t(1) by simp
  have k: "sn_mem_tbl_size s' = sn_mem_tbl_size s" "sn_max_idx_table_id s' = sn_max_idx_table_id s" "saved_max s \<le> saved_max s'"
    using W(2) by (simp_all add: kept_def)
  have "saved_max s' \<noteq> saved_max s"
  proof
    assume "saved_max s' = saved_max s"
    then show False using ringD(10) [OF recorded_ring [OF W(1)], of "Suc (saved_max s)"] un ok(2) k st by (simp split: if_splits)
  qed
  moreover have "flush_table_round lp s False ?mid 0 = Inr (False, 1, s')"
    using w(1) t(1) st mid fl not_saved_before_promote [OF ok(1)] recorded_length [OF ok(1)] recorded_length [OF W(1)] k(1)
    by (simp add: flush_table_round_def)
  then have "logindex_run lp s' H" using logindex_run.background [OF run bg_step.flush] by blast
  moreover have "saved_kept s s'" using W(2) by (simp add: kept_def)
  ultimately show ?thesis using w(2) k(3) by (intro exI [of _ s']) simp
qed

section \<open>Restarting succeeds\<close>

lemma load_tables_total:
  assumes "length (sn_mem_table s) = sn_mem_tbl_size s" "0 < sn_mem_tbl_size s" "0 < min_tid" "tid < n"
  shows "\<exists>x. load_tables n lp s start min_tid tid buf = Inr x"
  using assms
proof (induction n arbitrary: s tid buf)
  case (Suc n)
  show ?case
  proof (cases "min_tid \<le> tid")
    case True
    let ?t = "case log_index_read_table_data lp s tid of Inl e \<Rightarrow> buf | Inr t \<Rightarrow> t"
    let ?m = "\<lparr>mt_free_head = LOG_INDEX_MEM_TBL_SEG_NUM, mt_state = STATE_FLUSHED, mt_data = ?t\<rparr>"
    have put: "put_mem_table s (mid_of_tid s tid) ?m = Inr (s\<lparr>sn_mem_table := (sn_mem_table s)[mid_of_tid s tid := ?m]\<rparr>)" (is "_ = Inr ?s")
      using Suc.prems(1,2) by (simp add: put_mem_ok mid_of_tid_def)
    have "\<exists>x. load_tables n lp ?s start min_tid (tid_pred tid) ?t = Inr x"
      using Suc.prems True by (intro Suc.IH) (auto simp: tid_pred_def)
    then show ?thesis using True put by (auto simp: Let_def)
  qed simp
qed simp

lemma load_total:
  assumes ok: "recorded lp L False s" and M: "sn_max_idx_table_id s = saved_max s"
    and st: "sn_state s = POLAR_LOGINDEX_STATE_WRITABLE" and nf: "sn_fault s = None"
  shows "\<exists>s'. polar_load_logindex_snapshot_from_storage (Suc r) other lp buf s ckpt = Inr s'"
proof -
  let ?D = "saved_max s" and ?g = "lm_min_segment_info (sn_meta s)"
  have gm: "log_index_get_meta lp s = (True, sn_meta s)" "s\<lparr>sn_meta := sn_meta s\<rparr> = s"
    using get_meta_saved [of lp s s] recorded_storage [OF ok] nf by (simp_all add: storage_def)
  have ni: "\<not> polar_logindex_check_state s POLAR_LOGINDEX_STATE_INITIALIZED"
    using st by (simp add: polar_logindex_check_state_def POLAR_LOGINDEX_STATE_WRITABLE_def POLAR_LOGINDEX_STATE_INITIALIZED_def)
  show ?thesis
  proof (cases "?D = 0")
    case True then show ?thesis using gm by (simp add: polar_load_logindex_snapshot_from_storage_def Let_def)
  next
    case False
    let ?mt = "if ?D > sn_mem_tbl_size s then max (?D - sn_mem_tbl_size s + 1) (fs_min_idx_table_id ?g) else fs_min_idx_table_id ?g"
    have mt: "64 * min_segno s + 1 \<le> ?mt" "?mt \<noteq> 0"
      using recorded_storage [OF ok] False by (auto simp: storage_def min_seg_ok_def)
    have range: "load_range (Suc r) other lp s = Inr (?D, ?mt, s)" using ni mt(2) by (simp add: load_range_def Let_def)
    have "0 < sn_mem_tbl_size s" "0 < ?mt" "?D < Suc (Suc ?D)" using ringD(1) [OF recorded_ring [OF ok]] mt(2) by linarith+
    from load_tables_total [OF recorded_length [OF ok] this]
    obtain table s1 where s1: "load_tables (Suc (Suc ?D)) lp s ckpt ?mt ?D buf = Inr (table, s1)" by fast
    have L1: "recorded lp L False s1" "kept s s1" "sn_meta s1 = sn_meta s" using load_tables_Inr [OF ok M nf le_refl mt(1) s1] by simp_all
    let ?s2 = "\<lambda>x. s1\<lparr>sn_max_idx_table_id := ?D, sn_max_lsn := x, sn_active_table := ?D mod sn_mem_tbl_size s1\<rparr>"
    have "\<exists>s'. log_index_wait_active (Suc r) other lp (?s2 x) (?D mod sn_mem_tbl_size s1) 0 = Inr s'" for x
    proof -
      have ok2: "recorded lp L False (?s2 x)"
      proof -
        have "?s2 x = s1\<lparr>sn_max_lsn := x, sn_active_table := ?D mod sn_mem_tbl_size s1\<rparr>" using L1(2) M by (cases s1) (simp add: kept_def)
        then show ?thesis using L1(1) by simp
      qed
      let ?mid = "?D mod sn_mem_tbl_size s1"
      have mid: "?mid < sn_mem_tbl_size (?s2 x)" "?mid < length (sn_mem_table (?s2 x))"
        using ring_slot_less [OF recorded_ring [OF L1(1)]] recorded_length [OF L1(1)] by simp_all
      have ni: "mt_state (sn_mem_table (?s2 x) ! ?mid) \<noteq> STATE_INACTIVE"
        using ring_unsaved(1,2) [OF recorded_ring [OF ok2] mid(1)] L1(3) by auto
      show ?thesis using wait_round_saved(1) [OF mid(2,1) _ ok2 ni] ni by (simp add: log_index_wait_active.simps)
    qed
    from this [of "td_max_lsn (mt_data (sn_mem_table s1 ! mid_of_tid s1 ?D))"]
    obtain s2 where "log_index_wait_active (Suc r) other lp (?s2 (td_max_lsn (mt_data (sn_mem_table s1 ! mid_of_tid s1 ?D)))) (?D mod sn_mem_tbl_size s1) 0 = Inr s2" ..
    moreover have "mid_of_tid s1 ?D < length (sn_mem_table s1)" using mid_of_tid_less [OF L1(1)] recorded_length [OF L1(1)] by simp
    ultimately show ?thesis using gm ni False range s1
      by (auto simp: polar_load_logindex_snapshot_from_storage_def Let_def simp del: load_tables.simps)
  qed
qed

lemma restart_total:
  assumes ok: "recorded lp L act s" and c: "crashed s s0"
  shows "\<exists>x s'. polar_logindex_snapshot_init (Suc r) other lp buf s0 ckpt False = Inr (x, s')"
proof -
  let ?b = "base_state (sn_meta s) s0"
  have gm: "log_index_get_meta lp (s0\<lparr>sn_state := y\<rparr>) = (True, sn_meta s)" for y
    using get_meta_saved [of lp s "s0\<lparr>sn_state := y\<rparr>"] recorded_storage [OF ok] c by (simp add: storage_def crashed_def)
  have b: "sn_max_idx_table_id ?b = saved_max ?b" "sn_state ?b = POLAR_LOGINDEX_STATE_WRITABLE" "sn_fault ?b = None"
    using c by (simp_all add: base_state_def crashed_def)
  obtain s1 where "polar_load_logindex_snapshot_from_storage (Suc r) other lp buf ?b ckpt = Inr s1"
    using load_total [OF base_recorded [OF ok c] b] by blast
  then show ?thesis using gm c
    by (auto simp: polar_logindex_snapshot_init_def polar_logindex_snapshot_base_init_def Let_def base_state_def crashed_def)
qed

end
