(* ===== verification/Logindex_Replay.thy ===== *)
theory Logindex_Replay
  imports Logindex_Run
begin

text \<open>
  Replay after a restart: the records of the WAL are added again from the LSN that the
  initialization returns, and those that are already in saved tables are skipped.
\<close>

text \<open>Adding the records \<open>w\<close> in their order, with the background steps in between.\<close>

inductive replay :: "logindex_params \<Rightarrow> log_index_snapshot \<Rightarrow> log_index_lsn list list \<Rightarrow> log_index_lsn list \<Rightarrow>
    log_index_snapshot \<Rightarrow> log_index_lsn list list \<Rightarrow> bool" for lp where
  finished: "replay lp s H [] s H"
| background: "bg_step lp s s1 \<Longrightarrow> replay lp s1 H w s' H' \<Longrightarrow> replay lp s H w s' H'"
| add: "env_ok lp other \<Longrightarrow> polar_logindex_add_lsn r other lp s (li_tag a) (li_prev_lsn a) (li_lsn a) = Inr s1
    \<Longrightarrow> replay lp s1 (next_log s s1 H a) w s' H' \<Longrightarrow> replay lp s H (a # w) s' H'"

text \<open>The records contain one of the same page and LSN.\<close>

definition indexed :: "log_index_lsn list list \<Rightarrow> log_index_lsn \<Rightarrow> bool" where
  "indexed H a \<longleftrightarrow> (\<exists>b \<in> set (concat H). li_tag b = li_tag a \<and> li_lsn b = li_lsn a)"

text \<open>
  The state while the records \<open>w\<close> are still to be replayed: as long as none was added, those
  below the last saved LSN are in saved tables.
\<close>

definition replaying :: "logindex_params \<Rightarrow> log_index_snapshot \<Rightarrow> log_index_lsn list list \<Rightarrow> log_index_lsn list \<Rightarrow> bool" where
  "replaying lp s H w \<longleftrightarrow> logindex_run lp s H \<and> sorted (map li_lsn w) \<and> (\<exists>b \<in> set (concat H). li_lsn b \<noteq> 0)
     \<and> (if adding s then \<forall>b \<in> set (concat H). \<forall>a \<in> set w. li_lsn b \<le> li_lsn a
        else \<forall>a \<in> set w. (\<exists>b \<in> set (concat H). li_lsn a < li_lsn b) \<longrightarrow> indexed H a)"

lemma indexed_mem: "a \<in> set (concat H) \<Longrightarrow> indexed H a"
  unfolding indexed_def by blast

lemma replaying_background:
  assumes "replaying lp s H w" "bg_step lp s s'"
  shows "replaying lp s' H w"
proof -
  have "logindex_run lp s' H" using assms logindex_run.background unfolding replaying_def by blast
  moreover have "recorded lp (tables_of H) (H \<noteq> []) s" using assms(1) logindex_run_inv by (auto simp: replaying_def run_inv_def)
  then have "adding s' = adding s" using bg_step_recorded [OF assms(2)] by (auto simp: kept_def polar_logindex_check_state_def)
  ultimately show ?thesis using assms(1) unfolding replaying_def by simp
qed

text \<open>Before the first record is added, the start LSN and the largest LSN of the meta data are that of a saved record.\<close>

lemma saved_lsn:
  assumes inv: "run_inv lp s H" and un: "\<not> adding s" and nz: "\<exists>b \<in> set (concat H). li_lsn b \<noteq> 0"
  shows "lm_start_lsn (sn_meta s) = lm_max_lsn (sn_meta s)" "\<exists>b \<in> set (concat H). li_lsn b = lm_max_lsn (sn_meta s)"
proof -
  have ok: "recorded lp (tables_of H) (H \<noteq> []) s" "\<forall>tid. saved_max s < tid \<longrightarrow> tables_of H tid = []" using inv un by (simp_all add: run_inv_def)
  have mb: "meta_bounds (tables_of H) (sn_meta s)" using ok(1) by (simp add: recorded_def opened_def)
  obtain b tid where b: "li_lsn b \<noteq> 0" "0 < tid" "b \<in> set (tables_of H tid)" using nz tables_of_mem by blast
  then have "tid \<le> saved_max s" using ok(2) by (metis empty_iff empty_set not_le)
  then have "li_lsn b \<le> lm_max_lsn (sn_meta s)" using mb b unfolding meta_bounds_def by blast
  then have z: "lm_max_lsn (sn_meta s) \<noteq> 0" using b(1) by auto
  show "lm_start_lsn (sn_meta s) = lm_max_lsn (sn_meta s)"
    using z recorded_storage [OF ok(1)] by (simp add: storage_def meta_saved_def)
  show "\<exists>b \<in> set (concat H). li_lsn b = lm_max_lsn (sn_meta s)"
    using mb z tables_of_set unfolding meta_bounds_def by blast
qed

lemma concat_next_log:
  assumes "adding s'" "length H = sn_max_idx_table_id s" "sn_max_idx_table_id s' = sn_max_idx_table_id s \<longrightarrow> H \<noteq> []"
  shows "concat (next_log s s' H a) = concat H @ [a]"
proof -
  have "concat (butlast H @ [last H @ [a]]) = concat H @ [a]" if "H \<noteq> []"
    using that append_butlast_last_id [OF that] by (metis append.assoc append_Nil2 concat.simps(1,2) concat_append)
  then show ?thesis using assms by (auto simp: next_log_def)
qed

lemma replaying_add:
  assumes rp: "replaying lp s H (a # w)" and env: "env_ok lp other"
    and p: "polar_logindex_add_lsn r other lp s (li_tag a) (li_prev_lsn a) (li_lsn a) = Inr s'"
  shows "replaying lp s' (next_log s s' H a) w \<and> indexed (next_log s s' H a) a \<and> set (concat H) \<subseteq> set (concat (next_log s s' H a))"
proof -
  have run: "logindex_run lp s H" and nz: "\<exists>b \<in> set (concat H). li_lsn b \<noteq> 0" using rp by (simp_all add: replaying_def)
  have inv: "run_inv lp s H" using logindex_run_inv [OF run] .
  have ok: "recorded lp (tables_of H) (H \<noteq> []) s" "at_rest (H \<noteq> []) s" "length H = sn_max_idx_table_id s"
    "\<not> adding s \<longrightarrow> (\<forall>tid. saved_max s < tid \<longrightarrow> tables_of H tid = [])" using inv by (simp_all add: run_inv_def)
  have ord: "\<forall>b \<in> set (concat H). li_lsn b \<le> li_lsn a" if "adding s" using rp that by (simp add: replaying_def)
  have ab: "adding s \<longrightarrow> above (tables_of H) a" using above_log ord by blast
  have eq: "a = \<lparr>li_tag = li_tag a, li_lsn = li_lsn a, li_prev_lsn = li_prev_lsn a\<rparr>" by simp
  have run': "logindex_run lp s' (next_log s s' H a)" using logindex_run.add [OF run env _ p eq] ord by blast
  show ?thesis using ok(1,2,4) ab eq p
  proof (cases rule: add_lsn_cases)
    case 1
    have "indexed H a"
    proof (cases "li_lsn a < lm_max_lsn (sn_meta s)")
      case True
      then have "\<exists>b \<in> set (concat H). li_lsn a < li_lsn b" using saved_lsn(2) [OF inv 1(1) nz] by metis
      then show ?thesis using rp 1(1) by (auto simp: replaying_def)
    next
      case False
      then have "log_index_exists_in_saved_table s a = Inr True" using 1(3) saved_lsn(1) [OF inv 1(1) nz] by auto
      then obtain tid c where "0 < tid" "c \<in> set (tables_of H tid)" "li_lsn c = li_lsn a" "li_tag c = li_tag a"
        using exists_in_saved_Inr [OF ok(1,2), of a] by auto
      then show ?thesis unfolding indexed_def using tables_of_set by blast
    qed
    moreover have "next_log s s' H a = H" using 1(1,2) by (simp add: next_log_def)
    ultimately show ?thesis using run' rp 1(1,2) by (simp add: replaying_def)
  next
    case (2 s1)
    have "inserted lp (tables_of H) (H \<noteq> []) s1 a s'" using insert_lsn_Inr [OF 2(2-4) env 2(6)] .
    then obtain M where M: "added_to lp (tables_of H) s1 a M s'" "H \<noteq> [] \<and> M = sn_max_idx_table_id s1 \<or> M = Suc (sn_max_idx_table_id s1)"
      unfolding inserted_def by blast
    have "sn_max_idx_table_id s1 = sn_max_idx_table_id s" using 2(1) by auto
    moreover have ad: "adding s'" using M(1) 2(5) by (simp add: added_to_def polar_logindex_check_state_def)
    ultimately have cat: "concat (next_log s s' H a) = concat H @ [a]"
      using M ok(3) by (intro concat_next_log) (auto simp: added_to_def)
    have "li_lsn b \<le> li_lsn a" if "b \<in> set (concat H)" for b using 2(4) tables_of_mem [OF that] unfolding above_def by blast
    then show ?thesis using run' rp ad cat indexed_mem [of a "next_log s s' H a"] by (fastforce simp: replaying_def)
  qed
qed

lemma indexed_mono: "indexed H a \<Longrightarrow> set (concat H) \<subseteq> set (concat H') \<Longrightarrow> indexed H' a"
  unfolding indexed_def by blast

lemma replay_indexed:
  assumes "replay lp s H w s' H'" "replaying lp s H w"
  shows "logindex_run lp s' H' \<and> set (concat H) \<subseteq> set (concat H') \<and> (\<forall>a \<in> set w. indexed H' a)"
  using assms
proof (induction rule: replay.induct)
  case (finished s H) then show ?case by (simp add: replaying_def)
next
  case (background s s1 H w s' H')
  show ?case by (rule background.IH [OF replaying_background [OF background.prems background.hyps(1)]])
next
  case (add other r s a s1 H w s' H')
  note A = replaying_add [OF add.prems add.hyps(1,2)]
  have "logindex_run lp s' H' \<and> set (concat (next_log s s1 H a)) \<subseteq> set (concat H') \<and> (\<forall>a \<in> set w. indexed H' a)"
    by (rule add.IH) (use A in blast)
  then show ?case using A indexed_mono [of "next_log s s1 H a" a H'] by (simp del: set_concat) (blast intro: order_trans)
qed

lemma replay_ex:
  assumes "replaying lp s H w" and fl: "\<And>t. lp_table_flushable lp t"
  shows "\<exists>s' H'. replay lp s H w s' H'"
  using assms(1)
proof (induction w arbitrary: s H)
  case Nil then show ?case using replay.finished by blast
next
  case (Cons a w)
  let ?s = "s\<lparr>sn_fault := None\<rparr>"
  have rp: "replaying lp ?s H (a # w)" using replaying_background [OF Cons.prems bg_step.fault] .
  have inv: "run_inv lp ?s H" using rp logindex_run_inv by (simp add: replaying_def)
  have ok: "recorded lp (tables_of H) (H \<noteq> []) ?s" "at_rest (H \<noteq> []) ?s"
    "\<not> adding ?s \<longrightarrow> (\<forall>tid. saved_max ?s < tid \<longrightarrow> tables_of H tid = [])" using inv unfolding run_inv_def by blast+
  have "\<forall>b \<in> set (concat H). li_lsn b \<le> li_lsn a" if "adding ?s" using rp that by (simp add: replaying_def)
  moreover have eq: "\<lparr>li_tag = li_tag a, li_lsn = li_lsn a, li_prev_lsn = li_prev_lsn a\<rparr> = a" by simp
  ultimately have "adding ?s \<longrightarrow> above (tables_of H) a" using above_log by blast
  then have ab: "adding ?s \<longrightarrow> above (tables_of H) \<lparr>li_tag = li_tag a, li_lsn = li_lsn a, li_prev_lsn = li_prev_lsn a\<rparr>" unfolding eq .
  have env: "env_ok lp (\<lambda>_ s. s)" by (simp add: env_ok_def)
  have "sn_fault ?s = None" by simp
  from add_lsn_total [OF ok ab env this fl]
  obtain s1 where s1: "polar_logindex_add_lsn (Suc 0) (\<lambda>_ s. s) lp ?s (li_tag a) (li_prev_lsn a) (li_lsn a) = Inr s1" by blast
  have "replaying lp s1 (next_log ?s s1 H a) w" using replaying_add [OF rp env s1] by blast
  then obtain s' H' where "replay lp s1 (next_log ?s s1 H a) w s' H'" using Cons.IH by blast
  then show ?case using replay.background [OF bg_step.fault replay.add [OF env s1]] by blast
qed

section \<open>After a restart\<close>

lemma restart_lsn:
  assumes ok: "recorded lp L act s" and c: "crashed s s0" and i: "polar_logindex_snapshot_init r other lp buf s0 ckpt False = Inr (x, s1)"
    and nz: "lm_start_lsn (sn_meta s) \<noteq> 0"
  shows "x \<le> lm_start_lsn (sn_meta s)"
proof -
  have gm: "log_index_get_meta lp (s0\<lparr>sn_state := y\<rparr>) = (True, sn_meta s)" for y
    using get_meta_saved [of lp s "s0\<lparr>sn_state := y\<rparr>"] recorded_storage [OF ok] c by (simp add: storage_def crashed_def)
  show ?thesis using i gm nz
    by (auto simp: polar_logindex_snapshot_init_def polar_logindex_snapshot_base_init_def Let_def rbind_Inr_iff not_less split: if_splits)
qed

lemma run_saved_lsn:
  assumes inv: "run_inv lp s H" and D: "0 < saved_max s" and nz: "\<forall>b \<in> set (concat H). li_lsn b \<noteq> 0"
  shows "\<exists>b \<in> set (concat (take (saved_max s) H)). li_lsn b = lm_max_lsn (sn_meta s)" "lm_max_lsn (sn_meta s) \<noteq> 0"
    "lm_start_lsn (sn_meta s) = lm_max_lsn (sn_meta s)"
proof -
  have ok: "recorded lp (tables_of H) (H \<noteq> []) s" "length H = sn_max_idx_table_id s" using inv by (simp_all add: run_inv_def)
  have R: "saved_max s \<le> length H" "H \<noteq> [] \<Longrightarrow> saved_max s < length H" using ringD(3,5) [OF recorded_ring [OF ok(1)]] ok(2) by simp_all
  have mb: "meta_bounds (tables_of H) (sn_meta s)" and fi: "filled (tables_of H) (H \<noteq> []) (length H)" using ok by (simp_all add: recorded_def opened_def)
  have "tables_of H (saved_max s) \<noteq> []" using fi R D unfolding filled_def by blast
  then obtain b where b: "b \<in> set (tables_of H (saved_max s))" by (meson ex_in_conv set_empty)
  then have "li_lsn b \<noteq> 0" using nz tables_of_set D by blast
  moreover have "li_lsn b \<le> lm_max_lsn (sn_meta s)" using mb b D unfolding meta_bounds_def by blast
  ultimately show z: "lm_max_lsn (sn_meta s) \<noteq> 0" by auto
  then show "lm_start_lsn (sn_meta s) = lm_max_lsn (sn_meta s)" using recorded_storage [OF ok(1)] by (simp add: storage_def meta_saved_def)
  obtain tid c where c: "0 < tid" "tid \<le> saved_max s" "c \<in> set (tables_of H tid)" "li_lsn c = lm_max_lsn (sn_meta s)"
    using mb z unfolding meta_bounds_def by blast
  then have "c \<in> set (H ! (tid - 1))" "tid - 1 < length (take (saved_max s) H)" "take (saved_max s) H ! (tid - 1) = H ! (tid - 1)"
    using R(1) by (simp_all add: tables_of_def split: if_splits)
  then have "c \<in> set (concat (take (saved_max s) H))" using nth_mem [of "tid - 1" "take (saved_max s) H"] by auto
  then show "\<exists>b \<in> set (concat (take (saved_max s) H)). li_lsn b = lm_max_lsn (sn_meta s)" using c(4) by blast
qed

lemma concat_take_drop: "set (concat H) = set (concat (take D H)) \<union> set (concat (drop D H))"
  by (metis append_take_drop_id concat_append set_append)

lemma sorted_take_drop:
  assumes "sorted (map li_lsn (concat H))" "a \<in> set (concat (take D H))" "b \<in> set (concat (drop D H))"
  shows "li_lsn a \<le> li_lsn b"
proof -
  have "sorted (map li_lsn (concat (take D H) @ concat (drop D H)))" using assms(1) by (metis append_take_drop_id concat_append)
  then show ?thesis using assms(2,3) by (auto simp: sorted_append simp del: set_concat)
qed

lemma restart_replaying:
  assumes run: "logindex_run lp s H" and D: "0 < saved_max s" and nz: "\<forall>b \<in> set (concat H). li_lsn b \<noteq> 0"
    and c: "crashed s s0" and i: "polar_logindex_snapshot_init r other lp buf s0 ckpt False = Inr (x, s1)"
    and w: "w = filter (\<lambda>b. x \<le> li_lsn b) (concat H) @ v" "sorted (map li_lsn w)"
  shows "replaying lp s1 (take (saved_max s) H @ [[]]) w" "set (concat H) \<subseteq> set (concat (take (saved_max s) H @ [[]])) \<union> set w"
proof -
  let ?T = "concat (take (saved_max s) H)" and ?m = "lm_max_lsn (sn_meta s)"
  have inv: "run_inv lp s H" using logindex_run_inv [OF run] .
  then have ok: "recorded lp (tables_of H) (H \<noteq> []) s" by (simp add: run_inv_def)
  note M = run_saved_lsn [OF inv D nz]
  obtain m where m: "m \<in> set ?T" "li_lsn m = ?m" using M(1) by blast
  have x: "x \<le> ?m" using restart_lsn [OF ok c i] M(2,3) by simp
  have H: "set (concat H) = set ?T \<union> set (concat (drop (saved_max s) H))" by (rule concat_take_drop)
  have top: "li_lsn b \<le> ?m" if b: "b \<in> set ?T" for b
  proof -
    obtain tid where "0 < tid" "tid \<le> saved_max s" "b \<in> set (tables_of H tid)"
      using tables_of_mem [OF b] by (auto simp: tables_of_def split: if_splits)
    then show ?thesis using ok unfolding recorded_def opened_def meta_bounds_def by blast
  qed
  have lost: "?m \<le> li_lsn b" if "b \<in> set (concat (drop (saved_max s) H))" for b
    using sorted_take_drop [OF run_sorted [OF inv] m(1) that] m(2) by simp
  show "set (concat H) \<subseteq> set (concat (take (saved_max s) H @ [[]])) \<union> set w"
    unfolding H w(1) using lost x H by (auto simp del: set_concat dest: order_trans)
  have "indexed (take (saved_max s) H @ [[]]) a" if a: "a \<in> set w" "b \<in> set ?T" "li_lsn a < li_lsn b" for a b
  proof -
    have less: "li_lsn a < ?m" using a(3) top [OF a(2)] by simp
    have "m \<in> set (filter (\<lambda>b. x \<le> li_lsn b) (concat H))" using m x H by (simp del: set_concat)
    then have "a \<in> set v \<Longrightarrow> li_lsn m \<le> li_lsn a" using w by (simp add: sorted_append del: set_concat set_filter)
    then have "a \<notin> set v" using less m(2) by auto
    then have "a \<in> set (concat H)" using a(1) w(1) by (simp del: set_concat)
    then have "a \<in> set ?T" using H lost [of a] less by (auto simp del: set_concat)
    then show ?thesis using indexed_mem [of a "take (saved_max s) H @ [[]]"] by simp
  qed
  moreover have "logindex_run lp s1 (take (saved_max s) H @ [[]])" using logindex_run.restart [OF run c i] D by simp
  moreover have "\<not> adding s1" using restart_Inr(5) [OF ok c i] .
  moreover have "\<exists>b \<in> set ?T. li_lsn b \<noteq> 0" using m M(2) by metis
  ultimately show "replaying lp s1 (take (saved_max s) H @ [[]]) w" unfolding replaying_def using w(2) by (auto simp del: set_concat)
qed

end
