(* ===== verification/Logindex_Correct.thy ===== *)
theory Logindex_Correct
  imports Logindex_Replay
begin

text \<open>
  What a logindex snapshot guarantees along every run to the code that replays WAL records.
\<close>

section \<open>A sample run\<close>

text \<open>
  Parameters and shared memory at the first start, and records of one page with LSNs that differ in
  their upper halves, so that each is in a table of its own.
\<close>

definition sample_params :: logindex_params where
  "sample_params = \<lparr>lp_tag_hash = (\<lambda>_. 7), lp_hash_any = (\<lambda>_ seed. seed), lp_rint_k = (\<lambda>_ _. 2), lp_crc_meta = (\<lambda>_. 1),
     lp_crc_table = (\<lambda>_. 2), lp_crc_bloom = (\<lambda>_. 3), lp_table_flushable = (\<lambda>_. True), lp_is_standby = False,
     lp_rename_ok = (\<lambda>_ _. True), lp_max_logindex_files = 10, lp_table_batch_size = 1\<rparr>"

definition sample_snapshot :: log_index_snapshot where
  "sample_snapshot = \<lparr>sn_dir = ''logindex'', sn_mem_tbl_size = 4, sn_max_lsn = 0, sn_state = 0, sn_active_table = 0, sn_max_idx_table_id = 0,
     sn_promoted_info = logindex_snapshot_init_promoted_info, sn_meta = meta_zero, sn_max_allocated_seg_no = 0, sn_mem_table = [],
     sn_meta_file = None, sn_files = (\<lambda>_. None), sn_blooms = (\<lambda>_. None), sn_fault = None, sn_last_flush_max_lsn = 0,
     sn_last_max_table_id = 0\<rparr>"

definition sample_tag :: BufferTag where
  "sample_tag = \<lparr>rnode = \<lparr>spcNode = 1663, dbNode = 1, relNode = 16384\<rparr>, forkNum = 0, blockNum = 5\<rparr>"

definition sample_lsn :: "BufferTag \<Rightarrow> nat \<Rightarrow> log_index_lsn" where
  "sample_lsn tag n = \<lparr>li_tag = tag, li_lsn = push_bit 32 (of_nat n), li_prev_lsn = 0\<rparr>"

lemma start_ex:
  fixes s0 :: log_index_snapshot
  assumes s0: "sn_meta_file s0 = None" "2 \<le> sn_mem_tbl_size s0" "sn_state s0 = 0" "sn_fault s0 = None"
  shows "\<exists>s. logindex_run lp s [] \<and> sn_fault s = None \<and> lm_start_lsn (sn_meta s) = start \<and> lm_max_lsn (sn_meta s) = 0 \<and> sn_dir s = sn_dir s0"
proof -
  have gm: "log_index_get_meta lp s = (False, meta_zero)" if "sn_meta_file s = None" for s using that by (simp add: log_index_get_meta_def)
  obtain x s1 where i: "polar_logindex_snapshot_init 1 (\<lambda>_ s. s) lp table_zero s0 1 False = Inr (x, s1)" "sn_fault s1 = None"
    using s0 gm by (auto simp: polar_logindex_snapshot_init_def polar_logindex_snapshot_base_init_def
        polar_load_logindex_snapshot_from_storage_def polar_logindex_snapshot_remove_data_def Let_def)
  obtain s where st: "polar_logindex_set_start_lsn lp s1 start = Inr s"
    using i(2) by (auto simp: polar_logindex_set_start_lsn_def polar_log_index_write_meta_def Let_def)
  note S = start_Inr [OF s0(1-3) i(1) st]
  show ?thesis using logindex_run.start [OF s0(1-3) i(1) st] S(6-9) s0(4) by (intro exI [of _ s]) simp
qed

lemma sample_flushable: "lp_table_flushable sample_params t"
  by (simp add: sample_params_def)

lemma sample_add:
  assumes "logindex_run sample_params s H" "sn_fault s = None" "H = [] \<and> lm_start_lsn (sn_meta s) = 1 \<and> lm_max_lsn (sn_meta s) = 0 \<or> adding s"
    "\<forall>b \<in> set (concat H). li_lsn b \<le> li_lsn a" "H \<noteq> [] \<Longrightarrow> \<exists>b \<in> set (last H). drop_bit 32 (li_lsn b) \<noteq> drop_bit 32 (li_lsn a)" "1 \<le> li_lsn a"
  shows "\<exists>s'. logindex_run sample_params s' (H @ [[a]]) \<and> sn_fault s' = None \<and> adding s' \<and> sn_dir s' = sn_dir s"
proof -
  have "0 < li_lsn a" using assms(6) by (metis linorder_not_le unsigned_1 word_gt_0 word_le_0_iff zero_neq_one)
  then have "adding s \<or> lm_start_lsn (sn_meta s) \<le> li_lsn a \<and> lm_max_lsn (sn_meta s) < li_lsn a" using assms(3,6) by auto
  from run_add_ex [OF assms(1,2) sample_flushable assms(4) this] assms(5) show ?thesis by (cases "H = []") (auto simp: saved_kept_def)
qed

lemma sample_run:
  "\<exists>s. logindex_run sample_params s [[sample_lsn tag 1], [sample_lsn tag 2], [sample_lsn tag 3]] \<and> sn_fault s = None \<and> adding s \<and> 0 < saved_max s
    \<and> sn_dir s = ''logindex''"
proof -
  let ?a = "sample_lsn tag"
  obtain s0 where s0: "logindex_run sample_params s0 []" "sn_fault s0 = None" "lm_start_lsn (sn_meta s0) = 1" "lm_max_lsn (sn_meta s0) = 0"
      "sn_dir s0 = ''logindex''"
    using start_ex [of sample_snapshot sample_params 1] by (auto simp: sample_snapshot_def)
  have "\<exists>s'. logindex_run sample_params s' ([] @ [[?a 1]]) \<and> sn_fault s' = None \<and> adding s' \<and> sn_dir s' = sn_dir s0"
    by (rule sample_add [OF s0(1,2)]) (simp_all add: s0 sample_lsn_def)
  then obtain s1 where s1: "logindex_run sample_params s1 [[?a 1]]" "sn_fault s1 = None" "adding s1" "sn_dir s1 = ''logindex''" using s0(5) by auto
  have "\<exists>s'. logindex_run sample_params s' ([[?a 1]] @ [[?a 2]]) \<and> sn_fault s' = None \<and> adding s' \<and> sn_dir s' = sn_dir s1"
    by (rule sample_add [OF s1(1,2)]) (simp_all add: s1(3) sample_lsn_def)
  then obtain s2 where s2: "logindex_run sample_params s2 [[?a 1], [?a 2]]" "sn_fault s2 = None" "adding s2" "sn_dir s2 = ''logindex''" using s1(4) by auto
  have "\<exists>s'. logindex_run sample_params s' ([[?a 1], [?a 2]] @ [[?a 3]]) \<and> sn_fault s' = None \<and> adding s' \<and> sn_dir s' = sn_dir s2"
    by (rule sample_add [OF s2(1,2)]) (simp_all add: s2(3) sample_lsn_def)
  then obtain s3 where s3: "logindex_run sample_params s3 [[?a 1], [?a 2], [?a 3]]" "sn_fault s3 = None" "adding s3" "sn_dir s3 = ''logindex''" using s2(4) by auto
  show ?thesis
  proof (cases "saved_max s3 = 0")
    case True
    obtain s4 where s4: "logindex_run sample_params s4 [[?a 1], [?a 2], [?a 3]]" "sn_fault s4 = None" "saved_max s3 < saved_max s4"
      "sn_dir s4 = ''logindex''" using run_flush_ex [OF s3(1,2) sample_flushable] True s3(4) by (auto simp: saved_kept_def)
    have "adding s4"
    proof (rule ccontr)
      assume "\<not> adding s4"
      then have "\<forall>tid. saved_max s4 < tid \<longrightarrow> tables_of [[?a 1], [?a 2], [?a 3]] tid = []" "3 = sn_max_idx_table_id s4"
        and ok: "recorded sample_params (tables_of [[?a 1], [?a 2], [?a 3]]) True s4"
        using logindex_run_inv [OF s4(1)] by (simp_all add: run_inv_def)
      then have "saved_max s4 < 3 \<longrightarrow> tables_of [[?a 1], [?a 2], [?a 3]] 3 = []" "saved_max s4 < 3"
        using ringD(5) [OF recorded_ring [OF ok]] by simp_all
      then show False by (simp add: tables_of_def)
    qed
    then show ?thesis using s4 True by auto
  qed (use s3 in auto)
qed

lemma sample_first: "logindex_run sample_params s [[a], [b], [c]] \<Longrightarrow> 0 < saved_max s \<Longrightarrow> min_segno s \<le> segno (Suc 0)"
proof -
  assume run: "logindex_run sample_params s [[a], [b], [c]]" "0 < saved_max s"
  have ok: "recorded sample_params (tables_of [[a], [b], [c]]) True s" "sn_max_idx_table_id s = 3"
    using logindex_run_inv [OF run(1)] by (simp_all add: run_inv_def)
  have "segno (saved_max s) = 0" using ringD(3) [OF recorded_ring [OF ok(1)]] ok(2) run(2) by (simp add: seg_slot)
  then show ?thesis using recorded_storage [OF ok(1)] run(2) by (simp add: storage_def min_seg_ok_def)
qed

section \<open>Nothing is lost\<close>

lemma run_stored:
  assumes "logindex_run lp s H" "0 < tid" "tid \<le> saved_max s" "min_segno s \<le> segno tid"
  shows "recorded lp (tables_of H) (H \<noteq> []) s" "stored lp s tid (tables_of H tid)" "tables_of H tid = H ! (tid - 1)" "tid \<le> length H"
proof -
  show ok: "recorded lp (tables_of H) (H \<noteq> []) s" using logindex_run_inv [OF assms(1)] by (simp add: run_inv_def)
  show "tid \<le> length H" using ringD(3) [OF recorded_ring [OF ok]] assms(3) logindex_run_inv [OF assms(1)] by (simp add: run_inv_def)
  then show "tables_of H tid = H ! (tid - 1)" using assms(2) by (simp add: tables_of_def)
  show "stored lp s tid (tables_of H tid)" using recorded_storage [OF ok] assms(2-4) by (simp add: storage_def)
qed

text \<open>
  C1. Nothing that was added gets lost. In every state that is reached from an empty storage by
  adding LSNs, by the background writer, readers, truncations and I/O errors at any time, and by
  crashes with restarts, the records are in the order of their LSNs, each table that is not saved
  is in its slot in memory and holds exactly its records, and each saved table that is not
  truncated can be read from storage, with a valid checksum and exactly its records.
\<close>

theorem logindex_retains:
  assumes "logindex_run lp s H"
  shows "length H = sn_max_idx_table_id s \<and> sorted (map li_lsn (concat H))
    \<and> (\<forall>tid. saved_max s < tid \<and> tid \<le> length H \<longrightarrow>
         (let t = mt_data (sn_mem_table s ! ((tid - 1) mod sn_mem_tbl_size s)) in td_idx_table_id t = tid \<and> holds lp t (H ! (tid - 1))))
    \<and> (\<forall>tid. 0 < tid \<and> tid \<le> saved_max s \<and> min_segno s \<le> segno tid \<and> sn_fault s = None \<longrightarrow>
         (\<exists>t. log_index_read_table_data lp s tid = Inr t \<and> td_idx_table_id t = tid \<and> holds lp t (H ! (tid - 1))))"
proof (intro conjI allI impI)
  have inv: "run_inv lp s H" using logindex_run_inv [OF assms] .
  then have ok: "recorded lp (tables_of H) (H \<noteq> []) s" "length H = sn_max_idx_table_id s" by (simp_all add: run_inv_def)
  show "length H = sn_max_idx_table_id s" "sorted (map li_lsn (concat H))" using ok(2) run_sorted [OF inv] by simp_all
  fix tid
  show "let t = mt_data (sn_mem_table s ! ((tid - 1) mod sn_mem_tbl_size s)) in td_idx_table_id t = tid \<and> holds lp t (H ! (tid - 1))"
    if "saved_max s < tid \<and> tid \<le> length H"
    using ringD(8,9) [OF recorded_ring [OF ok(1)], of tid] that ok(2) tbl_log_holds by (auto simp: tables_of_def Let_def)
  show "\<exists>t. log_index_read_table_data lp s tid = Inr t \<and> td_idx_table_id t = tid \<and> holds lp t (H ! (tid - 1))"
    if tid: "0 < tid \<and> tid \<le> saved_max s \<and> min_segno s \<le> segno tid \<and> sn_fault s = None"
  proof -
    have t: "0 < tid" "tid \<le> saved_max s" "min_segno s \<le> segno tid" "sn_fault s = None" using tid by simp_all
    note S = run_stored [OF assms t(1-3)]
    then obtain t where "log_index_read_table_data lp s tid = Inr t" "good_table lp t tid (tables_of H tid)" using stored_read t(4) by blast
    then show ?thesis using good_table_holds S(3) by auto
  qed
qed

theorem logindex_retains_witness:
  "\<exists>s t. logindex_run sample_params s [[sample_lsn sample_tag 1], [sample_lsn sample_tag 2], [sample_lsn sample_tag 3]]
    \<and> log_index_read_table_data sample_params s 1 = Inr t \<and> holds sample_params t [sample_lsn sample_tag 1]"
proof -
  obtain s where s: "logindex_run sample_params s [[sample_lsn sample_tag 1], [sample_lsn sample_tag 2], [sample_lsn sample_tag 3]]"
    "sn_fault s = None" "0 < saved_max s" using sample_run by blast
  then show ?thesis using logindex_retains [OF s(1)] sample_first [OF s(1,3)] by (auto dest!: spec [of _ "Suc 0"])
qed

text \<open>
  C2. Restart loses nothing, although it keeps only the saved tables. After a crash between two operations,
  before which at least one table was saved, the WAL is
  replayed from the LSN that the initialization returns. Whatever the background processes do
  meanwhile, when the records from there on were given to \<open>polar_logindex_add_lsn\<close> again, in the
  order of their LSNs, every record that was in the logindex before the crash, and every new one,
  is in the logindex, with its page and its LSN.
\<close>

theorem logindex_replay_loses_nothing:
  assumes "logindex_run lp s H" "0 < saved_max s" "\<forall>b \<in> set (concat H). li_lsn b \<noteq> InvalidXLogRecPtr"
    and "crashed s s0" "polar_logindex_snapshot_init r other lp buf s0 ckpt False = Inr (start, s1)"
    and "w = filter (\<lambda>b. start \<le> li_lsn b) (concat H) @ v" "sorted (map li_lsn w)"
    and "replay lp s1 (take (saved_max s) H @ [[]]) w s2 H2"
  shows "logindex_run lp s2 H2 \<and> (\<forall>a \<in> set (concat H @ v). indexed H2 a)"
proof -
  note R = restart_replaying [OF assms(1-7)]
  have P: "logindex_run lp s2 H2" "set (concat (take (saved_max s) H @ [[]])) \<subseteq> set (concat H2)" "\<forall>a \<in> set w. indexed H2 a"
    using replay_indexed [OF assms(8) R(1)] by blast+
  then have "indexed H2 a" if "a \<in> set (concat H)" for a using R(2) that indexed_mem [of a H2] by blast
  moreover have "indexed H2 a" if "a \<in> set v" for a using P(3) that assms(6) by simp
  ultimately show ?thesis using P(1) by (simp del: set_concat) blast
qed

definition sample_crash :: "log_index_snapshot \<Rightarrow> log_index_snapshot" where
  "sample_crash s = sample_snapshot\<lparr>sn_files := sn_files s, sn_blooms := sn_blooms s, sn_meta_file := sn_meta_file s\<rparr>"

lemma sample_crashed: "crashed s (sample_crash s)"
  by (simp add: crashed_def sample_crash_def sample_snapshot_def)

theorem logindex_replay_loses_nothing_witness:
  "\<exists>s s1 s2 start H2. logindex_run sample_params s [[sample_lsn sample_tag 1], [sample_lsn sample_tag 2], [sample_lsn sample_tag 3]]
    \<and> polar_logindex_snapshot_init 1 (\<lambda>_ s. s) sample_params table_zero (sample_crash s) 1 False = Inr (start, s1)
    \<and> logindex_run sample_params s2 H2 \<and> indexed H2 (sample_lsn sample_tag 3) \<and> indexed H2 (sample_lsn sample_tag 4)"
proof -
  let ?a = "sample_lsn sample_tag" and ?H = "[[sample_lsn sample_tag 1], [sample_lsn sample_tag 2], [sample_lsn sample_tag 3]]"
  obtain s where s: "logindex_run sample_params s ?H" "0 < saved_max s" using sample_run by blast
  obtain start s1 where i: "polar_logindex_snapshot_init (Suc 0) (\<lambda>_ s. s) sample_params table_zero (sample_crash s) 1 False = Inr (start, s1)"
    using restart_total [OF _ sample_crashed] logindex_run_inv [OF s(1)] unfolding run_inv_def by blast
  define w where "w = filter (\<lambda>b. start \<le> li_lsn b) (concat ?H) @ [?a 4]"
  have nz: "\<forall>b \<in> set (concat ?H). li_lsn b \<noteq> 0" by (simp add: sample_lsn_def)
  have "sorted (map li_lsn (concat ?H @ [?a 4]))" by (simp add: sample_lsn_def)
  then have w: "sorted (map li_lsn w)" unfolding w_def by (auto simp: sorted_append sorted_filter simp del: concat.simps set_concat)
  obtain s2 H2 where "replay sample_params s1 (take (saved_max s) ?H @ [[]]) w s2 H2"
    using replay_ex [OF restart_replaying(1) [OF s nz sample_crashed i w_def w] sample_flushable] by blast
  from logindex_replay_loses_nothing [OF s nz sample_crashed i w_def w this] s(1) i show ?thesis by auto
qed

text \<open>
  C12. A restart succeeds. After a crash, whatever was saved at that time and with memory for at
  least two tables, the initialization from the files returns without waiting, with the records of
  the saved tables and a new table. The LSN from which the WAL is to be replayed is at most the
  start LSN of the meta data.
\<close>

theorem logindex_restart_returns:
  assumes "logindex_run lp s H" "crashed s s0"
  shows "\<exists>start s'. polar_logindex_snapshot_init (Suc r) other lp buf s0 ckpt False = Inr (start, s')
    \<and> logindex_run lp s' (take (saved_max s) H @ (if saved_max s = 0 then [] else [[]]))
    \<and> (lm_start_lsn (sn_meta s) \<noteq> InvalidXLogRecPtr \<longrightarrow> start \<le> lm_start_lsn (sn_meta s))"
proof -
  have ok: "recorded lp (tables_of H) (H \<noteq> []) s" using logindex_run_inv [OF assms(1)] by (simp add: run_inv_def)
  obtain start s' where i: "polar_logindex_snapshot_init (Suc r) other lp buf s0 ckpt False = Inr (start, s')"
    using restart_total [OF ok assms(2)] by blast
  then show ?thesis using logindex_run.restart [OF assms i] restart_lsn [OF ok assms(2) i] by blast
qed

theorem logindex_restart_returns_witness:
  "\<exists>s start s'. logindex_run sample_params s [[sample_lsn sample_tag 1], [sample_lsn sample_tag 2], [sample_lsn sample_tag 3]]
    \<and> polar_logindex_snapshot_init 1 (\<lambda>_ s. s) sample_params table_zero (sample_crash s) 1 False = Inr (start, s')"
proof -
  obtain s where s: "logindex_run sample_params s [[sample_lsn sample_tag 1], [sample_lsn sample_tag 2], [sample_lsn sample_tag 3]]"
    using sample_run by blast
  from logindex_restart_returns [OF s sample_crashed, of 0 "\<lambda>_ s. s" table_zero 1] s show ?thesis by auto
qed

section \<open>Adding, reading and truncation\<close>

text \<open>
  C11. Adding an LSN returns. When storage has no errors and the callback lets full tables be
  flushed, \<open>polar_logindex_add_lsn\<close> with an LSN that is not below the ones before, and not covered by
  the saved tables, returns without a second round of waiting, and the record is the last of the
  logindex: in the active table or as the first of a new one, with everything before unchanged.
\<close>

theorem logindex_add_returns:
  assumes "logindex_run lp s H" "sn_fault s = None" "\<forall>t. lp_table_flushable lp t" "env_ok lp other" "\<forall>b \<in> set (concat H). li_lsn b \<le> lsn"
    and "adding s \<or> lm_start_lsn (sn_meta s) \<le> lsn \<and> lm_max_lsn (sn_meta s) < lsn"
  shows "\<exists>s' H'. polar_logindex_add_lsn (Suc r) other lp s tag prev lsn = Inr s' \<and> logindex_run lp s' H' \<and> sn_fault s' = None
    \<and> concat H' = concat H @ [\<lparr>li_tag = tag, li_lsn = lsn, li_prev_lsn = prev\<rparr>] \<and> butlast H = take (length H - 1) H'"
proof -
  let ?a = "\<lparr>li_tag = tag, li_lsn = lsn, li_prev_lsn = prev\<rparr>"
  have inv: "recorded lp (tables_of H) (H \<noteq> []) s" "at_rest (H \<noteq> []) s" "length H = sn_max_idx_table_id s"
    "\<not> adding s \<longrightarrow> (\<forall>tid. saved_max s < tid \<longrightarrow> tables_of H tid = [])" using logindex_run_inv [OF assms(1)] by (simp_all add: run_inv_def)
  have "above (tables_of H) ?a" using above_log [of H ?a] assms(5) by (simp del: set_concat)
  then obtain s' s1 where s': "polar_logindex_add_lsn (Suc r) other lp s tag prev lsn = Inr s'" "sn_fault s' = None"
    "s1 = s \<or> s1 = set_adding s" "adding s1" "inserted lp (tables_of H) (H \<noteq> []) s1 ?a s'"
    using add_lsn_total [OF inv(1,2,4) _ assms(4,2), of tag lsn prev r] assms(3,6) by auto
  then obtain M where M: "added_to lp (tables_of H) s1 ?a M s'" "H \<noteq> [] \<and> M = sn_max_idx_table_id s1 \<or> M = Suc (sn_max_idx_table_id s1)"
    unfolding inserted_def by blast
  have ad: "adding s'" using M(1) s'(4) by (simp add: added_to_def polar_logindex_check_state_def)
  have "logindex_run lp s' (next_log s s' H ?a)" using logindex_run.add [OF assms(1,4) _ s'(1)] assms(5) by blast
  moreover have "concat (next_log s s' H ?a) = concat H @ [?a]" using M s'(3) ad inv(3) by (intro concat_next_log) (auto simp: added_to_def)
  moreover have "butlast H = take (length H - 1) (next_log s s' H ?a)" using ad by (simp add: next_log_def butlast_conv_take)
  ultimately show ?thesis using s'(1,2) by blast
qed

theorem logindex_add_returns_witness:
  "\<exists>s s' H'. logindex_run sample_params s [[sample_lsn sample_tag 1], [sample_lsn sample_tag 2], [sample_lsn sample_tag 3]]
    \<and> polar_logindex_add_lsn 1 (\<lambda>_ s. s) sample_params s sample_tag 0 (li_lsn (sample_lsn sample_tag 4)) = Inr s' \<and> logindex_run sample_params s' H'
    \<and> concat H' = map (sample_lsn sample_tag) [1, 2, 3, 4]"
proof -
  obtain s where s: "logindex_run sample_params s [[sample_lsn sample_tag 1], [sample_lsn sample_tag 2], [sample_lsn sample_tag 3]]"
    "sn_fault s = None" "adding s" using sample_run by blast
  have "env_ok sample_params (\<lambda>_ s. s)" by (simp add: env_ok_def)
  from logindex_add_returns [OF s(1,2) _ this, of "li_lsn (sample_lsn sample_tag 4)" 0 sample_tag 0] s sample_flushable
  show ?thesis by (auto simp: sample_lsn_def)
qed

text \<open>
  C13. Truncation is safe and ends. Without I/O errors \<open>polar_logindex_truncate\<close> returns after at most as
  many rounds as there are segment files. It removes only tables all of whose records are below the
  given LSN, and the rest of the logindex is as before.
\<close>

theorem logindex_truncate_safe:
  assumes "logindex_run lp s H" "sn_fault s = None"
  shows "\<exists>s'. polar_logindex_truncate lp s lsn = Inr s' \<and> logindex_run lp s' H \<and> saved_max s' = saved_max s \<and> min_segno s \<le> min_segno s'
    \<and> (\<forall>tid a. 0 < tid \<and> tid \<le> length H \<and> min_segno s \<le> segno tid \<and> segno tid < min_segno s' \<and> a \<in> set (H ! (tid - 1)) \<longrightarrow> li_lsn a < lsn)"
proof -
  have ok: "recorded lp (tables_of H) (H \<noteq> []) s" using logindex_run_inv [OF assms(1)] by (simp add: run_inv_def)
  have "segno (saved_max s) - min_segno s < Suc (segno (saved_max s))" by simp
  from truncate_loop_total [OF ok assms(2) this] obtain s' where s': "polar_logindex_truncate lp s lsn = Inr s'"
    unfolding polar_logindex_truncate_def by (metis (full_types))
  note T = polar_truncate_recorded [OF ok s']
  have le: "tid \<le> saved_max s'" if t: "segno tid < min_segno s'" "0 < tid" for tid
  proof (rule ccontr)
    assume "\<not> tid \<le> saved_max s'"
    moreover have "min_segno s' \<le> (saved_max s' - 1) div 64" "0 < saved_max s'"
      using recorded_storage [OF T(1)] t(1) by (auto simp: storage_def min_seg_ok_def file_segment_zero_def seg_slot split: if_splits)
    ultimately have "min_segno s' \<le> segno tid" using div_le_mono [of "saved_max s' - 1" "tid - 1" 64] t(2) by (simp add: seg_slot)
    then show False using t(1) by simp
  qed
  have "li_lsn a < lsn" if "0 < tid" "tid \<le> length H" "min_segno s \<le> segno tid" "segno tid < min_segno s'" "a \<in> set (H ! (tid - 1))" for tid a
  proof -
    have "tid \<le> saved_max s" "a \<in> set (tables_of H tid)" using le [OF that(4,1)] T(2) that by (simp_all add: truncated_def tables_of_def)
    then show ?thesis using T(2) that unfolding truncated_def by blast
  qed
  then show ?thesis using s' logindex_run.background [OF assms(1) bg_step.truncate [OF s']] T(2) by (auto simp: truncated_def)
qed

theorem logindex_truncate_safe_witness:
  "\<exists>s s'. logindex_run sample_params s [[sample_lsn sample_tag 1], [sample_lsn sample_tag 2], [sample_lsn sample_tag 3]]
    \<and> polar_logindex_truncate sample_params s (li_lsn (sample_lsn sample_tag 3)) = Inr s' \<and> saved_max s' = saved_max s"
proof -
  obtain s where s: "logindex_run sample_params s [[sample_lsn sample_tag 1], [sample_lsn sample_tag 2], [sample_lsn sample_tag 3]]"
    "sn_fault s = None" using sample_run by blast
  then show ?thesis using logindex_truncate_safe [OF s] by blast
qed

text \<open>
  C14. Reading a saved table that is not truncated returns it when there is no I/O error, whichever
  locks are free and whatever the process has read before: from memory, from the cache of the process or
  from the segment file. The table has the number that was asked for and holds exactly its records, all
  of them within the LSN bounds of the table, by which readers skip tables. The process can go on, with
  the changed cache.
\<close>

theorem logindex_read_table_returns:
  assumes "reader_run lp s H cache" "sn_fault s = None" "0 < tid" "tid \<le> saved_max s" "min_segno s \<le> segno tid"
  shows "\<exists>data held cache' s'. log_index_read_table s cache got1 got2 err tid = Inr (data, held, cache', s')
    \<and> td_idx_table_id data = tid \<and> holds lp data (H ! (tid - 1))
    \<and> (\<forall>a \<in> set (H ! (tid - 1)). td_min_lsn data \<le> li_lsn a \<and> li_lsn a \<le> td_max_lsn data)
    \<and> reader_run lp s' H cache' \<and> saved_kept s s'"
proof -
  have run: "logindex_run lp s H" "cache_ok s cache" using reader_run_inv [OF assms(1)] by simp_all
  note S = run_stored [OF run(1) assms(3-5)]
  obtain data held cache' s' where r: "log_index_read_table s cache got1 got2 err tid = Inr (data, held, cache', s')"
    using read_table_total [OF S(1) assms(3-5) run(2) assms(2)] by blast
  note T = read_table_recorded [OF S(1) assms(3-5) run(2) r, unfolded S(3)]
  have "sorted (map li_lsn (tables_of H tid))" using S(1) by (simp add: recorded_def opened_def log_sorted_def)
  then have "\<forall>a \<in> set (H ! (tid - 1)). td_min_lsn data \<le> li_lsn a \<and> li_lsn a \<le> td_max_lsn data"
    using lsn_bounds_sorted [OF T(5)] unfolding S(3) by blast
  moreover have "holds lp data (H ! (tid - 1))" using T(4) tbl_log_holds by blast
  moreover have "saved_kept s s'" using T(2) by (simp add: kept_def)
  ultimately show ?thesis using r T(3) reader_run.read [OF assms(1,3-5) r] by blast
qed

text \<open>
  Two reads of table 1 by a process that does not get the lock of the memory table: the first one fills the
  cache, the second one returns the table from the cache, without a file.
\<close>

theorem logindex_read_table_returns_witness:
  "\<exists>s data held cache s' data2 s2. reader_run sample_params s [[sample_lsn sample_tag 1], [sample_lsn sample_tag 2], [sample_lsn sample_tag 3]] empty_cache
    \<and> log_index_read_table s empty_cache False False LOG_INDEX_READ_FAILED 1 = Inr (data, held, cache, s') \<and> holds sample_params data [sample_lsn sample_tag 1]
    \<and> tc_name cache = sn_dir s' \<and> tc_min_idx_table_id cache \<le> 1 \<and> 1 \<le> tc_max_idx_table_id cache
    \<and> log_index_read_table s' cache False False LOG_INDEX_READ_FAILED 1 = Inr (data2, None, cache, s2) \<and> holds sample_params data2 [sample_lsn sample_tag 1]"
proof -
  let ?H = "[[sample_lsn sample_tag 1], [sample_lsn sample_tag 2], [sample_lsn sample_tag 3]]"
  let ?read = "\<lambda>s c. log_index_read_table s c False False LOG_INDEX_READ_FAILED 1"
  obtain s where s: "logindex_run sample_params s ?H" "sn_fault s = None" "0 < saved_max s" "sn_dir s = ''logindex''" using sample_run by blast
  have run: "reader_run sample_params s ?H empty_cache" using reader_run.fresh [OF s(1)] s(4) by (simp add: empty_cache_def)
  have "min_segno s \<le> segno 1" using sample_first [OF s(1,3)] by simp
  from logindex_read_table_returns [OF run s(2) _ _ this, of False False LOG_INDEX_READ_FAILED] s(3) obtain data held cache s' where
    r: "?read s empty_cache = Inr (data, held, cache, s')" "holds sample_params data [sample_lsn sample_tag 1]"
      "reader_run sample_params s' ?H cache" by auto
  have ok: "recorded sample_params (tables_of ?H) True s" using logindex_run_inv [OF s(1)] by (simp add: run_inv_def)
  then have mid: "mid_of_tid s 1 < length (sn_mem_table s)" using mid_of_tid_less recorded_length by simp
  have c: "tc_name cache = sn_dir s" "tc_min_idx_table_id cache \<le> 1" "1 \<le> tc_max_idx_table_id cache" "s' = s"
    using read_table_cases [OF r(1) mid] by auto
  from logindex_read_table_returns [OF r(3), of 1 False False LOG_INDEX_READ_FAILED] s(2,3) sample_first [OF s(1,3)] c(4)
  obtain data2 held2 cache2 s2 where r2: "?read s' cache = Inr (data2, held2, cache2, s2)" "holds sample_params data2 [sample_lsn sample_tag 1]" by auto
  have "held2 = None \<and> cache2 = cache" using r2(1) c mid
    by (auto simp: log_index_read_table_def Let_def rbind_Inr_iff)
  then show ?thesis using run r(1,2) c r2 by blast
qed

text \<open>
  C15. The Bloom filter that is saved with a table never hides a page: for every record of a saved
  table that is not truncated, the filter as readers open it does not lack the page, and the LSN is
  at most the largest LSN that is kept with the filter.
\<close>

theorem logindex_bloom_hides_no_page:
  assumes "logindex_run lp s H" "0 < tid" "tid \<le> saved_max s" "min_segno s \<le> segno tid" "a \<in> set (H ! (tid - 1))"
  shows "\<exists>b. sn_blooms s tid = Some b \<and> fb_idx_table_id b = tid \<and> li_lsn a \<le> fb_max_lsn b
    \<and> bloom_lacks_element (lp_hash_any lp)
        (bloom_init_struct (lp_rint_k lp) (bf_bitset (fb_filter b)) (fb_buf_size b) LOG_INDEX_BLOOM_ELEMS_NUM 0) (li_tag a) = Inr False"
proof -
  note S = run_stored [OF assms(1-4)]
  have "sorted (map li_lsn (tables_of H tid))" using S(1) by (simp add: recorded_def opened_def log_sorted_def)
  then have "li_lsn a \<le> li_lsn (last (page_log (li_tag a) (H ! (tid - 1))))" using page_log_bounds(2) assms(5) unfolding S(3) by blast
  moreover obtain b where b: "sn_blooms s tid = Some b" "bloom_good lp b tid (H ! (tid - 1))" using S(2) unfolding stored_def S(3) by blast
  moreover have "li_lsn (last (page_log (li_tag a) (H ! (tid - 1)))) \<le> fb_max_lsn b" using b(2) assms(5) unfolding bloom_good_def by blast
  ultimately show ?thesis using b(2) assms(5) unfolding bloom_good_def by (intro exI [of _ b]) auto
qed

theorem logindex_bloom_hides_no_page_witness:
  "\<exists>s b. logindex_run sample_params s [[sample_lsn sample_tag 1], [sample_lsn sample_tag 2], [sample_lsn sample_tag 3]]
    \<and> sn_blooms s 1 = Some b \<and> fb_idx_table_id b = 1 \<and> li_lsn (sample_lsn sample_tag 1) \<le> fb_max_lsn b"
proof -
  obtain s where s: "logindex_run sample_params s [[sample_lsn sample_tag 1], [sample_lsn sample_tag 2], [sample_lsn sample_tag 3]]"
    "0 < saved_max s" using sample_run by blast
  then show ?thesis using logindex_bloom_hides_no_page [OF s(1), of 1 "sample_lsn sample_tag 1"] sample_first [OF s] by auto
qed

text \<open>
  C16. The meta file is valid at any time and tells how far the logindex is saved: a process that
  reads it gets the meta data of the snapshot, the tables that are not saved fit into memory, the
  largest LSN is that of the last saved record, and the start LSN is the same.
\<close>

theorem logindex_meta_valid:
  assumes "logindex_run lp s H" "sn_fault s = None"
  shows "log_index_get_meta lp s = (True, sn_meta s) \<and> saved_max s \<le> length H \<and> length H \<le> saved_max s + sn_mem_tbl_size s
    \<and> (\<forall>a \<in> set (concat (take (saved_max s) H)). li_lsn a \<le> lm_max_lsn (sn_meta s))
    \<and> (lm_max_lsn (sn_meta s) \<noteq> InvalidXLogRecPtr \<longrightarrow> lm_start_lsn (sn_meta s) = lm_max_lsn (sn_meta s)
         \<and> (\<exists>a \<in> set (concat (take (saved_max s) H)). li_lsn a = lm_max_lsn (sn_meta s)))"
proof -
  let ?T = "take (saved_max s) H"
  have ok: "recorded lp (tables_of H) (H \<noteq> []) s" "length H = sn_max_idx_table_id s" using logindex_run_inv [OF assms(1)] by (simp_all add: run_inv_def)
  have R: "saved_max s \<le> length H" "length H \<le> saved_max s + sn_mem_tbl_size s" using ringD(3,4) [OF recorded_ring [OF ok(1)]] ok(2) by simp_all
  have tb: "tables_of ?T tid = tables_of H tid" if "tid \<le> saved_max s" for tid using that R(1) by (simp add: tables_of_def)
  have mb: "meta_bounds (tables_of ?T) (sn_meta s)" using ok(1) meta_bounds_cong [OF tb] by (simp add: recorded_def opened_def)
  have "log_index_get_meta lp s = (True, sn_meta s)" using get_meta_saved [of lp s s] recorded_storage [OF ok(1)] assms(2) by (simp add: storage_def)
  moreover have "li_lsn a \<le> lm_max_lsn (sn_meta s)" if "a \<in> set (concat ?T)" for a
    using tables_of_mem [OF that] mb R(1) unfolding meta_bounds_def by auto
  moreover have "lm_max_lsn (sn_meta s) \<noteq> 0 \<longrightarrow> lm_start_lsn (sn_meta s) = lm_max_lsn (sn_meta s)"
    using recorded_storage [OF ok(1)] by (simp add: storage_def meta_saved_def)
  moreover have "lm_max_lsn (sn_meta s) \<noteq> 0 \<longrightarrow> (\<exists>a \<in> set (concat ?T). li_lsn a = lm_max_lsn (sn_meta s))"
    using mb tables_of_set unfolding meta_bounds_def by blast
  ultimately show ?thesis using R by blast
qed

theorem logindex_meta_valid_witness:
  "\<exists>s. logindex_run sample_params s [[sample_lsn sample_tag 1], [sample_lsn sample_tag 2], [sample_lsn sample_tag 3]]
    \<and> log_index_get_meta sample_params s = (True, sn_meta s) \<and> 0 < saved_max s"
proof -
  obtain s where s: "logindex_run sample_params s [[sample_lsn sample_tag 1], [sample_lsn sample_tag 2], [sample_lsn sample_tag 3]]"
    "sn_fault s = None" "0 < saved_max s" using sample_run by blast
  then show ?thesis using logindex_meta_valid [OF s(1,2)] by blast
qed

end
