(* ===== verification/Spec2Isabelle.thy ===== *)
theory Spec2Isabelle
  imports Successor_List Checkpoint_Ringbuf Queue_Manager Mini_Transaction_Locks Rel_Size_Correct Logindex_Correct
begin

text \<open>
  PolarDB for PostgreSQL: the data structures by which several nodes work on one shared storage.

  A primary node writes; replica nodes read the same storage and follow the primary through its
  WAL. The pages a replica reads from storage may be older than the WAL position it has reached,
  so each node keeps an index from pages to the WAL records that change them (the logindex), by
  which a page is brought up to date when it is read. The parts modelled here work together as
  follows.

  \<^item> The primary puts the meta data of each WAL record into a ring buffer, from which its
    walsenders read them; on a replica the walreceiver puts what it gets into a ring buffer of the
    same kind, and the startup process takes the records from there (queue manager).
  \<^item> The startup process adds the LSN of each record to the logindex, once for each page the
    record changes, while it holds the page's lock in a mini transaction, and it stashes
    checkpoint records (checkpoint ring buffer), as background replay lags behind.
  \<^item> A logindex snapshot collects LSNs in tables in memory, writes full tables to segment
    files with a Bloom filter each, and removes segment files that are no longer needed.
  \<^item> Truncations of relations and drops of databases go to the relation size cache, by which
    the replay of a page's records knows that the page was gone in between.

  All files named below are under \<^verbatim>\<open>src/src/backend\<close> or \<^verbatim>\<open>src/src/include\<close>.

  \<^bold>\<open>Conventions\<close> (\<open>Polar_Prelude\<close>). Structs are records, with a prefix at each field name; unions
  are datatypes. LSNs and values whose wrap-around matters are words; indices and sizes are
  \<open>nat\<close> where the code keeps them in range, and the statements about bounds say that it does.
  Operations return \<open>pg_error + 'a\<close>: \<open>ereport\<close> at ERROR, FATAL or PANIC, an access outside an array,
  through a null pointer or through the wrong member of a union, an acquisition of a lock that is
  already held by the process, and a loop that does not end are errors, so that a statement that
  an operation returns \<open>Inr\<close> excludes all of them. What runs under an exclusive LWLock is one step.
  Loops that wait for other processes have the number of rounds and the action of the others
  between rounds as arguments; the statements say how many rounds are enough. Hash functions,
  checksums, callbacks and server parameters are arguments.

  \<^bold>\<open>Bit positions\<close> (\<open>Bitpos\<close>; \<^verbatim>\<open>utils/polar_bitpos.h\<close>). The macros on sets of small numbers kept in a
  word, with both definitions of the least set bit: the loop over the members of a set is shown
  to visit them in order, and the two definitions are shown to differ by one.

  \<^bold>\<open>Successor list\<close> (\<open>Successor_List\<close>; \<^verbatim>\<open>utils/list/polar_successor_list.c\<close>). A free list in an
  array. The locale \<open>free_pool\<close> is what its users rely on, and no item is given out twice.

  \<^bold>\<open>Checkpoint ring buffer\<close> (\<open>Checkpoint_Ringbuf\<close>; \<^verbatim>\<open>access/transam/polar_checkpoint_ringbuf.c\<close> and
  its users in \<^verbatim>\<open>xlog.c\<close>). The runs of a standby are a step relation from the empty ring; in each
  state the restart point is the newest stashed checkpoint that background replay has reached, unless
  the first checkpoint was dropped: the first insertion compares it with the word in memory before the array,
  and returns with the lock held when it is older. The two cases in which insertion keeps its lock are
  stated too.

  \<^bold>\<open>WAL ring buffer\<close> (\<open>Ringbuf\<close>: the code of \<^verbatim>\<open>access/polar_ringbuf.h\<close> and
  \<^verbatim>\<open>access/logindex/polar_ringbuf.c\<close>). \<open>Ringbuf_Packets\<close> shows that the bytes refine a log of packets
  with a cursor for each reader; \<open>Ringbuf_Refs\<close> that the operations on readers, the collection of
  what all have read, and the eviction of slow readers keep this, and when they return: a writer that
  waits for space gets it, without the loss of a packet that a strong reader has not read, when the
  readers go on each time it sleeps.
  \<open>Queue_Manager\<close> (\<^verbatim>\<open>access/logindex/polar_queue_manager.c\<close>) has the transfer of packets between
  nodes; the locale \<open>broadcast_log\<close> states that each reader gets all packets in order, and is
  interpreted on the ring buffer.

  \<^bold>\<open>Mini transaction\<close> (\<open>Mini_Transaction\<close>: the code of \<^verbatim>\<open>access/logindex/polar_mini_transaction.c\<close>).
  \<open>Mini_Transaction_Table\<close> shows that its coalesced hash table in shared memory is a finite map;
  \<open>Mini_Transaction_Locks\<close> has the locale \<open>page_lock_table\<close>, a step relation of several processes, and
  that reference counts are the numbers of holders.

  \<^bold>\<open>Relation size cache\<close> (\<open>Rel_Size_Cache\<close>: the code of
  \<^verbatim>\<open>access/logindex/polar_rel_size_cache.c\<close>, on the bytes of its tables). \<open>Rel_Size_Log\<close> shows that
  tables in memory and files hold the log of the recorded events; \<open>Rel_Size_Query\<close> what the search through
  the tables finds in a log, and \<open>Rel_Size_Correct\<close> that the queries answer from all recorded events.
  An entry is in a table as the bytes of its struct, \<open>relation_size_bytes\<close> and \<open>database_state_bytes\<close>, on a
  machine with little-endian words; the code copies the structs.

  \<^bold>\<open>Logindex\<close> (\<^verbatim>\<open>access/polar_logindex_internal.h\<close>, \<^verbatim>\<open>access/logindex/polar_logindex.c\<close>, parts of
  \<^verbatim>\<open>access/logindex/polar_logindex_iterator.c\<close>, and \<^verbatim>\<open>lib/bloomfilter.c\<close>).
  \<open>Logindex_Table\<close> has the code of one table: items, segments, hash chains and order array.
  \<open>Logindex_Items\<close> gives its structural invariant and \<open>Logindex_Log\<close> shows that a table is the list
  of the LSNs added to it. \<open>Bloomfilter\<close> is the filter, \<open>Logindex_Storage\<close> the code for meta file,
  segment files and truncation, \<open>Logindex_Snapshot\<close> the code for the ring of tables in memory, for
  replicas, promotion and the start from storage. \<open>Logindex_Bloom\<close> shows that the filter written
  with a table lacks none of its pages.
  \<open>Logindex_Retention\<close> states what a snapshot keeps, the ring of unsaved tables in memory and the
  files of the saved ones, and that saving a table keeps it; \<open>Logindex_Steps\<close> does so for truncation,
  with the bounds in the meta data. \<open>Logindex_Background\<close> collects the steps of the other
  processes, flushing, reading, truncation and I/O errors, in the relation \<open>bg_step\<close>;
  a process reads a table from memory, from its own cache of one segment, or from the file, and the
  invariant \<open>cache_ok\<close> says that a cache agrees with the files.
  \<open>Logindex_Insert\<close> has the insertion of an LSN while these go on, and \<open>Logindex_Restart\<close> the start
  from the files after a crash. \<open>Logindex_Run\<close> is the step relation of whole runs with its
  invariant, and of runs beside a process that reads (\<open>reader_run\<close>), \<open>Logindex_Replay\<close> the replay of WAL records after a restart, and \<open>Logindex_Correct\<close> has
  the properties: nothing that was added is lost, replay completes what a crash took, adding,
  reading, truncation and restart return, and Bloom data and meta file are right. The loop of
  \<open>log_index_wait_active\<close> has as fuel the rounds of waiting, with the steps of the others in
  between; one round is enough without I/O errors. The loop of \<open>polar_logindex_truncate\<close> has the
  number of segment files as fuel, which is shown to suffice.

  \<^bold>\<open>Not modelled.\<close>
  \<^item> Of the queue manager: the encoding of a WAL record into a packet and its decoder, which are
    about the format of WAL records, and the switch of a replica between queue and WAL files.
  \<^item> Of the logindex: the iterators that merge the tables of a page and the cache of segment files
    on local disk. Replay itself (\<^verbatim>\<open>polar_logindex_redo.c\<close> and the files
    \<^verbatim>\<open>polar_*_idx.c\<close>) changes buffer pages in the formats of the resource managers of PostgreSQL.
  \<^item> Of storage: an operation on a file takes effect as a whole, or fails without an effect. So torn and
    partial writes, the bytes and LSN bounds that a failed write leaves behind, a failure of
    \<open>durable_unlink\<close>, and errors while a snapshot starts are not modelled, and a crash is between
    operations: writing a table with its Bloom data and its meta data is one of them, and so is the
    removal of one segment. The Bloom data is a map from table numbers; the SLRU pages that tables share, and
    their errors, are not modelled.
  \<^item> Of the interleaving: the insertion of an LSN is one step but for the rounds in which it waits for a
    table; while a writer makes space in the ring buffer, others act in the turns in which it sleeps; the
    flushable LSN stays the same while a walsender fills one message; the LWLock of a page
    in a mini transaction is not modelled apart from its reference count: to count the reference and to
    acquire the lock is one step.
  \<^item> Lengths of packets are natural numbers: the sum \<open>POLAR_RINGBUF_PKT_SIZE\<close>, which the code computes in
    32 bits, does not wrap, as for each packet that fits into a ring of less than 4 GB.
  \<^item> Sizes of shared memory, initialisation of locks, trace output and statistics.
  \<^item> The fairness of locks and the memory order of the processors: critical sections are atomic.
  \<^item> The other extensions of the server (CSN log, buffer management, flashback, DataMax, DMA,
    sessions, parallel execution with its optimizer) and the code of PostgreSQL itself: they
    consist of changes inside the buffer manager, the lock manager, the executor and the planner,
    and of I/O.
\<close>

end
